(* ===== verification/OcclumPrelude.thy ===== *)
theory OcclumPrelude
  imports Main "HOL-Library.Word"
begin

text \<open>
  Shared vocabulary of the development: the \<open>Result\<close> type of the LibOS with its error
  numbers, the machine arithmetic of a release build on \<open>usize\<close> (additions and
  subtractions wrap, \<open>checked_add\<close> does not), the alignment helpers of
  \<^verbatim>\<open>src/libos/src/prelude.rs\<close>, and the generic lemmas on lists and bits the component
  theories use.  Debug-only assertions are not part of the model of a function; where
  they matter they are proved as lemmas about it.
\<close>

unbundle bit_operations_syntax

named_theorems usize_simps \<open>evaluation of wrapping arithmetic when nothing wraps\<close>
named_theorems align_simps \<open>arithmetic reading of the alignment helpers\<close>

section \<open>Results\<close>

text \<open>
  The error numbers that the modelled functions return
  (\<^verbatim>\<open>src/libos/crates/errno/src/errno.rs\<close>), and the outcome of a Rust function: a
  value, an \<open>Err\<close> carrying the error number, or a panic (\<open>unwrap\<close> on \<open>None\<close>,
  an index out of range, \<open>unreachable!\<close>).
\<close>

datatype errno =
    EPERM | ENOENT | ESRCH | EINTR | EIO | EBADF | ECHILD | EAGAIN | ENOMEM | EACCES | EFAULT
  | EEXIST | EINVAL | EMFILE | ESPIPE | EPIPE | ENOSYS | EOVERFLOW | ETIMEDOUT

datatype 'a res = Ok 'a | Err errno | Panic

fun res_bind :: "'a res \<Rightarrow> ('a \<Rightarrow> 'b res) \<Rightarrow> 'b res" where
  "res_bind (Ok x) f = f x"
| "res_bind (Err e) f = Err e"
| "res_bind Panic f = Panic"

fun is_ok :: "'a res \<Rightarrow> bool" where
  "is_ok (Ok _) = True"
| "is_ok _ = False"

fun ok_or :: "'a option \<Rightarrow> errno \<Rightarrow> 'a res" where
  "ok_or (Some x) e = Ok x"
| "ok_or None e = Err e"

fun unwrap :: "'a option \<Rightarrow> 'a res" where
  "unwrap (Some x) = Ok x"
| "unwrap None = Panic"

fun map_res :: "('a \<Rightarrow> 'b) \<Rightarrow> 'a res \<Rightarrow> 'b res" where
  "map_res f (Ok x) = Ok (f x)"
| "map_res f (Err e) = Err e"
| "map_res f Panic = Panic"

lemma res_bind_Ok_iff:
  "res_bind r f = Ok y \<longleftrightarrow> (\<exists>x. r = Ok x \<and> f x = Ok y)"
  by (cases r) auto

lemma res_bind_assoc: "res_bind (res_bind r f) g = res_bind r (\<lambda>x. res_bind (f x) g)"
  by (cases r) auto

lemma res_bind_OkE:
  assumes "res_bind r f = Ok y"
  obtains x where "r = Ok x" "f x = Ok y"
  using assms by (auto simp: res_bind_Ok_iff)

lemma map_res_Ok_iff: "map_res f r = Ok y \<longleftrightarrow> (\<exists>x. r = Ok x \<and> y = f x)"
  by (cases r) auto

lemma map_res_OkE:
  assumes "map_res f r = Ok y"
  obtains x where "r = Ok x" "y = f x"
  using assms by (auto simp: map_res_Ok_iff)

lemma is_ok_iff: "is_ok r \<longleftrightarrow> (\<exists>x. r = Ok x)"
  by (cases r) auto

section \<open>Searching lists\<close>

text \<open>\<open>Iterator::position\<close>: the index of the first element with a property.\<close>

fun list_position :: "('a \<Rightarrow> bool) \<Rightarrow> 'a list \<Rightarrow> nat option" where
  "list_position P [] = None"
| "list_position P (x # xs) = (if P x then Some 0 else map_option Suc (list_position P xs))"

lemma list_position_None: "list_position P xs = None \<longleftrightarrow> (\<forall>x \<in> set xs. \<not> P x)"
  by (induction xs) auto

lemma list_position_split:
  "list_position P xs = Some i \<Longrightarrow>
     \<exists>ys x zs. xs = ys @ x # zs \<and> length ys = i \<and> P x \<and> (\<forall>y \<in> set ys. \<not> P y)"
proof (induction xs arbitrary: i)
  case (Cons a xs)
  show ?case
  proof (cases "P a")
    case True
    then show ?thesis using Cons.prems by (intro exI [of _ "[]"]) auto
  next
    case False
    then obtain j where j: "list_position P xs = Some j" "i = Suc j" using Cons.prems by auto
    from Cons.IH [OF j(1)] obtain ys x zs where
      "xs = ys @ x # zs" "length ys = j" "P x" "\<forall>y \<in> set ys. \<not> P y" by blast
    then show ?thesis using False j(2) by (intro exI [of _ "a # ys"]) auto
  qed
qed simp

lemma list_position_lt: "list_position P xs = Some i \<Longrightarrow> i < length xs"
  by (induction xs arbitrary: i) (auto split: if_splits)

lemma list_position_append:
  "P x \<Longrightarrow> \<forall>y \<in> set ys. \<not> P y \<Longrightarrow> list_position P (ys @ x # zs) = Some (length ys)"
  by (induction ys) auto

section \<open>Machine arithmetic on \<open>usize\<close>\<close>

type_synonym usize = nat
type_synonym pid_t = nat

abbreviation USIZE_MOD :: nat where
  "USIZE_MOD \<equiv> 18446744073709551616"

definition uadd :: "usize \<Rightarrow> usize \<Rightarrow> usize" where
  "uadd a b = (a + b) mod USIZE_MOD"

definition usub :: "usize \<Rightarrow> usize \<Rightarrow> usize" where
  "usub a b = (if b \<le> a then a - b else a + USIZE_MOD - b)"

definition checked_add :: "usize \<Rightarrow> usize \<Rightarrow> usize option" where
  "checked_add a b = (if a + b < USIZE_MOD then Some (a + b) else None)"

lemma uadd_no_wrap [usize_simps]: "a + b < USIZE_MOD \<Longrightarrow> uadd a b = a + b"
  by (simp add: uadd_def)

lemma uadd_lt: "uadd a b < USIZE_MOD"
  by (simp add: uadd_def)

lemma usub_no_wrap [usize_simps]: "b \<le> a \<Longrightarrow> usub a b = a - b"
  by (simp add: usub_def)

lemma usub_lt: "a < USIZE_MOD \<Longrightarrow> usub a b < USIZE_MOD"
  by (auto simp: usub_def)

lemma checked_add_Some: "checked_add a b = Some c \<longleftrightarrow> c = a + b \<and> a + b < USIZE_MOD"
  by (auto simp: checked_add_def)

lemma checked_add_None: "checked_add a b = None \<longleftrightarrow> USIZE_MOD \<le> a + b"
  by (auto simp: checked_add_def)

lemma uadd_usub: "a < USIZE_MOD \<Longrightarrow> b < USIZE_MOD \<Longrightarrow> usub (uadd a b) b = a"
  by (auto simp: uadd_def usub_def mod_if)

section \<open>Bits of words\<close>

lemma word_and_not_mask: "x AND NOT (mask n) = x - take_bit n (x :: 'a::len word)"
proof -
  have "x AND NOT (mask n) = x AND NOT (take_bit n x)"
    by (rule bit_word_eqI) (auto simp: bit_simps)
  also have "\<dots> = x - take_bit n x"
    by (rule disjunctive_diff_eq_and_not [symmetric]) (rule bit_word_eqI, auto simp: bit_simps)
  finally show ?thesis .
qed

lemma unat_take_bit: "unat (take_bit n x) = unat (x :: 'a::len word) mod 2 ^ n"
  by (simp only: unsigned_take_bit_eq take_bit_nat_def)

lemma unat_and_not_mask:
  "unat (x AND NOT (mask n)) = unat (x :: 'a::len word) - unat x mod 2 ^ n"
proof -
  have le: "take_bit n x \<le> x"
    by (simp only: word_le_nat_alt unat_take_bit mod_less_eq_dividend)
  show ?thesis
    by (simp only: word_and_not_mask unat_sub [OF le] unat_take_bit)
qed

section \<open>Alignment\<close>

text \<open>
  \<open>is_power_of_two\<close> is the method of Rust's \<open>usize\<close>; \<open>align_down\<close> and
  \<open>align_up\<close> are the two helpers of the LibOS prelude, computed on 64-bit words as the
  source does.
\<close>

definition is_power_of_two :: "usize \<Rightarrow> bool" where
  "is_power_of_two n \<longleftrightarrow> list_ex (\<lambda>k. n = 2 ^ k) [0..<64]"

definition align_down :: "usize \<Rightarrow> usize \<Rightarrow> usize" where
  "align_down addr align = unat ((word_of_nat addr :: 64 word) AND NOT (word_of_nat align - 1))"

definition align_up :: "usize \<Rightarrow> usize \<Rightarrow> usize" where
  "align_up addr align = align_down (uadd addr (usub align 1)) align"

lemma is_power_of_two_iff: "is_power_of_two n \<longleftrightarrow> (\<exists>k<64. n = 2 ^ k)"
  by (auto simp: is_power_of_two_def list_ex_iff simp del: upt_conv_Cons_Cons)

lemma is_power_of_two_pos: "is_power_of_two n \<Longrightarrow> 0 < n"
  by (auto simp: is_power_of_two_iff)

lemma is_power_of_two_le: "is_power_of_two n \<Longrightarrow> n \<le> 9223372036854775808"
proof -
  assume "is_power_of_two n"
  then obtain k where "k \<le> 63" "n = 2 ^ k" by (auto simp: is_power_of_two_iff)
  then have "n \<le> 2 ^ 63" by (simp only: power_increasing_iff one_less_numeral_iff semiring_norm)
  then show ?thesis by simp
qed

lemma is_power_of_two_dvd:
  "is_power_of_two a \<Longrightarrow> is_power_of_two b \<Longrightarrow> a \<le> b \<Longrightarrow> a dvd b"
  by (auto simp: is_power_of_two_iff le_imp_power_dvd)

lemma is_power_of_two_4096 [simp]: "is_power_of_two 4096"
  by (auto simp: is_power_of_two_iff intro!: exI [of _ 12])

lemma is_power_of_two_8192 [simp]: "is_power_of_two 8192"
  by (auto simp: is_power_of_two_iff intro!: exI [of _ 13])

lemma is_power_of_two_16 [simp]: "is_power_of_two 16"
  by (auto simp: is_power_of_two_iff intro!: exI [of _ 4])

lemma align_down_eq [align_simps]:
  assumes "is_power_of_two align" "addr < USIZE_MOD"
  shows "align_down addr align = addr - addr mod align"
proof -
  obtain k where k: "k < 64" "align = 2 ^ k"
    using assms(1) by (auto simp: is_power_of_two_iff)
  have m: "(word_of_nat align - 1 :: 64 word) = mask k"
    by (simp add: k mask_eq_exp_minus_1)
  have u: "unat (word_of_nat addr :: 64 word) = addr"
    using assms(2) by (simp add: unat_of_nat)
  show ?thesis
    unfolding align_down_def m unat_and_not_mask u by (simp add: k)
qed

lemma align_up_eq [align_simps]:
  assumes "is_power_of_two align" "addr + (align - 1) < USIZE_MOD"
  shows "align_up addr align = (addr + (align - 1)) - (addr + (align - 1)) mod align"
  using assms is_power_of_two_pos [OF assms(1)]
  by (simp add: align_up_def usize_simps align_down_eq)

lemma align_up_bounds:
  assumes "is_power_of_two align" "addr + (align - 1) < USIZE_MOD"
  shows "addr \<le> align_up addr align" "align_up addr align < addr + align"
    and "align_up addr align mod align = 0"
proof -
  have p: "0 < align" using assms(1) by (rule is_power_of_two_pos)
  have "(addr + (align - 1)) mod align \<le> align - 1"
    using p by (simp add: less_Suc_eq_le [symmetric])
  moreover have "\<dots> \<le> addr + (align - 1)" by simp
  ultimately show "addr \<le> align_up addr align" "align_up addr align < addr + align"
    using p by (auto simp: align_up_eq [OF assms])
  show "align_up addr align mod align = 0"
    by (simp add: align_up_eq [OF assms] minus_mod_eq_mult_div)
qed

text \<open>\<open>align_up\<close> is the least multiple of the alignment that is not below the address.\<close>

lemma align_up_least:
  assumes "is_power_of_two align" "addr + (align - 1) < USIZE_MOD"
    and "addr \<le> x" "x mod align = 0"
  shows "align_up addr align \<le> x"
proof (rule ccontr)
  assume "\<not> align_up addr align \<le> x"
  then have lt: "x < align_up addr align" by simp
  note b = align_up_bounds [OF assms(1,2)]
  have "align dvd align_up addr align - x"
    using assms(4) b(3) by (simp add: dvd_diff_nat mod_eq_0_iff_dvd)
  then have "align \<le> align_up addr align - x"
    using lt by (simp add: dvd_imp_le)
  then show False using b(2) assms(3) lt by linarith
qed

lemma align_up_aligned:
  assumes "is_power_of_two align" "addr + (align - 1) < USIZE_MOD" "addr mod align = 0"
  shows "align_up addr align = addr"
  using align_up_least [OF assms(1,2) order_refl assms(3)] align_up_bounds(1) [OF assms(1,2)]
  by simp

lemma align_down_bounds:
  assumes "is_power_of_two align" "addr < USIZE_MOD"
  shows "align_down addr align \<le> addr" "addr < align_down addr align + align"
    and "align_down addr align mod align = 0"
proof -
  have p: "0 < align" using assms(1) by (rule is_power_of_two_pos)
  have "addr mod align < align" using p by simp
  then show "align_down addr align \<le> addr" "addr < align_down addr align + align"
    by (auto simp: align_down_eq [OF assms])
  show "align_down addr align mod align = 0"
    by (simp add: align_down_eq [OF assms] minus_mod_eq_mult_div)
qed

section \<open>Address ranges as sets, and the lower half of the address space\<close>

text \<open>
  User addresses of an x86-64 process lie below \<open>2 ^ 47\<close>; the enclave and the host memory
  it maps are part of that half.
\<close>

abbreviation ADDR_LIMIT :: nat where
  "ADDR_LIMIT \<equiv> 140737488355328"

lemma align_up_in_space:
  assumes "is_power_of_two align" "addr \<le> ADDR_LIMIT"
  shows "addr + (align - 1) < USIZE_MOD"
  using is_power_of_two_le [OF assms(1)] assms(2) by linarith

lemma atLeastLessThan_Int: "{a..<b} \<inter> {c..<d} = {max a c..<min b (d::nat)}"
  by auto

end
