(* ===== verification/VmRange.thy ===== *)
theory VmRange
  imports OcclumPrelude
begin

text \<open>
  Page-aligned address ranges of the LibOS (\<^verbatim>\<open>src/libos/src/vm/vm_range.rs\<close>), the
  size-and-alignment layouts that the ELF loader accumulates
  (\<^verbatim>\<open>src/libos/src/vm/vm_layout.rs\<close>), and the set of addresses a range stands for.
  The lemmas show that the interval arithmetic of the source is set algebra on
  \<open>addrs\<close>: intersection, subtraction into at most two pieces, containment, overlap.
\<close>

abbreviation PAGE_SIZE :: usize where
  "PAGE_SIZE \<equiv> 4096"

named_theorems range_simps \<open>ranges as sets of addresses\<close>

section \<open>Ranges\<close>

record VMRange =
  r_start :: usize
  r_end :: usize

abbreviation mk_range :: "usize \<Rightarrow> usize \<Rightarrow> VMRange" where
  "mk_range s e \<equiv> \<lparr>r_start = s, r_end = e\<rparr>"

definition VMRange_new :: "usize \<Rightarrow> usize \<Rightarrow> VMRange res" where
  "VMRange_new s e =
     (if s mod PAGE_SIZE \<noteq> 0 \<or> e mod PAGE_SIZE \<noteq> 0 \<or> s > e then Err EINVAL
      else Ok (mk_range s e))"

definition VMRange_new_with_size :: "usize \<Rightarrow> usize \<Rightarrow> VMRange res" where
  "VMRange_new_with_size s sz =
     res_bind (ok_or (checked_add s sz) EINVAL) (\<lambda>e. VMRange_new s e)"

definition VMRange_new_empty :: "usize \<Rightarrow> VMRange res" where
  "VMRange_new_empty s =
     (if s mod PAGE_SIZE \<noteq> 0 then Err EINVAL else Ok (mk_range s s))"

definition VMRange_from_unchecked :: "usize \<Rightarrow> usize \<Rightarrow> VMRange" where
  "VMRange_from_unchecked s e = mk_range s e"

definition VMRange_size :: "VMRange \<Rightarrow> usize" where
  "VMRange_size r = usub (r_end r) (r_start r)"

definition VMRange_resize :: "VMRange \<Rightarrow> usize \<Rightarrow> VMRange" where
  "VMRange_resize r new_size = r\<lparr>r_end := uadd (r_start r) new_size\<rparr>"

definition VMRange_set_start :: "VMRange \<Rightarrow> usize \<Rightarrow> VMRange" where
  "VMRange_set_start r new_start = r\<lparr>r_start := new_start\<rparr>"

definition VMRange_set_end :: "VMRange \<Rightarrow> usize \<Rightarrow> VMRange" where
  "VMRange_set_end r new_end = r\<lparr>r_end := new_end\<rparr>"

definition VMRange_empty :: "VMRange \<Rightarrow> bool" where
  "VMRange_empty r \<longleftrightarrow> r_start r = r_end r"

definition is_superset_of :: "VMRange \<Rightarrow> VMRange \<Rightarrow> bool" where
  "is_superset_of r other \<longleftrightarrow> r_start r \<le> r_start other \<and> r_end other \<le> r_end r"

definition VMRange_contains :: "VMRange \<Rightarrow> usize \<Rightarrow> bool" where
  "VMRange_contains r addr \<longleftrightarrow> r_start r \<le> addr \<and> addr < r_end r"

definition overlap_with :: "VMRange \<Rightarrow> VMRange \<Rightarrow> bool" where
  "overlap_with r other \<longleftrightarrow>
     max (r_start r) (r_start other) < min (r_end r) (r_end other)"

definition VMRange_intersect :: "VMRange \<Rightarrow> VMRange \<Rightarrow> VMRange option" where
  "VMRange_intersect r other =
     (let intersection_start = max (r_start r) (r_start other);
          intersection_end = min (r_end r) (r_end other)
      in if intersection_start \<ge> intersection_end then None
         else Some (VMRange_from_unchecked intersection_start intersection_end))"

definition VMRange_subtract :: "VMRange \<Rightarrow> VMRange \<Rightarrow> VMRange list" where
  "VMRange_subtract r other =
     (if VMRange_size r = 0 then []
      else case VMRange_intersect r other of
        None \<Rightarrow> [r]
      | Some i \<Rightarrow>
          (case (r_start r < r_start i, r_end i < r_end r) of
             (False, False) \<Rightarrow> []
           | (False, True) \<Rightarrow> [VMRange_from_unchecked (r_end i) (r_end r)]
           | (True, False) \<Rightarrow> [VMRange_from_unchecked (r_start r) (r_start i)]
           | (True, True) \<Rightarrow> [VMRange_from_unchecked (r_start r) (r_start i),
                              VMRange_from_unchecked (r_end i) (r_end r)]))"

definition is_contiguous_with :: "VMRange \<Rightarrow> VMRange \<Rightarrow> bool" where
  "is_contiguous_with r other \<longleftrightarrow> r_start r = r_end other \<or> r_end r = r_start other"

section \<open>Layouts\<close>

record VMLayout =
  l_size :: usize
  l_align :: usize

definition VMLayout_new :: "usize \<Rightarrow> usize \<Rightarrow> VMLayout res" where
  "VMLayout_new sz al =
     (if \<not> is_power_of_two al then Err EINVAL else Ok \<lparr>l_size = sz, l_align = al\<rparr>)"

definition VMLayout_new_empty :: VMLayout where
  "VMLayout_new_empty = \<lparr>l_size = 0, l_align = PAGE_SIZE\<rparr>"

definition VMLayout_add :: "VMLayout \<Rightarrow> VMLayout \<Rightarrow> VMLayout" where
  "VMLayout_add l more_space =
     (if l_size more_space = 0 then l
      else \<lparr>l_size = uadd (align_up (l_size l) (l_align more_space)) (l_size more_space),
            l_align = max (l_align l) (l_align more_space)\<rparr>)"

definition VMLayout_extend :: "VMLayout \<Rightarrow> VMLayout \<Rightarrow> VMLayout" where
  "VMLayout_extend l new_space =
     (if l_size new_space = 0 then l
      else let al = max (l_align l) (l_align new_space)
           in \<lparr>l_size = align_up (max (l_size l) (l_size new_space)) al, l_align = al\<rparr>)"

definition VMRange_new_with_layout :: "VMLayout \<Rightarrow> usize \<Rightarrow> VMRange" where
  "VMRange_new_with_layout layout min_start =
     (let s = align_up min_start (l_align layout);
          e = align_up (uadd s (l_size layout)) PAGE_SIZE
      in VMRange_from_unchecked s e)"

section \<open>Ranges as sets of addresses\<close>

definition addrs :: "VMRange \<Rightarrow> nat set" where
  "addrs r = {r_start r..<r_end r}"

definition range_ok :: "VMRange \<Rightarrow> bool" where
  "range_ok r \<longleftrightarrow> r_start r \<le> r_end r \<and> r_end r \<le> ADDR_LIMIT"

definition page_aligned :: "VMRange \<Rightarrow> bool" where
  "page_aligned r \<longleftrightarrow> r_start r mod PAGE_SIZE = 0 \<and> r_end r mod PAGE_SIZE = 0"

lemma VMRange_new_Ok_iff:
  "VMRange_new s e = Ok r \<longleftrightarrow>
     r = mk_range s e \<and> s \<le> e \<and> s mod PAGE_SIZE = 0 \<and> e mod PAGE_SIZE = 0"
  by (auto simp: VMRange_new_def)

lemma VMRange_new_with_size_Ok_iff:
  "VMRange_new_with_size s sz = Ok r \<longleftrightarrow>
     r = mk_range s (s + sz) \<and> s + sz < USIZE_MOD \<and>
     s mod PAGE_SIZE = 0 \<and> (s + sz) mod PAGE_SIZE = 0"
  by (auto simp: VMRange_new_with_size_def checked_add_def VMRange_new_def)

lemma finite_addrs [simp]: "finite (addrs r)"
  by (simp add: addrs_def)

lemma mem_addrs [range_simps]: "a \<in> addrs r \<longleftrightarrow> r_start r \<le> a \<and> a < r_end r"
  by (simp add: addrs_def)

lemma addrs_empty_iff [range_simps]: "addrs r = {} \<longleftrightarrow> r_end r \<le> r_start r"
  by (auto simp: addrs_def)

lemma VMRange_size_ok [range_simps]: "range_ok r \<Longrightarrow> VMRange_size r = r_end r - r_start r"
  by (simp add: range_ok_def VMRange_size_def usize_simps)

lemma VMRange_size_card: "range_ok r \<Longrightarrow> VMRange_size r = card (addrs r)"
  by (simp add: range_simps addrs_def)

lemma VMRange_contains_iff: "VMRange_contains r a \<longleftrightarrow> a \<in> addrs r"
  by (simp add: VMRange_contains_def range_simps)

lemma is_superset_of_subset: "is_superset_of r s \<Longrightarrow> addrs s \<subseteq> addrs r"
  by (auto simp: is_superset_of_def range_simps)

lemma is_superset_of_iff:
  "r_start s < r_end s \<Longrightarrow> is_superset_of r s \<longleftrightarrow> addrs s \<subseteq> addrs r"
  by (auto simp: is_superset_of_def addrs_def)

lemma overlap_with_iff: "overlap_with r s \<longleftrightarrow> addrs r \<inter> addrs s \<noteq> {}"
  by (simp add: overlap_with_def addrs_def atLeastLessThan_Int del: max_less_iff_conj min_less_iff_conj)

lemma VMRange_intersect_Some:
  "VMRange_intersect r s = Some i \<Longrightarrow>
     addrs i = addrs r \<inter> addrs s \<and> r_start i < r_end i \<and>
     r_start r \<le> r_start i \<and> r_end i \<le> r_end r \<and> r_start s \<le> r_start i \<and> r_end i \<le> r_end s"
  by (auto simp: VMRange_intersect_def VMRange_from_unchecked_def addrs_def Let_def split: if_splits)

lemma VMRange_intersect_None: "VMRange_intersect r s = None \<longleftrightarrow> addrs r \<inter> addrs s = {}"
  by (auto simp: VMRange_intersect_def Let_def addrs_def atLeastLessThan_Int
      simp del: max_less_iff_conj min_less_iff_conj)

lemma VMRange_intersect_aligned:
  "VMRange_intersect r s = Some i \<Longrightarrow> page_aligned r \<Longrightarrow> page_aligned s \<Longrightarrow> page_aligned i"
  by (auto simp: VMRange_intersect_def VMRange_from_unchecked_def page_aligned_def Let_def max_def min_def
      split: if_splits)

text \<open>
  Subtraction leaves non-empty pieces, in address order, with a gap between them, whose
  addresses are the difference (the post-condition that the source comment states).
\<close>

lemma VMRange_subtract_addrs:
  assumes "range_ok r"
  shows "\<Union> (addrs ` set (VMRange_subtract r s)) = addrs r - addrs s"
  using assms
  by (auto simp: VMRange_subtract_def VMRange_intersect_def VMRange_from_unchecked_def Let_def
      range_simps split: bool.splits if_splits)

lemma VMRange_subtract_piece:
  assumes "range_ok r" "p \<in> set (VMRange_subtract r s)"
  shows "r_start p < r_end p \<and> r_start r \<le> r_start p \<and> r_end p \<le> r_end r"
  using assms
  by (auto simp: VMRange_subtract_def VMRange_intersect_def VMRange_from_unchecked_def Let_def
      range_simps range_ok_def split: bool.splits if_splits)

lemma VMRange_subtract_sorted:
  assumes "range_ok r" "VMRange_subtract r s = [p, q]"
  shows "r_end p < r_start q"
  using assms
  by (auto simp: VMRange_subtract_def VMRange_intersect_def VMRange_from_unchecked_def Let_def
      range_simps split: bool.splits if_splits)

lemma VMRange_subtract_length: "length (VMRange_subtract r s) \<le> 2"
  by (auto simp: VMRange_subtract_def split: option.splits bool.splits)

lemma VMRange_subtract_aligned:
  assumes "page_aligned r" "page_aligned s" "p \<in> set (VMRange_subtract r s)"
  shows "page_aligned p"
  using assms
  by (auto simp: VMRange_subtract_def VMRange_from_unchecked_def page_aligned_def
      VMRange_intersect_def Let_def max_def min_def split: option.splits bool.splits if_splits)

text \<open>The pieces of a sub-range cut out of a range, computed.\<close>

lemma VMRange_subtract_inside:
  assumes "r_start r \<le> s" "s < e" "e \<le> r_end r"
  shows "VMRange_subtract r (mk_range s e) =
     (if r_start r < s then [mk_range (r_start r) s] else []) @
     (if e < r_end r then [mk_range e (r_end r)] else [])"
  using assms
  by (auto simp: VMRange_subtract_def VMRange_intersect_def VMRange_from_unchecked_def Let_def
      VMRange_size_def usize_simps max_def min_def)

lemma VMRange_set_start_eq [simp]: "VMRange_set_start r s = mk_range s (r_end r)"
  by (cases r) (simp add: VMRange_set_start_def)

lemma VMRange_set_end_eq [simp]: "VMRange_set_end r e = mk_range (r_start r) e"
  by (cases r) (simp add: VMRange_set_end_def)

lemma disjoint_cases:
  assumes "r_start a < r_end a" "r_start b < r_end b" "addrs a \<inter> addrs b = {}"
  shows "r_end a \<le> r_start b \<or> r_end b \<le> r_start a"
  using assms by (auto simp: addrs_def atLeastLessThan_Int max_def min_def split: if_splits)

lemma addrs_join:
  "r_start a \<le> m \<Longrightarrow> m \<le> r_end b \<Longrightarrow> r_end a = m \<Longrightarrow> r_start b = m \<Longrightarrow>
     addrs (mk_range (r_start a) (r_end b)) = addrs a \<union> addrs b"
  by (auto simp: addrs_def)


end
