(* ===== verification/AllocSpec.thy ===== *)
theory AllocSpec
  imports VmRange
begin

text \<open>
  The contract of a range allocator, as the chunk managers of the LibOS and of the
  untrusted-memory allocator rely on it: an abstract state with an invariant and a set of
  free addresses, a search that takes a range away and an operation that gives one back.
  The client side is proved once, inside the locale: whatever sequence of allocations and
  releases is run, live ranges never overlap each other or the free space, no address is
  lost, and releasing everything restores the initial state.
\<close>

definition proper :: "VMRange \<Rightarrow> bool" where
  "proper r \<longleftrightarrow> r_start r < r_end r \<and> r_end r \<le> ADDR_LIMIT"

lemma proper_ok: "proper r \<Longrightarrow> range_ok r"
  by (simp add: proper_def range_ok_def)

lemma proper_addrs: "proper r \<Longrightarrow> addrs r \<noteq> {}"
  by (simp add: proper_def addrs_empty_iff)

text \<open>
  Sequences of requests: \<open>Take q\<close> asks for a range, \<open>Give r\<close> returns a live one.  The
  state pairs the allocator with the ranges that are in use.
\<close>

datatype 'q pool_op = Take 'q | Give VMRange

fun pool_step ::
  "('m \<Rightarrow> 'q \<Rightarrow> ('m \<times> VMRange) res) \<Rightarrow> ('m \<Rightarrow> VMRange \<Rightarrow> 'm)
     \<Rightarrow> 'm \<times> VMRange list \<Rightarrow> 'q pool_op \<Rightarrow> 'm \<times> VMRange list" where
  "pool_step search give (m, used) (Take q) =
     (case search m q of Ok (m', r) \<Rightarrow> (m', r # used) | _ \<Rightarrow> (m, used))"
| "pool_step search give (m, used) (Give r) =
     (if r \<in> set used then (give m r, remove1 r used) else (m, used))"

fun op_valid :: "('q \<Rightarrow> bool) \<Rightarrow> 'q pool_op \<Rightarrow> bool" where
  "op_valid valid (Take q) = valid q"
| "op_valid valid (Give r) = True"

definition pool_run ::
  "('m \<Rightarrow> 'q \<Rightarrow> ('m \<times> VMRange) res) \<Rightarrow> ('m \<Rightarrow> VMRange \<Rightarrow> 'm)
     \<Rightarrow> 'm \<times> VMRange list \<Rightarrow> 'q pool_op list \<Rightarrow> 'm \<times> VMRange list" where
  "pool_run search give = foldl (pool_step search give)"

text \<open>Ranges of a list are non-empty and pairwise disjoint.\<close>

fun disjoint_ranges :: "VMRange list \<Rightarrow> bool" where
  "disjoint_ranges [] = True"
| "disjoint_ranges (r # rs) =
     (proper r \<and> (\<forall>s \<in> set rs. addrs r \<inter> addrs s = {}) \<and> disjoint_ranges rs)"

definition used_set :: "VMRange list \<Rightarrow> nat set" where
  "used_set rs = \<Union> (addrs ` set rs)"

lemma used_set_Nil [simp]: "used_set [] = {}"
  by (simp add: used_set_def)

lemma used_set_Cons [simp]: "used_set (r # rs) = addrs r \<union> used_set rs"
  by (simp add: used_set_def)

lemma disjoint_ranges_proper: "disjoint_ranges rs \<Longrightarrow> r \<in> set rs \<Longrightarrow> proper r"
  by (induction rs) auto

lemma disjoint_ranges_distinct: "disjoint_ranges rs \<Longrightarrow> distinct rs"
  by (induction rs) (auto dest: proper_addrs)

lemma disjoint_ranges_remove1:
  "disjoint_ranges rs \<Longrightarrow> disjoint_ranges (remove1 r rs)"
  by (induction rs) (auto dest: notin_set_remove1)

lemma used_set_remove1:
  assumes "disjoint_ranges rs" "r \<in> set rs"
  shows "used_set (remove1 r rs) = used_set rs - addrs r"
  using assms
proof (induction rs)
  case (Cons s rs)
  then show ?case by (cases "r = s") (auto simp: used_set_def)
qed simp

lemma disjoint_ranges_pairwise:
  "disjoint_ranges rs \<Longrightarrow> r \<in> set rs \<Longrightarrow> s \<in> set rs \<Longrightarrow> r \<noteq> s \<Longrightarrow> addrs r \<inter> addrs s = {}"
  by (induction rs) auto

locale free_space =
  fixes search :: "'m \<Rightarrow> 'q \<Rightarrow> ('m \<times> VMRange) res"
    and give :: "'m \<Rightarrow> VMRange \<Rightarrow> 'm"
    and fset :: "'m \<Rightarrow> nat set"
    and invar :: "'m \<Rightarrow> bool"
    and valid :: "'q \<Rightarrow> bool"
    and req_size :: "'q \<Rightarrow> usize"
  assumes search_Ok:
      "invar m \<Longrightarrow> valid q \<Longrightarrow> search m q = Ok (m', r) \<Longrightarrow>
         invar m' \<and> fset m' = fset m - addrs r \<and> addrs r \<subseteq> fset m \<and>
         proper r \<and> VMRange_size r = req_size q"
    and search_no_panic: "invar m \<Longrightarrow> valid q \<Longrightarrow> search m q \<noteq> Panic"
    and give_back:
      "invar m \<Longrightarrow> proper r \<Longrightarrow> addrs r \<inter> fset m = {} \<Longrightarrow>
         invar (give m r) \<and> fset (give m r) = fset m \<union> addrs r"
    and fset_inj: "invar m \<Longrightarrow> invar m' \<Longrightarrow> fset m = fset m' \<Longrightarrow> m = m'"
begin

lemma search_then_give:
  assumes "invar m" "valid q" "search m q = Ok (m', r)"
  shows "give m' r = m"
proof -
  note f = search_Ok [OF assms]
  have "invar (give m' r) \<and> fset (give m' r) = fset m' \<union> addrs r"
    using f by (intro give_back) auto
  then show ?thesis
    using f assms(1) by (intro fset_inj) auto
qed

definition pool_inv :: "nat set \<Rightarrow> 'm \<times> VMRange list \<Rightarrow> bool" where
  "pool_inv S st \<longleftrightarrow>
     invar (fst st) \<and> disjoint_ranges (snd st) \<and>
     fset (fst st) \<inter> used_set (snd st) = {} \<and> fset (fst st) \<union> used_set (snd st) = S"

lemma pool_step_inv:
  assumes "pool_inv S st" "op_valid valid op"
  shows "pool_inv S (pool_step search give st op)"
proof (cases st)
  case (Pair m used)
  with assms(1) have inv: "invar m" "disjoint_ranges used" "fset m \<inter> used_set used = {}"
    "fset m \<union> used_set used = S"
    by (auto simp: pool_inv_def)
  show ?thesis
  proof (cases op)
    case (Take q)
    show ?thesis
    proof (cases "search m q")
      case (Ok p)
      obtain m' r where p: "p = (m', r)" by (cases p)
      note f = search_Ok [OF inv(1) _ Ok [unfolded p]]
      have "addrs r \<inter> used_set used = {}" using f inv(3) Take assms(2) by auto
      then have "\<forall>s \<in> set used. addrs r \<inter> addrs s = {}" by (auto simp: used_set_def)
      then show ?thesis
        using f inv Pair Take assms(2) Ok p by (auto simp: pool_inv_def)
    qed (use inv Pair Take in \<open>auto simp: pool_inv_def\<close>)
  next
    case (Give r)
    show ?thesis
    proof (cases "r \<in> set used")
      case True
      then have "proper r" "addrs r \<inter> fset m = {}"
        using inv disjoint_ranges_proper by (auto simp: used_set_def)
      then have "invar (give m r) \<and> fset (give m r) = fset m \<union> addrs r"
        using inv(1) by (intro give_back)
      moreover have "addrs r \<subseteq> used_set used" using True by (auto simp: used_set_def)
      ultimately show ?thesis
        using inv Give Pair True disjoint_ranges_remove1 [of used r] used_set_remove1 [of used r]
        by (auto simp: pool_inv_def)
    qed (use inv Pair Give in \<open>auto simp: pool_inv_def\<close>)
  qed
qed

lemma pool_run_inv:
  "pool_inv S st \<Longrightarrow> \<forall>op \<in> set ops. op_valid valid op \<Longrightarrow> pool_inv S (pool_run search give st ops)"
  by (induction ops arbitrary: st) (auto simp: pool_run_def pool_step_inv)

text \<open>The three promises to a client, for any run from a fresh allocator.\<close>

lemma pool_run_safe:
  assumes "invar m" "\<forall>op \<in> set ops. op_valid valid op" "pool_run search give (m, []) ops = (m', used)"
  shows "invar m' \<and> disjoint_ranges used \<and> fset m' \<inter> used_set used = {} \<and>
    fset m' \<union> used_set used = fset m \<and> (used = [] \<longrightarrow> m' = m)"
proof -
  have "pool_inv (fset m) (m, [])" using assms(1) by (simp add: pool_inv_def)
  from pool_run_inv [OF this assms(2)] assms(3)
  have i: "pool_inv (fset m) (m', used)" by simp
  moreover have "m' = m" if "used = []"
    using i that assms(1) by (intro fset_inj) (auto simp: pool_inv_def)
  ultimately show ?thesis by (auto simp: pool_inv_def)
qed

end

end
