(* ===== verification/FreeSpace.thy ===== *)
theory FreeSpace
  imports AllocSpec
begin

text \<open>
  The address-ordered first-fit free list of the LibOS
  (\<^verbatim>\<open>src/libos/src/vm/free_space_manager.rs\<close>).  The state is the vector of free ranges.
  A free list is well formed (\<open>fl_inv\<close>) when its ranges are non-empty, lie in the user
  half of the address space and are separated by gaps, so neighbours are always coalesced.
  The specification is the set \<open>free_set\<close> of free addresses: a successful search takes a
  sub-range of it away, giving a range back adds it, and a well-formed list is determined by
  its set of addresses.
\<close>

section \<open>The code\<close>

datatype VMMapAddr = Any | Hint usize | Need usize | Force usize

type_synonym VMFreeSpaceManager = "VMRange list"

definition FreeSpace_new :: "VMRange \<Rightarrow> VMFreeSpaceManager" where
  "FreeSpace_new initial_free_range = [initial_free_range]"

definition free_size :: "VMFreeSpaceManager \<Rightarrow> usize" where
  "free_size fl = fold (\<lambda>r acc. uadd acc (VMRange_size r)) fl 0"

text \<open>
  The search loop.  \<open>acc\<close> is the pair \<open>result_free_range\<close>, \<open>result_idx\<close>: it is only set
  by a hint that failed, and the loop then keeps going.
\<close>

fun find_loop ::
  "usize \<Rightarrow> usize \<Rightarrow> VMMapAddr \<Rightarrow> nat \<Rightarrow> VMRange list \<Rightarrow> (VMRange \<times> nat) option
     \<Rightarrow> (VMRange \<times> nat) option res" where
  "find_loop sz align addr idx [] acc = Ok acc"
| "find_loop sz align addr idx (free_range # rest) acc =
     (if VMRange_size free_range < sz then find_loop sz align addr (Suc idx) rest acc
      else case addr of
        Any \<Rightarrow>
          (let s = align_up (r_start free_range) align; e = uadd s sz
           in if e > r_end free_range then find_loop sz align addr (Suc idx) rest acc
              else Ok (Some (mk_range s e, idx)))
      | Hint a \<Rightarrow>
          (if VMRange_contains free_range a \<and> usub (r_end free_range) a \<ge> sz
           then Ok (Some (mk_range a (uadd a sz), idx))
           else if (case acc of None \<Rightarrow> True
                    | Some (r, _) \<Rightarrow> VMRange_size r > VMRange_size free_range)
           then (let s = align_up (r_start free_range) align; e = uadd s sz
                 in if e > r_end free_range then find_loop sz align addr (Suc idx) rest acc
                    else find_loop sz align addr (Suc idx) rest (Some (mk_range s e, idx)))
           else find_loop sz align addr (Suc idx) rest acc)
      | Need a \<Rightarrow>
          (if r_start free_range > a then Err ENOMEM
           else if \<not> VMRange_contains free_range a
           then find_loop sz align addr (Suc idx) rest acc
           else if usub (r_end free_range) a < sz then Err ENOMEM
           else Ok (Some (mk_range a (uadd a sz), idx)))
      | Force a \<Rightarrow>
          (if r_start free_range > a then Err ENOMEM
           else if \<not> VMRange_contains free_range a
           then find_loop sz align addr (Suc idx) rest acc
           else if usub (r_end free_range) a < sz then Err ENOMEM
           else Ok (Some (mk_range a (uadd a sz), idx))))"

definition free_list_update_range ::
  "VMFreeSpaceManager \<Rightarrow> nat \<Rightarrow> VMRange \<Rightarrow> VMFreeSpaceManager res" where
  "free_list_update_range fl index r =
     (if index < length fl then
        (case VMRange_subtract (fl ! index) r of
           [] \<Rightarrow> Ok (take index fl @ drop (Suc index) fl)
         | [a] \<Rightarrow> Ok (fl[index := a])
         | a # b # _ \<Rightarrow> Ok (take (Suc index) (fl[index := a]) @ b # drop (Suc index) fl))
      else Panic)"

fun unaligned_request :: "VMMapAddr \<Rightarrow> usize \<Rightarrow> bool" where
  "unaligned_request Any align = False"
| "unaligned_request (Hint a) align = (a mod align \<noteq> 0)"
| "unaligned_request (Need a) align = (a mod align \<noteq> 0)"
| "unaligned_request (Force a) align = (a mod align \<noteq> 0)"

definition find_free_range_internal ::
  "VMFreeSpaceManager \<Rightarrow> usize \<Rightarrow> usize \<Rightarrow> VMMapAddr \<Rightarrow> (VMFreeSpaceManager \<times> VMRange) res" where
  "find_free_range_internal fl sz align addr =
     (if unaligned_request addr align then Err EINVAL
      else res_bind (find_loop sz align addr 0 fl None)
        (\<lambda>result. case result of
            None \<Rightarrow> Err ENOMEM
          | Some (r, index) \<Rightarrow>
              res_bind (free_list_update_range fl index r) (\<lambda>fl'. Ok (fl', r))))"

text \<open>The scan for the two neighbours of a range that is given back.\<close>

fun insert_between :: "VMRange \<Rightarrow> VMRange list \<Rightarrow> VMRange list" where
  "insert_between dirty (left # right # rest) =
     (if r_end left \<le> r_start dirty \<and> r_end dirty \<le> r_start right then
        (case (is_contiguous_with dirty left, is_contiguous_with dirty right) of
           (True, True) \<Rightarrow> VMRange_set_end left (r_end right) # rest
         | (True, False) \<Rightarrow> VMRange_set_end left (r_end dirty) # right # rest
         | (False, True) \<Rightarrow> left # VMRange_set_start right (r_start dirty) # rest
         | (False, False) \<Rightarrow> left # dirty # right # rest)
      else left # insert_between dirty (right # rest))"
| "insert_between dirty fl = fl"

definition add_range_back_to_free_manager ::
  "VMFreeSpaceManager \<Rightarrow> VMRange \<Rightarrow> VMFreeSpaceManager" where
  "add_range_back_to_free_manager fl dirty =
     (case fl of
        [] \<Rightarrow> [dirty]
      | head # tl_fl \<Rightarrow>
          (if r_end dirty = r_start head then VMRange_set_start head (r_start dirty) # tl_fl
           else if r_end dirty < r_start head then dirty # fl
           else let tail = last fl
             in if r_start dirty = r_end tail
                then butlast fl @ [VMRange_set_end tail (r_end dirty)]
                else if r_start dirty > r_end tail then fl @ [dirty]
                else insert_between dirty fl))"

definition is_free_range :: "VMFreeSpaceManager \<Rightarrow> VMRange \<Rightarrow> bool" where
  "is_free_range fl request_range \<longleftrightarrow>
     list_ex (\<lambda>free_range. is_superset_of free_range request_range) fl"

section \<open>The specification\<close>

definition free_set :: "VMFreeSpaceManager \<Rightarrow> nat set" where
  "free_set fl = \<Union> (addrs ` set fl)"

abbreviation separated :: "VMRange \<Rightarrow> VMRange \<Rightarrow> bool" where
  "separated a b \<equiv> r_end a < r_start b"

definition fl_inv :: "VMFreeSpaceManager \<Rightarrow> bool" where
  "fl_inv fl \<longleftrightarrow> (\<forall>r \<in> set fl. proper r) \<and> sorted_wrt separated fl"

definition fits :: "usize \<Rightarrow> usize \<Rightarrow> VMRange \<Rightarrow> VMRange \<Rightarrow> bool" where
  "fits sz align free r \<longleftrightarrow>
     r_start free \<le> r_start r \<and> r_end r = r_start r + sz \<and> r_end r \<le> r_end free \<and>
     r_start r mod align = 0"

definition block :: "nat set \<Rightarrow> usize \<Rightarrow> usize \<Rightarrow> usize \<Rightarrow> bool" where
  "block F sz align s \<longleftrightarrow> s mod align = 0 \<and> {s..<s + sz} \<subseteq> F"

definition first_fit :: "nat set \<Rightarrow> usize \<Rightarrow> usize \<Rightarrow> usize option" where
  "first_fit F sz align =
     (if \<exists>s. block F sz align s then Some (LEAST s. block F sz align s) else None)"

fun spec_choice :: "nat set \<Rightarrow> usize \<Rightarrow> usize \<Rightarrow> VMMapAddr \<Rightarrow> usize option" where
  "spec_choice F sz align Any = first_fit F sz align"
| "spec_choice F sz align (Hint a) =
     (if block F sz align a then Some a else first_fit F sz align)"
| "spec_choice F sz align (Need a) = (if block F sz align a then Some a else None)"
| "spec_choice F sz align (Force a) = (if block F sz align a then Some a else None)"

definition find_spec ::
  "nat set \<Rightarrow> usize \<Rightarrow> usize \<Rightarrow> VMMapAddr \<Rightarrow> (nat set \<times> VMRange) res" where
  "find_spec F sz align addr =
     (if unaligned_request addr align then Err EINVAL
      else case spec_choice F sz align addr of
        None \<Rightarrow> Err ENOMEM
      | Some s \<Rightarrow> Ok (F - {s..<s + sz}, mk_range s (s + sz)))"


text \<open>The first range of a list in which an aligned block fits, and that block.\<close>

definition fitting :: "usize \<Rightarrow> usize \<Rightarrow> VMRange \<Rightarrow> bool" where
  "fitting sz align x \<longleftrightarrow> align_up (r_start x) align + sz \<le> r_end x"

definition place :: "usize \<Rightarrow> usize \<Rightarrow> VMRange \<Rightarrow> VMRange" where
  "place sz align x = mk_range (align_up (r_start x) align) (align_up (r_start x) align + sz)"

fun first_fitting :: "usize \<Rightarrow> usize \<Rightarrow> nat \<Rightarrow> VMRange list \<Rightarrow> (VMRange \<times> nat) option" where
  "first_fitting sz align idx [] = None"
| "first_fitting sz align idx (x # rest) =
     (if fitting sz align x then Some (place sz align x, idx)
      else first_fitting sz align (Suc idx) rest)"


section \<open>Free lists as sets\<close>

lemma fl_inv_Nil [simp]: "fl_inv []"
  by (simp add: fl_inv_def)

lemma fl_inv_Cons:
  "fl_inv (r # fl) \<longleftrightarrow> proper r \<and> (\<forall>x \<in> set fl. separated r x) \<and> fl_inv fl"
  by (auto simp: fl_inv_def)

lemma fl_inv_append:
  "fl_inv (xs @ ys) \<longleftrightarrow>
     fl_inv xs \<and> fl_inv ys \<and> (\<forall>x \<in> set xs. \<forall>y \<in> set ys. separated x y)"
  by (auto simp: fl_inv_def sorted_wrt_append)

lemma free_set_Nil [simp]: "free_set [] = {}"
  by (simp add: free_set_def)

lemma free_set_Cons [simp]: "free_set (r # fl) = addrs r \<union> free_set fl"
  by (simp add: free_set_def)

lemma free_set_append [simp]: "free_set (xs @ ys) = free_set xs \<union> free_set ys"
  by (simp add: free_set_def)

lemma finite_free_set [simp]: "finite (free_set fl)"
  by (simp add: free_set_def)

lemma free_set_above:
  "\<forall>x \<in> set fl. separated r x \<Longrightarrow> a \<in> free_set fl \<Longrightarrow> r_end r < a"
  by (force simp: free_set_def range_simps)

lemma free_set_below:
  "\<forall>x \<in> set fl. separated x r \<Longrightarrow> a \<in> free_set fl \<Longrightarrow> a < r_start r"
  by (force simp: free_set_def range_simps)

lemma fl_inv_tail_set:
  "fl_inv (r # fl) \<Longrightarrow> free_set fl = free_set (r # fl) - addrs r"
  using free_set_above [of fl r] by (fastforce simp: fl_inv_Cons range_simps)

lemma fl_inv_head_le:
  assumes "fl_inv (a # as)" "fl_inv (b # bs)" "free_set (a # as) \<subseteq> free_set (b # bs)"
  shows "r_start b \<le> r_start a"
proof -
  have "r_start a \<in> free_set (a # as)"
    using assms(1) by (simp add: fl_inv_Cons proper_def range_simps)
  then have "r_start a \<in> addrs b \<or> r_start a \<in> free_set bs" using assms(3) by auto
  then show ?thesis
    using free_set_above [of bs b "r_start a"] assms(2)
    by (auto simp: fl_inv_Cons proper_def range_simps)
qed

lemma fl_inv_head_end_le:
  assumes "fl_inv (a # as)" "fl_inv (b # bs)" "free_set (b # bs) \<subseteq> free_set (a # as)"
    and "r_start a = r_start b"
  shows "r_end b \<le> r_end a"
proof (rule ccontr)
  assume "\<not> r_end b \<le> r_end a"
  then have "r_end a \<in> addrs b"
    using assms(1,4) by (auto simp: fl_inv_Cons proper_def range_simps)
  then have "r_end a \<in> free_set as"
    using assms(3) by (auto simp: range_simps)
  then show False
    using free_set_above [of as a "r_end a"] assms(1) by (auto simp: fl_inv_Cons)
qed

lemma free_set_inj:
  "fl_inv fl \<Longrightarrow> fl_inv fl' \<Longrightarrow> free_set fl = free_set fl' \<Longrightarrow> fl = fl'"
proof (induction fl arbitrary: fl')
  case Nil
  then show ?case
    by (cases fl') (auto simp: fl_inv_Cons proper_def addrs_empty_iff)
next
  case (Cons a as)
  obtain b bs where fl': "fl' = b # bs"
    using Cons.prems by (cases fl') (auto simp: fl_inv_Cons proper_def addrs_empty_iff)
  have s: "r_start a = r_start b"
    using fl_inv_head_le [of a as b bs] fl_inv_head_le [of b bs a as] Cons.prems fl' by force
  have e: "r_end a = r_end b"
    using fl_inv_head_end_le [of a as b bs] fl_inv_head_end_le [of b bs a as] Cons.prems fl' s
    by force
  have ab: "a = b" using s e by simp
  have "free_set as = free_set bs"
    using fl_inv_tail_set [of a as] fl_inv_tail_set [of b bs] Cons.prems fl' ab by force
  then have "as = bs"
    using Cons.IH Cons.prems fl' by (auto simp: fl_inv_Cons)
  then show ?case using ab fl' by simp
qed

text \<open>Under the invariant the addition in the search does not wrap.\<close>

lemma find_no_wrap:
  assumes "proper x" "is_power_of_two align" "sz \<le> VMRange_size x"
  shows "uadd (align_up (r_start x) align) sz = align_up (r_start x) align + sz"
proof -
  have "align_up (r_start x) align < r_start x + align"
    using assms(1) align_up_bounds [OF assms(2) align_up_in_space [OF assms(2)], of "r_start x"]
    by (simp add: proper_def)
  then show ?thesis
    using assms is_power_of_two_le [OF assms(2)] proper_ok [OF assms(1)]
    by (intro uadd_no_wrap) (simp add: proper_def range_simps, linarith)
qed

lemma fits_aligned_up:
  assumes "proper x" "is_power_of_two align" "sz \<le> VMRange_size x"
    and "\<not> r_end x < uadd (align_up (r_start x) align) sz"
  shows "fits sz align x (mk_range (align_up (r_start x) align) (uadd (align_up (r_start x) align) sz))"
  using assms align_up_bounds [OF assms(2) align_up_in_space [OF assms(2)], of "r_start x"]
  by (simp add: fits_def find_no_wrap proper_def)

lemma fits_at:
  assumes "proper x" "VMRange_contains x a" "sz \<le> usub (r_end x) a" "a mod align = 0"
  shows "fits sz align x (mk_range a (uadd a sz))"
  using assms by (auto simp: fits_def proper_def VMRange_contains_def usub_no_wrap uadd_no_wrap)


lemma find_loop_step:
  assumes "find_loop sz align addr idx (x # rest) acc = Ok (Some (r, i))"
    and "proper x" "is_power_of_two align" "\<not> unaligned_request addr align"
  shows "(\<exists>acc'. find_loop sz align addr (Suc idx) rest acc' = Ok (Some (r, i)) \<and>
        (acc' = acc \<or> (\<exists>r'. acc' = Some (r', idx) \<and> fits sz align x r'))) \<or>
      (i = idx \<and> fits sz align x r)"
  using assms fits_aligned_up [of x align sz] fits_at [of x _ sz align]
  by (auto simp: Let_def split: if_splits VMMapAddr.splits option.splits)

lemma find_loop_fits:
  assumes "find_loop sz align addr idx fl acc = Ok (Some (r, i))"
    and "\<forall>x \<in> set fl. proper x" "is_power_of_two align" "\<not> unaligned_request addr align"
  shows "acc = Some (r, i) \<or> (idx \<le> i \<and> i - idx < length fl \<and> fits sz align (fl ! (i - idx)) r)"
  using assms
proof (induction fl arbitrary: idx acc)
  case Nil
  then show ?case by simp
next
  case (Cons x rest)
  from find_loop_step [OF Cons.prems(1) _ Cons.prems(3,4)] Cons.prems(2)
  consider acc' where "find_loop sz align addr (Suc idx) rest acc' = Ok (Some (r, i))"
      "acc' = acc \<or> (\<exists>r'. acc' = Some (r', idx) \<and> fits sz align x r')"
    | "i = idx" "fits sz align x r"
    by auto
  then show ?case
  proof cases
    case 1
    from Cons.IH [OF 1(1)] Cons.prems 1(2) show ?thesis
      by (auto simp: nth_Cons' Suc_diff_le)
  qed simp
qed

text \<open>Replacing one range of the list by pieces of it.\<close>

lemma fl_inv_replace:
  assumes "fl_inv (xs @ x # ys)" "fl_inv ps"
    and "\<forall>p \<in> set ps. r_start x \<le> r_start p \<and> r_end p \<le> r_end x"
  shows "fl_inv (xs @ ps @ ys)"
  using assms by (fastforce simp: fl_inv_append fl_inv_Cons)

lemma free_set_replace:
  assumes "fl_inv (xs @ x # ys)"
    and "\<Union> (addrs ` set ps) = addrs x - addrs r" "addrs r \<subseteq> addrs x"
  shows "free_set (xs @ ps @ ys) = free_set (xs @ x # ys) - addrs r"
proof -
  have "free_set ps = addrs x - addrs r"
    using assms(2) by (simp add: free_set_def)
  moreover have "free_set xs \<inter> addrs x = {}"
    using assms(1) free_set_below [of xs x] by (force simp: fl_inv_append fl_inv_Cons range_simps)
  moreover have "free_set ys \<inter> addrs x = {}"
    using assms(1) free_set_above [of ys x] by (force simp: fl_inv_append fl_inv_Cons range_simps)
  ultimately show ?thesis using assms(3) by auto
qed

lemma fl_inv_pieces: 
  assumes "proper x"
  shows "fl_inv (VMRange_subtract x r)"
proof -
  note ok = proper_ok [OF assms]
  have p: "\<forall>p \<in> set (VMRange_subtract x r). proper p"
    using VMRange_subtract_piece [OF ok] assms by (fastforce simp: proper_def)
  show ?thesis
    using p VMRange_subtract_length [of x r] VMRange_subtract_sorted [OF ok, of r]
    by (auto simp: fl_inv_def numeral_2_eq_2 le_Suc_eq length_Suc_conv)
qed

lemma free_list_update_range_eq:
  assumes "index < length fl"
  shows "free_list_update_range fl index r =
    Ok (take index fl @ VMRange_subtract (fl ! index) r @ drop (Suc index) fl)"
  using assms VMRange_subtract_length [of "fl ! index" r]
  by (auto simp: free_list_update_range_def upd_conv_take_nth_drop take_Suc_conv_app_nth
     split: list.split)

lemma free_list_update_range_spec:
  assumes inv: "fl_inv fl" and i: "index < length fl" and fit: "fits sz align (fl ! index) r"
  obtains fl' where "free_list_update_range fl index r = Ok fl'" "fl_inv fl'"
    "free_set fl' = free_set fl - addrs r" "addrs r \<subseteq> free_set fl"
proof -
  let ?x = "fl ! index" and ?xs = "take index fl" and ?ys = "drop (Suc index) fl"
  have split: "fl = ?xs @ ?x # ?ys" using i by (rule id_take_nth_drop)
  have px: "proper ?x" using inv i by (auto simp: fl_inv_def)
  have sub: "addrs r \<subseteq> addrs ?x" using fit by (auto simp: fits_def range_simps)
  have "fl_inv (?xs @ VMRange_subtract ?x r @ ?ys)"
    using fl_inv_replace [of ?xs ?x ?ys "VMRange_subtract ?x r"] inv split fl_inv_pieces [OF px]
      VMRange_subtract_piece [OF proper_ok [OF px]] by metis
  moreover have "free_set (?xs @ VMRange_subtract ?x r @ ?ys) = free_set fl - addrs r"
    using free_set_replace [of ?xs ?x ?ys "VMRange_subtract ?x r" r] inv split sub
      VMRange_subtract_addrs [OF proper_ok [OF px]] by metis
  moreover have "addrs r \<subseteq> free_set fl"
    using sub nth_mem [OF i] by (auto simp: free_set_def)
  ultimately show ?thesis
    using free_list_update_range_eq [OF i] that by blast
qed

lemma find_free_range_spec:
  assumes "fl_inv fl" "is_power_of_two align"
    and "find_free_range_internal fl sz align addr = Ok (fl', r)"
  shows "fl_inv fl'" "free_set fl' = free_set fl - addrs r" "addrs r \<subseteq> free_set fl"
    "r_end r = r_start r + sz" "r_start r mod align = 0" "range_ok r"
proof -
  from assms(3) obtain i where un: "\<not> unaligned_request addr align"
    and l: "find_loop sz align addr 0 fl None = Ok (Some (r, i))"
    and u: "free_list_update_range fl i r = Ok fl'"
    by (auto simp: find_free_range_internal_def res_bind_Ok_iff split: if_splits option.splits)
  have fit: "i < length fl" "fits sz align (fl ! i) r"
    using find_loop_fits [OF l _ assms(2) un] assms(1) by (auto simp: fl_inv_def)
  obtain fl'' where "free_list_update_range fl i r = Ok fl''" "fl_inv fl''"
    "free_set fl'' = free_set fl - addrs r" "addrs r \<subseteq> free_set fl"
    using free_list_update_range_spec [OF assms(1) fit] .
  with u show "fl_inv fl'" "free_set fl' = free_set fl - addrs r" "addrs r \<subseteq> free_set fl"
    by auto
  have "proper (fl ! i)" using assms(1) fit(1) by (auto simp: fl_inv_def)
  with fit show "r_end r = r_start r + sz" "r_start r mod align = 0" "range_ok r"
    by (auto simp: fits_def range_ok_def proper_def)
qed

text \<open>A contiguous block of free addresses lies in one range of the list.\<close>

lemma fl_inv_pairwise:
  "fl_inv fl \<Longrightarrow> x \<in> set fl \<Longrightarrow> y \<in> set fl \<Longrightarrow> x = y \<or> separated x y \<or> separated y x"
  by (induction fl) (auto simp: fl_inv_Cons)

lemma block_in_one:
  assumes "fl_inv fl" "s < e" "{s..<e} \<subseteq> free_set fl"
  shows "\<exists>x \<in> set fl. r_start x \<le> s \<and> e \<le> r_end x"
proof -
  have "s \<in> free_set fl" using assms(2,3) by auto
  then obtain x where x: "x \<in> set fl" "r_start x \<le> s" "s < r_end x"
    by (auto simp: free_set_def range_simps)
  have "e \<le> r_end x"
  proof (rule ccontr)
    assume "\<not> e \<le> r_end x"
    then have "r_end x \<in> free_set fl" using assms(3) x by auto
    then obtain y where y: "y \<in> set fl" "r_start y \<le> r_end x" "r_end x < r_end y"
      by (auto simp: free_set_def range_simps)
    then show False
      using fl_inv_pairwise [OF assms(1) x(1) y(1)] x assms(1) by (auto simp: fl_inv_def proper_def)
  qed
  with x show ?thesis by auto
qed

lemma fitting_size:
  "proper x \<Longrightarrow> is_power_of_two align \<Longrightarrow> fitting sz align x \<Longrightarrow> sz \<le> VMRange_size x"
  using align_up_bounds(1) [of align "r_start x"] align_up_in_space [of align "r_start x"]
  by (simp add: fitting_def proper_def VMRange_size_def usize_simps)

lemma find_loop_Any:
  assumes "\<forall>x \<in> set fl. proper x" "is_power_of_two align"
  shows "find_loop sz align Any idx fl None = Ok (first_fitting sz align idx fl)"
  using assms
proof (induction fl arbitrary: idx)
  case (Cons x rest)
  have px: "proper x" using Cons.prems by simp
  show ?case
    using Cons fitting_size [OF px Cons.prems(2), of sz] find_no_wrap [OF px Cons.prems(2), of sz]
    by (auto simp: Let_def fitting_def place_def)
qed simp

lemma find_loop_Hint:
  assumes "\<forall>x \<in> set fl. proper x" "is_power_of_two align" 
    and "\<forall>r i. acc = Some (r, i) \<longrightarrow> VMRange_size r = sz"
    and "\<forall>x \<in> set fl. \<not> (r_start x \<le> a \<and> a < r_end x \<and> a + sz \<le> r_end x)"
  shows "find_loop sz align (Hint a) idx fl acc =
     Ok (case acc of None \<Rightarrow> first_fitting sz align idx fl | Some p \<Rightarrow> Some p)"
  using assms
proof (induction fl arbitrary: idx acc)
  case (Cons x rest)
  have px: "proper x" using Cons.prems by simp
  have no: "\<not> (VMRange_contains x a \<and> sz \<le> usub (r_end x) a)"
    using Cons.prems(4) by (auto simp: VMRange_contains_def usub_no_wrap)
  have sz: "VMRange_size (place sz align x) = sz"
    by (simp add: place_def VMRange_size_def usize_simps)
  show ?case
    using Cons no fitting_size [OF px Cons.prems(2), of sz] find_no_wrap [OF px Cons.prems(2), of sz] sz
    by (auto simp: Let_def fitting_def place_def split: option.splits)
qed (simp split: option.splits)

lemma find_loop_Hint_hit:
  assumes "\<forall>x \<in> set fl. proper x" "is_power_of_two align" 
    and "\<exists>x \<in> set fl. r_start x \<le> a \<and> a < r_end x \<and> a + sz \<le> r_end x"
  shows "\<exists>i. find_loop sz align (Hint a) idx fl acc = Ok (Some (mk_range a (a + sz), i))"
  using assms
proof (induction fl arbitrary: idx acc)
  case (Cons x rest)
  have px: "proper x" using Cons.prems by simp
  show ?case
  proof (cases "r_start x \<le> a \<and> a < r_end x \<and> a + sz \<le> r_end x")
    case True
    then show ?thesis using px
      by (auto simp: VMRange_contains_def usub_no_wrap VMRange_size_def proper_def uadd_no_wrap)
  next
    case False
    then have no: "\<not> (VMRange_contains x a \<and> sz \<le> usub (r_end x) a)"
      by (auto simp: VMRange_contains_def usub_no_wrap)
    have "\<exists>i. find_loop sz align (Hint a) (Suc idx) rest acc' = Ok (Some (mk_range a (a + sz), i))" for acc'
      using Cons.IH Cons.prems False by auto
    then show ?thesis using no
      by (auto simp: Let_def split: option.splits)
  qed
qed simp

lemma find_loop_Force: "find_loop sz align (Force a) idx fl acc = find_loop sz align (Need a) idx fl acc"
  by (induction fl arbitrary: idx) auto

lemma find_loop_Need_hit:
  assumes "fl_inv fl" "x \<in> set fl" "r_start x \<le> a" "a < r_end x" "a + sz \<le> r_end x"
  shows "\<exists>i. find_loop sz align (Need a) idx fl acc = Ok (Some (mk_range a (a + sz), i))"
  using assms
proof (induction fl arbitrary: idx)
  case (Cons y rest)
  show ?case
  proof (cases "x = y")
    case True
    then show ?thesis using Cons.prems
      by (auto simp: fl_inv_Cons VMRange_contains_def usub_no_wrap VMRange_size_def proper_def uadd_no_wrap)
  next
    case False
    then have "separated y x" using Cons.prems by (auto simp: fl_inv_Cons)
    then show ?thesis using Cons False
      by (auto simp: fl_inv_Cons VMRange_contains_def proper_def)
  qed
qed simp

lemma find_loop_Need_miss:
  assumes "fl_inv fl" "\<forall>x \<in> set fl. \<not> (r_start x \<le> a \<and> a < r_end x \<and> a + sz \<le> r_end x)"
  shows "find_loop sz align (Need a) idx fl None \<in> {Err ENOMEM, Ok None}"
  using assms
  by (induction fl arbitrary: idx) 
    (auto simp: fl_inv_Cons VMRange_contains_def usub_no_wrap)

lemma fitting_of_block:
  assumes "is_power_of_two align" "proper x" "s mod align = 0" "r_start x \<le> s" "s + sz \<le> r_end x"
  shows "fitting sz align x" "align_up (r_start x) align \<le> s"
  using align_up_least [OF assms(1) align_up_in_space [OF assms(1)], of "r_start x" s] assms
  by (auto simp: fitting_def proper_def)

lemma first_fitting_least:
  assumes "fl_inv fl" "is_power_of_two align" "first_fitting sz align idx fl = Some (r, i)"
    and "s mod align = 0" "x \<in> set fl" "r_start x \<le> s" "s + sz \<le> r_end x"
  shows "r_start r \<le> s"
  using assms
proof (induction fl arbitrary: idx)
  case (Cons y rest)
  show ?case
  proof (cases "fitting sz align y")
    case True
    then have r: "r_start r = align_up (r_start y) align" "r_start r + sz \<le> r_end y"
      using Cons.prems(3) by (auto simp: place_def fitting_def)
    show ?thesis
      using Cons.prems r fitting_of_block(2) [of align y s sz] by (auto simp: fl_inv_Cons)
  next
    case False
    then show ?thesis
      using Cons fitting_of_block(1) [of align y s sz] by (auto simp: fl_inv_Cons)
  qed
qed simp

lemma first_fitting_Some:
  assumes "first_fitting sz align idx fl = Some (r, i)"
  shows "\<exists>x \<in> set fl. fitting sz align x \<and> r = place sz align x"
  using assms by (induction fl arbitrary: idx) (auto split: if_splits)

lemma first_fitting_None:
  "first_fitting sz align idx fl = None \<longleftrightarrow> (\<forall>x \<in> set fl. \<not> fitting sz align x)"
  by (induction fl arbitrary: idx) auto

lemma first_fitting_first_fit:
  assumes "fl_inv fl" "is_power_of_two align" "0 < sz"
  shows "map_option fst (first_fitting sz align idx fl) =
    map_option (\<lambda>s. mk_range s (s + sz)) (first_fit (free_set fl) sz align)"
proof -
  have blk: "\<exists>x \<in> set fl. proper x \<and> r_start x \<le> s \<and> s + sz \<le> r_end x"
    if "block (free_set fl) sz align s" for s
    using block_in_one [of fl s "s + sz"] that assms by (auto simp: block_def fl_inv_def)
  show ?thesis
  proof (cases "first_fitting sz align idx fl")
    case None
    then have "\<not> block (free_set fl) sz align s" for s
      using blk [of s] fitting_of_block(1) [OF assms(2), of _ s sz]
      by (fastforce simp: first_fitting_None block_def)
    then show ?thesis using None by (simp add: first_fit_def)
  next
    case (Some p)
    obtain r i where p: "p = (r, i)" by (cases p)
    obtain x where x: "x \<in> set fl" "fitting sz align x" "r = place sz align x"
      using first_fitting_Some Some p by metis
    have px: "proper x" using x assms(1) by (auto simp: fl_inv_def)
    have al: "r_start x \<le> align_up (r_start x) align" "align_up (r_start x) align mod align = 0"
      using px align_up_bounds [OF assms(2) align_up_in_space [OF assms(2)], of "r_start x"]
      by (auto simp: proper_def)
    have b: "block (free_set fl) sz align (r_start r)"
      using x al by (force simp: block_def place_def fitting_def free_set_def range_simps)
    have least: "r_start r \<le> s" if "block (free_set fl) sz align s" for s
      using blk [OF that] first_fitting_least [OF assms(1,2) Some [unfolded p], of s] that
      by (auto simp: block_def)
    have "(LEAST s. block (free_set fl) sz align s) = r_start r"
      using b least by (rule Least_equality)
    then show ?thesis using Some p x b by (auto simp: first_fit_def place_def)
  qed
qed

lemma block_at_iff:
  assumes "fl_inv fl" "0 < sz" "a mod align = 0"
  shows "block (free_set fl) sz align a \<longleftrightarrow>
     (\<exists>x \<in> set fl. r_start x \<le> a \<and> a < r_end x \<and> a + sz \<le> r_end x)" (is "?l = ?r")
proof
  assume ?l
  then show ?r
    using block_in_one [of fl a "a + sz"] assms by (fastforce simp: block_def)
next
  assume ?r
  then show ?l using assms by (force simp: block_def free_set_def range_simps)
qed

lemma find_loop_choice:
  assumes inv: "fl_inv fl" and al: "is_power_of_two align" and sz: "0 < sz" 
    and un: "\<not> unaligned_request addr align"
  shows "(case find_loop sz align addr 0 fl None of
       Ok None \<Rightarrow> spec_choice (free_set fl) sz align addr = None
     | Ok (Some (r, i)) \<Rightarrow> \<exists>s. spec_choice (free_set fl) sz align addr = Some s \<and> r = mk_range s (s + sz)
     | Err e \<Rightarrow> e = ENOMEM \<and> spec_choice (free_set fl) sz align addr = None
     | Panic \<Rightarrow> False)"
proof -
  have pr: "\<forall>x \<in> set fl. proper x" using inv by (simp add: fl_inv_def)
  note ff = first_fitting_first_fit [OF inv al sz, of 0, symmetric]
  have need: ?thesis if "addr = Need a \<or> addr = Force a" for a
  proof -
    have a: "a mod align = 0" using that un by auto
    show ?thesis
    proof (cases "block (free_set fl) sz align a")
      case True
      then obtain x where "x \<in> set fl" "r_start x \<le> a" "a < r_end x" "a + sz \<le> r_end x"
        using block_at_iff [OF inv sz a] by auto
      from find_loop_Need_hit [OF inv this, of align 0 None] that True show ?thesis
        by (auto simp: find_loop_Force)
    next
      case False
      then have "find_loop sz align (Need a) 0 fl None \<in> {Err ENOMEM, Ok None}"
        using block_at_iff [OF inv sz a] by (intro find_loop_Need_miss [OF inv]) auto
      with that False show ?thesis
        by (auto simp: find_loop_Force)
    qed
  qed
  show ?thesis
  proof (cases addr)
    case Any
    then show ?thesis using ff find_loop_Any [OF pr al, of sz 0]
      by (auto split: option.splits)
  next
    case (Hint a)
    then have a: "a mod align = 0" using un by simp
    show ?thesis
    proof (cases "block (free_set fl) sz align a")
      case True
      then show ?thesis
        using find_loop_Hint_hit [OF pr al, of a sz 0 None] block_at_iff [OF inv sz a] Hint by auto
    next
      case False
      then have "find_loop sz align (Hint a) 0 fl None = Ok (first_fitting sz align 0 fl)"
        using find_loop_Hint [OF pr al, of None sz a 0] block_at_iff [OF inv sz a] by auto
      then show ?thesis using ff False Hint by (auto split: option.splits)
    qed
  qed (use need in auto)
qed

lemma find_free_range_refines:
  assumes "fl_inv fl" "is_power_of_two align" "0 < sz"
  shows "map_res (\<lambda>(fl', r). (free_set fl', r)) (find_free_range_internal fl sz align addr) =
     find_spec (free_set fl) sz align addr"
proof (cases "unaligned_request addr align")
  case True
  then show ?thesis by (simp add: find_free_range_internal_def find_spec_def)
next
  case un: False
  note c = find_loop_choice [OF assms un]
  show ?thesis
  proof (cases "find_loop sz align addr 0 fl None")
    case (Ok p)
    show ?thesis
    proof (cases p)
      case None
      then show ?thesis using c Ok un by (simp add: find_free_range_internal_def find_spec_def)
    next
      case (Some q)
      obtain r i where q: "q = (r, i)" by (cases q)
      have l: "find_loop sz align addr 0 fl None = Ok (Some (r, i))" using Ok Some q by simp
      have fit: "i < length fl" "fits sz align (fl ! i) r"
        using find_loop_fits [OF l _ assms(2) un] assms(1) by (auto simp: fl_inv_def)
      obtain fl'' where u: "free_list_update_range fl i r = Ok fl''" 
        "free_set fl'' = free_set fl - addrs r"
        using free_list_update_range_spec [OF assms(1) fit] .
      then show ?thesis using c l un
        by (auto simp: find_free_range_internal_def find_spec_def addrs_def)
    qed
  next
    case (Err e)
    then show ?thesis using c un by (simp add: find_free_range_internal_def find_spec_def)
  next
    case Panic
    then show ?thesis using c by simp
  qed
qed

section \<open>Giving ranges back\<close>

lemma insert_between_spec:
  assumes "fl_inv (x # rest)" "proper d" "addrs d \<inter> free_set (x # rest) = {}"
    and "r_end x \<le> r_start d" "r_start d < r_end (last (x # rest))"
  shows "fl_inv (insert_between d (x # rest)) \<and>
    free_set (insert_between d (x # rest)) = free_set (x # rest) \<union> addrs d \<and>
    (\<forall>y \<in> set (insert_between d (x # rest)). r_start x \<le> r_start y)"
  using assms
proof (induction rest arbitrary: x)
  case Nil
  then show ?case by simp
next
  case (Cons y rest)
  show ?case
  proof (cases "r_end d \<le> r_start y")
    case True
    then show ?thesis
      using Cons.prems
      by (auto simp: fl_inv_Cons proper_def VMRange_set_end_def VMRange_set_start_def
          is_contiguous_with_def range_simps split: bool.splits)
  next
    case False
    have "r_end y \<le> r_start d"
      using Cons.prems False disjoint_cases [of y d]
      by (auto simp: fl_inv_Cons proper_def Int_commute Int_Un_distrib)
    then have IH: "fl_inv (insert_between d (y # rest)) \<and>
        free_set (insert_between d (y # rest)) = free_set (y # rest) \<union> addrs d \<and>
        (\<forall>z \<in> set (insert_between d (y # rest)). r_start y \<le> r_start z)"
      using Cons.prems by (intro Cons.IH) (auto simp: fl_inv_Cons)
    moreover have "insert_between d (x # y # rest) = x # insert_between d (y # rest)"
      using False by simp
    moreover have "\<forall>z \<in> set (insert_between d (y # rest)). separated x z"
      using IH Cons.prems(1) by (auto simp: fl_inv_Cons intro: less_le_trans)
    moreover have "proper x" using Cons.prems(1) by (simp add: fl_inv_Cons)
    ultimately show ?thesis
      by (auto simp: fl_inv_Cons proper_def intro: less_imp_le less_trans)
  qed
qed

lemma add_range_back_nonempty:
  "fl \<noteq> [] \<Longrightarrow> add_range_back_to_free_manager fl d =
     (if r_end d = r_start (hd fl) then mk_range (r_start d) (r_end (hd fl)) # tl fl
      else if r_end d < r_start (hd fl) then d # fl
      else if r_start d = r_end (last fl) then butlast fl @ [mk_range (r_start (last fl)) (r_end d)]
      else if r_start d > r_end (last fl) then fl @ [d]
      else insert_between d fl)"
  by (cases fl) (simp_all add: add_range_back_to_free_manager_def Let_def)

lemma add_range_back_spec:
  assumes "fl_inv fl" "proper d" "addrs d \<inter> free_set fl = {}"
  shows "fl_inv (add_range_back_to_free_manager fl d) \<and>
    free_set (add_range_back_to_free_manager fl d) = free_set fl \<union> addrs d"
proof (cases fl rule: rev_cases)
  case Nil
  then show ?thesis using assms
    by (simp add: add_range_back_to_free_manager_def fl_inv_Cons)
next
  case (snoc ys tail)
  have ne: "fl \<noteq> []" and lt: "last fl = tail" "butlast fl = ys" using snoc by simp_all
  then obtain head rest where hd: "fl = head # rest" by (cases fl) auto
  have hd': "hd fl = head" "tl fl = rest" using hd by simp_all
  note eq = add_range_back_nonempty [OF ne, of d, unfolded lt hd']
  consider "r_end d \<le> r_start head" | "r_start head < r_end d" "r_end tail \<le> r_start d"
    | "r_start head < r_end d" "r_start d < r_end tail"
    by linarith
  then show ?thesis
  proof cases
    case 1
    have "addrs (mk_range (r_start d) (r_end head)) = addrs d \<union> addrs head" if "r_end d = r_start head"
      using assms hd that by (intro addrs_join) (auto simp: proper_def fl_inv_Cons)
    with 1 show ?thesis using assms unfolding eq
      by (auto simp: hd fl_inv_Cons proper_def)
  next
    case 2
    then have "add_range_back_to_free_manager fl d =
        (if r_start d = r_end tail then ys @ [mk_range (r_start tail) (r_end d)] else fl @ [d])"
      unfolding eq by auto
    moreover have "addrs (mk_range (r_start tail) (r_end d)) = addrs tail \<union> addrs d"
      if "r_start d = r_end tail"
      using assms snoc that by (intro addrs_join) (auto simp: proper_def fl_inv_append fl_inv_Cons)
    moreover have "\<forall>x \<in> set ys. separated x d"
      using assms(1) snoc 2(2) by (fastforce simp: fl_inv_append fl_inv_Cons proper_def)
    ultimately show ?thesis using assms(1,2) snoc 2
      by (cases "r_start d = r_end tail") (auto simp: fl_inv_append fl_inv_Cons proper_def)
  next
    case 3
    have "addrs head \<inter> addrs d = {}" using assms(3) hd by auto
    then have "r_end head \<le> r_start d"
      using 3 disjoint_cases [of head d] assms(1,2) hd by (auto simp: fl_inv_Cons proper_def)
    moreover have "add_range_back_to_free_manager fl d = insert_between d fl"
      using 3 unfolding eq by auto
    moreover have "r_start d < r_end (last (head # rest))" using 3(2) lt(1) hd by simp
    ultimately show ?thesis
      using insert_between_spec [of head rest d] assms hd by metis
  qed
qed

lemma find_then_add_back:
  assumes "fl_inv fl" "is_power_of_two align" "0 < sz"
    and "find_free_range_internal fl sz align addr = Ok (fl', r)"
  shows "add_range_back_to_free_manager fl' r = fl"
proof -
  note f = find_free_range_spec [OF assms(1,2,4)]
  have "proper r" using f(4,6) assms(3) by (simp add: proper_def range_ok_def)
  then have "fl_inv (add_range_back_to_free_manager fl' r) \<and>
      free_set (add_range_back_to_free_manager fl' r) = free_set fl' \<union> addrs r"
    using f(1,2) by (intro add_range_back_spec) auto
  then show ?thesis
    using f(2,3) assms(1) by (intro free_set_inj) auto
qed

lemma free_set_card_sum: "fl_inv fl \<Longrightarrow> card (free_set fl) = sum_list (map (\<lambda>r. r_end r - r_start r) fl)"
proof (induction fl)
  case (Cons r fl)
  have "addrs r \<inter> free_set fl = {}"
    using Cons.prems free_set_above [of fl r] by (fastforce simp: fl_inv_Cons range_simps)
  then show ?case using Cons by (simp add: card_Un_disjoint fl_inv_Cons addrs_def)
qed simp

lemma free_set_bound: "fl_inv fl \<Longrightarrow> free_set fl \<subseteq> {..<ADDR_LIMIT}"
  by (force simp: free_set_def fl_inv_def proper_def range_simps)

lemma free_size_card:
  assumes "fl_inv fl"
  shows "free_size fl = card (free_set fl)"
proof -
  have "sum_list (map (\<lambda>r. r_end r - r_start r) fl) + a < USIZE_MOD \<Longrightarrow>
     fold (\<lambda>r acc. uadd acc (VMRange_size r)) fl a = a + sum_list (map (\<lambda>r. r_end r - r_start r) fl)" for a
    using assms
    by (induction fl arbitrary: a) (auto simp: fl_inv_Cons proper_def VMRange_size_def usize_simps)
  moreover have "card (free_set fl) \<le> ADDR_LIMIT"
    using card_mono [OF _ free_set_bound [OF assms]] by simp
  ultimately show ?thesis by (simp add: free_size_def free_set_card_sum [OF assms])
qed

lemma is_free_range_iff:
  assumes "fl_inv fl" "r_start r < r_end r"
  shows "is_free_range fl r \<longleftrightarrow> addrs r \<subseteq> free_set fl"
proof
  assume "is_free_range fl r"
  then show "addrs r \<subseteq> free_set fl"
    using is_superset_of_subset by (force simp: is_free_range_def list_ex_iff free_set_def)
next
  assume "addrs r \<subseteq> free_set fl"
  then show "is_free_range fl r"
    using block_in_one [OF assms] by (auto simp: is_free_range_def list_ex_iff is_superset_of_def addrs_def)
qed

section \<open>The contract\<close>

text \<open>A request of the LibOS: size, alignment and address preference.\<close>

type_synonym find_request = "usize \<times> usize \<times> VMMapAddr"

definition find_request :: "VMFreeSpaceManager \<Rightarrow> find_request \<Rightarrow> (VMFreeSpaceManager \<times> VMRange) res" where
  "find_request fl = (\<lambda>(sz, align, addr). find_free_range_internal fl sz align addr)"

definition valid_request :: "find_request \<Rightarrow> bool" where
  "valid_request = (\<lambda>(sz, align, addr). 0 < sz \<and> is_power_of_two align)"

lemma find_free_range_not_Panic:
  assumes "fl_inv fl" "is_power_of_two align" "0 < sz"
  shows "find_free_range_internal fl sz align addr \<noteq> Panic"
  using find_free_range_refines [OF assms, of addr]
  by (auto simp: find_spec_def split: if_splits option.splits)

interpretation lfs: free_space find_request add_range_back_to_free_manager free_set fl_inv
    valid_request "\<lambda>(sz, align, addr). sz"
proof
  fix m m' :: VMFreeSpaceManager and q r
  assume a: "fl_inv m" "valid_request q" "find_request m q = Ok (m', r)"
  obtain sz align addr where q: "q = (sz, align, addr)" by (cases q)
  from a have f: "find_free_range_internal m sz align addr = Ok (m', r)" "is_power_of_two align" "0 < sz"
    by (auto simp: q find_request_def valid_request_def)
  note s = find_free_range_spec [OF a(1) f(2) f(1)]
  have "proper r" using s f(3) by (auto simp: proper_def range_ok_def)
  then show "fl_inv m' \<and> free_set m' = free_set m - addrs r \<and> addrs r \<subseteq> free_set m \<and>
      proper r \<and> VMRange_size r = (case q of (sz, align, addr) \<Rightarrow> sz)"
    using s q by (auto simp: VMRange_size_def usize_simps)
next
  fix m :: VMFreeSpaceManager and q
  assume "fl_inv m" "valid_request q"
  then show "find_request m q \<noteq> Panic"
    by (auto simp: find_request_def valid_request_def find_free_range_not_Panic)
qed (use add_range_back_spec free_set_inj in auto)

lemmas free_list_eval =
  find_request_def find_free_range_internal_def free_list_update_range_def
  add_range_back_to_free_manager_def free_size_def is_free_range_def
  VMRange_size_def VMRange_contains_def VMRange_subtract_def VMRange_intersect_def
  VMRange_from_unchecked_def
  is_superset_of_def is_contiguous_with_def uadd_def usub_def align_up_eq pool_run_def

section \<open>Properties\<close>

text \<open>
  C1: On a well-formed free list, an aligned non-empty request is answered as the set-based
  specification answers it, on every branch: a misaligned hint or fixed address is \<open>EINVAL\<close>,
  \<open>Any\<close> takes the lowest aligned block of free addresses, a hint is honoured when that block is
  free and falls back to the lowest one, a needed or forced address is taken exactly when its
  block is free, anything else is \<open>ENOMEM\<close>; what is taken leaves the free set and nothing else
  does.
\<close>

theorem find_free_range_refinement:
  assumes "fl_inv fl" "is_power_of_two align" "0 < sz"
  shows "map_res (\<lambda>(fl', r). (free_set fl', r)) (find_free_range_internal fl sz align addr) =
     find_spec (free_set fl) sz align addr"
  using assms by (rule find_free_range_refines)

theorem find_free_range_refinement_witness:
  "find_free_range_internal [mk_range 4096 8192, mk_range 16384 32768] 8192 4096 Any =
     Ok ([mk_range 4096 8192, mk_range 24576 32768], mk_range 16384 24576) \<and>
   find_spec (free_set [mk_range 4096 8192, mk_range 16384 32768]) 8192 4096 Any =
     Ok (free_set [mk_range 4096 8192, mk_range 24576 32768], mk_range 16384 24576)"
proof -
  have c: "find_free_range_internal [mk_range 4096 8192, mk_range 16384 32768] 8192 4096 Any =
     Ok ([mk_range 4096 8192, mk_range 24576 32768], mk_range 16384 24576)"
    by (simp add: free_list_eval)
  have "fl_inv [mk_range 4096 8192, mk_range 16384 32768]"
    by (simp add: fl_inv_def proper_def)
  from find_free_range_refinement [OF this is_power_of_two_4096, of 8192 Any]
  show ?thesis by (simp add: c)
qed

text \<open>
  C16: Releasing a range that is disjoint from the free space keeps the list well formed (sorted,
  every neighbour coalesced, no empty range) and adds exactly the addresses of the range.
\<close>

theorem add_range_back_correct:
  assumes "fl_inv fl" "proper dirty" "addrs dirty \<inter> free_set fl = {}"
  shows "fl_inv (add_range_back_to_free_manager fl dirty) \<and>
    free_set (add_range_back_to_free_manager fl dirty) = free_set fl \<union> addrs dirty"
  using assms by (rule add_range_back_spec)

theorem add_range_back_correct_witness:
  "add_range_back_to_free_manager [mk_range 0 4096, mk_range 8192 12288] (mk_range 4096 8192) =
     [mk_range 0 12288] \<and>
   free_set [mk_range 0 12288] =
     free_set [mk_range 0 4096, mk_range 8192 12288] \<union> addrs (mk_range 4096 8192)"
proof -
  have c: "add_range_back_to_free_manager [mk_range 0 4096, mk_range 8192 12288] (mk_range 4096 8192) =
     [mk_range 0 12288]"
    by (simp add: free_list_eval)
  have "fl_inv [mk_range 0 4096, mk_range 8192 12288]" "proper (mk_range 4096 8192)"
    "addrs (mk_range 4096 8192) \<inter> free_set [mk_range 0 4096, mk_range 8192 12288] = {}"
    by (auto simp: fl_inv_def proper_def addrs_def)
  from add_range_back_correct [OF this] show ?thesis by (simp only: c)
qed

text \<open>
  C17: Round trip.  Whatever block a search hands out, giving it back restores the free list to
  the identical vector, so allocation followed by release leaves no fragmentation behind.
\<close>

theorem find_free_range_roundtrip:
  assumes "fl_inv fl" "is_power_of_two align" "0 < sz"
    and "find_free_range_internal fl sz align addr = Ok (fl', r)"
  shows "add_range_back_to_free_manager fl' r = fl"
  using assms by (rule find_then_add_back)

theorem find_free_range_roundtrip_witness:
  "find_free_range_internal [mk_range 4096 32768] 4096 4096 (Need 8192) =
     Ok ([mk_range 4096 8192, mk_range 12288 32768], mk_range 8192 12288) \<and>
   add_range_back_to_free_manager [mk_range 4096 8192, mk_range 12288 32768] (mk_range 8192 12288) =
     [mk_range 4096 32768]"
proof -
  have c: "find_free_range_internal [mk_range 4096 32768] 4096 4096 (Need 8192) =
     Ok ([mk_range 4096 8192, mk_range 12288 32768], mk_range 8192 12288)"
    by (simp add: free_list_eval)
  have "fl_inv [mk_range 4096 32768]" by (simp add: fl_inv_def proper_def)
  from find_free_range_roundtrip [OF this is_power_of_two_4096 _ c] c show ?thesis by simp
qed

text \<open>
  The reported free size is the number of free addresses, and a non-empty range is reported
  free exactly when every address of it is free.
\<close>

theorem free_size_and_is_free_range:
  assumes "fl_inv fl" "r_start r < r_end r"
  shows "free_size fl = card (free_set fl) \<and> (is_free_range fl r = (addrs r \<subseteq> free_set fl))"
  using free_size_card [OF assms(1)] is_free_range_iff [OF assms] by simp

theorem free_size_and_is_free_range_witness:
  "card (free_set [mk_range 0 4096, mk_range 8192 16384]) = 12288 \<and>
   \<not> addrs (mk_range 0 8192) \<subseteq> free_set [mk_range 0 4096, mk_range 8192 16384]"
proof -
  have "fl_inv [mk_range 0 4096, mk_range 8192 16384]" by (simp add: fl_inv_def proper_def)
  from free_size_and_is_free_range [OF this, of "mk_range 0 8192"]
  have "free_size [mk_range 0 4096, mk_range 8192 16384] =
      card (free_set [mk_range 0 4096, mk_range 8192 16384]) \<and>
    (is_free_range [mk_range 0 4096, mk_range 8192 16384] (mk_range 0 8192) =
      (addrs (mk_range 0 8192) \<subseteq> free_set [mk_range 0 4096, mk_range 8192 16384]))"
    by simp
  moreover have "free_size [mk_range 0 4096, mk_range 8192 16384] = 12288"
    "\<not> is_free_range [mk_range 0 4096, mk_range 8192 16384] (mk_range 0 8192)"
    by (simp_all add: free_list_eval)
  ultimately show ?thesis by simp
qed

text \<open>
  C2: Any sequence of searches and releases.  Starting from a well-formed list with nothing
  handed out, whatever non-empty power-of-two aligned requests and releases of live ranges are
  made, the live ranges are pairwise disjoint, they and the free addresses partition the initial
  free addresses, and once everything is released the list is the initial vector again.
\<close>

theorem free_list_run_safe:
  assumes "fl_inv fl" "\<forall>op \<in> set ops. op_valid valid_request op"
    and "pool_run find_request add_range_back_to_free_manager (fl, []) ops = (fl', used)"
  shows "fl_inv fl' \<and> disjoint_ranges used \<and> free_set fl' \<inter> used_set used = {} \<and>
    free_set fl' \<union> used_set used = free_set fl \<and> (used = [] \<longrightarrow> fl' = fl)"
  using assms by (rule lfs.pool_run_safe)

theorem free_list_run_safe_witness:
  "pool_run find_request add_range_back_to_free_manager ([mk_range 4096 32768], [])
     [Take (4096, 4096, Any), Take (8192, 8192, Hint 16384), Give (mk_range 4096 8192)] =
     ([mk_range 4096 16384, mk_range 24576 32768], [mk_range 16384 24576]) \<and>
   free_set [mk_range 4096 16384, mk_range 24576 32768] \<union> used_set [mk_range 16384 24576] =
     free_set [mk_range 4096 32768]"
proof -
  have c: "pool_run find_request add_range_back_to_free_manager ([mk_range 4096 32768], [])
     [Take (4096, 4096, Any), Take (8192, 8192, Hint 16384), Give (mk_range 4096 8192)] =
     ([mk_range 4096 16384, mk_range 24576 32768], [mk_range 16384 24576])"
    by (simp add: free_list_eval)
  have i: "fl_inv [mk_range 4096 32768]" by (simp add: fl_inv_def proper_def)
  have v: "\<forall>op \<in> set [Take (4096, 4096, Any), Take (8192, 8192, Hint 16384),
      Give (mk_range 4096 8192)]. op_valid valid_request op"
    by (simp add: valid_request_def)
  from free_list_run_safe [OF i v c] c show ?thesis by simp
qed

end
