(* ===== verification/RbTree.thy ===== *)
theory RbTree
  imports OcclumPrelude
begin

text \<open>
  The red-black tree of the \<^verbatim>\<open>intrusive_collections\<close> crate, which is not part of the
  repository.  The code that uses it takes its operations as a parameter, a record of
  functions on an abstract tree \<open>'t\<close>; a cursor is the position of an element in the
  iteration order.  \<open>rbtree_laws\<close> states the documented behaviour that the LibOS relies on:
  iteration is in increasing order of the keys, \<open>insert\<close> puts an element at a position that
  keeps the order (and tells which), \<open>find\<close> and \<open>upper_bound\<close> return a cursor or null,
  removal and replacement act at the cursor.  \<open>rb_insert_last\<close> is the order among equal
  keys: a new element goes behind the ones that are there.  \<open>list_rbtree\<close> is a concrete tree, a sorted
  list, that has these laws.
\<close>

record ('t, 'v) rbtree_ops =
  rb_new :: 't
  rb_iter :: "'t \<Rightarrow> 'v list"
  rb_insert :: "'t \<Rightarrow> 'v \<Rightarrow> 't \<times> nat"
  rb_find :: "'t \<Rightarrow> usize \<Rightarrow> nat option"
  rb_upper_bound :: "'t \<Rightarrow> usize \<Rightarrow> nat option"
  rb_remove :: "'t \<Rightarrow> nat \<Rightarrow> 't"
  rb_replace :: "'t \<Rightarrow> nat \<Rightarrow> 'v \<Rightarrow> 't"

definition rb_sorted :: "('v \<Rightarrow> usize) \<Rightarrow> 'v list \<Rightarrow> bool" where
  "rb_sorted key xs \<longleftrightarrow> sorted (map key xs)"

definition rbtree_laws :: "('v \<Rightarrow> usize) \<Rightarrow> ('t, 'v) rbtree_ops \<Rightarrow> bool" where
  "rbtree_laws key T \<longleftrightarrow>
     rb_iter T (rb_new T) = [] \<and>
     (\<forall>t v. rb_sorted key (rb_iter T t) \<longrightarrow>
        snd (rb_insert T t v) \<le> length (rb_iter T t) \<and>
        rb_iter T (fst (rb_insert T t v)) =
          take (snd (rb_insert T t v)) (rb_iter T t) @ v # drop (snd (rb_insert T t v)) (rb_iter T t) \<and>
        rb_sorted key (rb_iter T (fst (rb_insert T t v)))) \<and>
     (\<forall>t k. rb_sorted key (rb_iter T t) \<longrightarrow>
        (case rb_find T t k of
           None \<Rightarrow> k \<notin> key ` set (rb_iter T t)
         | Some i \<Rightarrow> i < length (rb_iter T t) \<and> key (rb_iter T t ! i) = k)) \<and>
     (\<forall>t b. rb_sorted key (rb_iter T t) \<longrightarrow>
        (case rb_upper_bound T t b of
           None \<Rightarrow> \<forall>v \<in> set (rb_iter T t). b < key v
         | Some i \<Rightarrow> i < length (rb_iter T t) \<and> key (rb_iter T t ! i) \<le> b \<and>
             (\<forall>j. i < j \<longrightarrow> j < length (rb_iter T t) \<longrightarrow> b < key (rb_iter T t ! j)))) \<and>
     (\<forall>t i. i < length (rb_iter T t) \<longrightarrow>
        rb_iter T (rb_remove T t i) = take i (rb_iter T t) @ drop (Suc i) (rb_iter T t)) \<and>
     (\<forall>t i v. i < length (rb_iter T t) \<longrightarrow>
        rb_iter T (rb_replace T t i v) = (rb_iter T t)[i := v])"

section \<open>Consequences of the laws\<close>

lemma rb_iter_new: "rbtree_laws key T \<Longrightarrow> rb_iter T (rb_new T) = []"
  by (simp add: rbtree_laws_def)

lemma rb_insert_split:
  assumes "rbtree_laws key T" "rb_sorted key (rb_iter T t)" "rb_insert T t v = (t', p)"
  shows "p \<le> length (rb_iter T t)"
    and "rb_iter T t' = take p (rb_iter T t) @ v # drop p (rb_iter T t)"
    and "rb_sorted key (rb_iter T t')"
proof -
  from assms(1,2) have "snd (rb_insert T t v) \<le> length (rb_iter T t) \<and>
        rb_iter T (fst (rb_insert T t v)) =
          take (snd (rb_insert T t v)) (rb_iter T t) @ v # drop (snd (rb_insert T t v)) (rb_iter T t) \<and>
        rb_sorted key (rb_iter T (fst (rb_insert T t v)))"
    unfolding rbtree_laws_def by blast
  with assms(3) show "p \<le> length (rb_iter T t)"
    "rb_iter T t' = take p (rb_iter T t) @ v # drop p (rb_iter T t)"
    "rb_sorted key (rb_iter T t')"
    by auto
qed

lemma rb_find_Some:
  assumes "rbtree_laws key T" "rb_sorted key (rb_iter T t)" "rb_find T t k = Some i"
  shows "i < length (rb_iter T t)" "key (rb_iter T t ! i) = k"
proof -
  from assms(1,2) have "case rb_find T t k of
           None \<Rightarrow> k \<notin> key ` set (rb_iter T t)
         | Some i \<Rightarrow> i < length (rb_iter T t) \<and> key (rb_iter T t ! i) = k"
    unfolding rbtree_laws_def by blast
  with assms(3) show "i < length (rb_iter T t)" "key (rb_iter T t ! i) = k" by auto
qed

lemma rb_find_None:
  assumes "rbtree_laws key T" "rb_sorted key (rb_iter T t)" "rb_find T t k = None"
  shows "k \<notin> key ` set (rb_iter T t)"
proof -
  from assms(1,2) have "case rb_find T t k of
           None \<Rightarrow> k \<notin> key ` set (rb_iter T t)
         | Some i \<Rightarrow> i < length (rb_iter T t) \<and> key (rb_iter T t ! i) = k"
    unfolding rbtree_laws_def by blast
  with assms(3) show ?thesis by auto
qed

lemma rb_upper_bound_Some:
  assumes "rbtree_laws key T" "rb_sorted key (rb_iter T t)" "rb_upper_bound T t b = Some i"
  shows "i < length (rb_iter T t)" "key (rb_iter T t ! i) \<le> b"
    and "\<And>j. i < j \<Longrightarrow> j < length (rb_iter T t) \<Longrightarrow> b < key (rb_iter T t ! j)"
proof -
  from assms(1,2) have "case rb_upper_bound T t b of
           None \<Rightarrow> \<forall>v \<in> set (rb_iter T t). b < key v
         | Some i \<Rightarrow> i < length (rb_iter T t) \<and> key (rb_iter T t ! i) \<le> b \<and>
             (\<forall>j. i < j \<longrightarrow> j < length (rb_iter T t) \<longrightarrow> b < key (rb_iter T t ! j))"
    unfolding rbtree_laws_def by blast
  with assms(3) show "i < length (rb_iter T t)" "key (rb_iter T t ! i) \<le> b"
    "\<And>j. i < j \<Longrightarrow> j < length (rb_iter T t) \<Longrightarrow> b < key (rb_iter T t ! j)"
    by auto
qed

lemma rb_upper_bound_None:
  assumes "rbtree_laws key T" "rb_sorted key (rb_iter T t)" "rb_upper_bound T t b = None"
  shows "\<forall>v \<in> set (rb_iter T t). b < key v"
proof -
  from assms(1,2) have "case rb_upper_bound T t b of
           None \<Rightarrow> \<forall>v \<in> set (rb_iter T t). b < key v
         | Some i \<Rightarrow> i < length (rb_iter T t) \<and> key (rb_iter T t ! i) \<le> b \<and>
             (\<forall>j. i < j \<longrightarrow> j < length (rb_iter T t) \<longrightarrow> b < key (rb_iter T t ! j))"
    unfolding rbtree_laws_def by blast
  with assms(3) show ?thesis by auto
qed

lemma rb_iter_remove:
  "rbtree_laws key T \<Longrightarrow> i < length (rb_iter T t) \<Longrightarrow>
     rb_iter T (rb_remove T t i) = take i (rb_iter T t) @ drop (Suc i) (rb_iter T t)"
  by (simp add: rbtree_laws_def)

lemma rb_iter_replace:
  "rbtree_laws key T \<Longrightarrow> i < length (rb_iter T t) \<Longrightarrow>
     rb_iter T (rb_replace T t i v) = (rb_iter T t)[i := v]"
  by (simp add: rbtree_laws_def)

lemma rb_sorted_delete: "rb_sorted key xs \<Longrightarrow> rb_sorted key (take i xs @ drop (Suc i) xs)"
proof (cases "i < length xs")
  case True
  assume "rb_sorted key xs"
  then have "rb_sorted key (take i xs @ xs ! i # drop (Suc i) xs)"
    using True by (simp flip: id_take_nth_drop)
  then show ?thesis by (auto simp: rb_sorted_def sorted_append)
qed simp

section \<open>A sorted list as a tree\<close>

definition list_insert_pos :: "('v \<Rightarrow> usize) \<Rightarrow> 'v list \<Rightarrow> 'v \<Rightarrow> nat" where
  "list_insert_pos key xs v = length (takeWhile (\<lambda>x. key x \<le> key v) xs)"

definition list_find :: "('v \<Rightarrow> usize) \<Rightarrow> 'v list \<Rightarrow> usize \<Rightarrow> nat option" where
  "list_find key xs k =
     (let i = length (takeWhile (\<lambda>x. key x \<noteq> k) xs) in if i < length xs then Some i else None)"

definition list_upper_bound :: "('v \<Rightarrow> usize) \<Rightarrow> 'v list \<Rightarrow> usize \<Rightarrow> nat option" where
  "list_upper_bound key xs b =
     (let n = length (takeWhile (\<lambda>x. key x \<le> b) xs) in if n = 0 then None else Some (n - 1))"

definition list_rbtree :: "('v \<Rightarrow> usize) \<Rightarrow> ('v list, 'v) rbtree_ops" where
  "list_rbtree key =
     \<lparr>rb_new = [], rb_iter = (\<lambda>xs. xs),
      rb_insert = (\<lambda>xs v. let p = list_insert_pos key xs v in (take p xs @ v # drop p xs, p)),
      rb_find = list_find key, rb_upper_bound = list_upper_bound key,
      rb_remove = (\<lambda>xs i. take i xs @ drop (Suc i) xs), rb_replace = (\<lambda>xs i v. xs[i := v])\<rparr>"

lemma list_rbtree_simps [simp]:
  "rb_new (list_rbtree key) = []"
  "rb_iter (list_rbtree key) xs = xs"
  "rb_insert (list_rbtree key) xs v =
     (take (list_insert_pos key xs v) xs @ v # drop (list_insert_pos key xs v) xs,
      list_insert_pos key xs v)"
  "rb_find (list_rbtree key) = list_find key"
  "rb_upper_bound (list_rbtree key) = list_upper_bound key"
  "rb_remove (list_rbtree key) xs i = take i xs @ drop (Suc i) xs"
  "rb_replace (list_rbtree key) xs i v = xs[i := v]"
  by (simp_all add: list_rbtree_def Let_def)

lemma list_insert_sorted:
  "rb_sorted key xs \<Longrightarrow>
     rb_sorted key (take (list_insert_pos key xs v) xs @ v # drop (list_insert_pos key xs v) xs)"
proof (induction xs)
  case Nil
  then show ?case by (simp add: rb_sorted_def list_insert_pos_def)
next
  case (Cons x xs)
  then have tl: "rb_sorted key xs" and hd: "\<forall>y \<in> set xs. key x \<le> key y"
    by (auto simp: rb_sorted_def)
  show ?case
  proof (cases "key x \<le> key v")
    case True
    then have p: "list_insert_pos key (x # xs) v = Suc (list_insert_pos key xs v)"
      by (simp add: list_insert_pos_def)
    have "\<forall>y \<in> set (take (list_insert_pos key xs v) xs @ v # drop (list_insert_pos key xs v) xs).
            key x \<le> key y"
      using True hd by (auto dest: in_set_takeD in_set_dropD)
    then show ?thesis using Cons.IH [OF tl] by (auto simp: p rb_sorted_def)
  next
    case False
    then have "list_insert_pos key (x # xs) v = 0" by (simp add: list_insert_pos_def)
    then show ?thesis using False hd Cons.prems by (fastforce simp: rb_sorted_def)
  qed
qed

lemma list_find_correct:
  "case list_find key xs k of None \<Rightarrow> k \<notin> key ` set xs | Some i \<Rightarrow> i < length xs \<and> key (xs ! i) = k"
proof -
  let ?i = "length (takeWhile (\<lambda>x. key x \<noteq> k) xs)"
  have "key (xs ! ?i) = k" if "?i < length xs" using nth_length_takeWhile [OF that] by simp
  moreover have "k \<notin> key ` set xs" if "\<not> ?i < length xs"
  proof -
    have "takeWhile (\<lambda>x. key x \<noteq> k) xs = xs"
      using that by (metis length_takeWhile_le nat_less_le takeWhile_eq_take take_all_iff order_refl)
    then show ?thesis by (auto simp: takeWhile_eq_all_conv)
  qed
  ultimately show ?thesis by (auto simp: list_find_def Let_def)
qed

lemma list_upper_bound_correct:
  assumes "rb_sorted key xs"
  shows "case list_upper_bound key xs b of None \<Rightarrow> \<forall>v \<in> set xs. b < key v
     | Some i \<Rightarrow> i < length xs \<and> key (xs ! i) \<le> b \<and>
         (\<forall>j. i < j \<longrightarrow> j < length xs \<longrightarrow> b < key (xs ! j))"
proof -
  let ?n = "length (takeWhile (\<lambda>x. key x \<le> b) xs)"
  have gt: "b < key (xs ! j)" if "?n \<le> j" "j < length xs" for j
  proof -
    have "?n < length xs" using that by simp
    then have "b < key (xs ! ?n)" using nth_length_takeWhile by fastforce
    also have "\<dots> \<le> key (xs ! j)"
      using assms that by (auto simp: rb_sorted_def sorted_iff_nth_mono)
    finally show ?thesis .
  qed
  have le: "key (xs ! i) \<le> b" if "i < ?n" for i
    using set_takeWhileD [of "xs ! i" "\<lambda>x. key x \<le> b" xs] that
    by (metis nth_mem takeWhile_nth)
  show ?thesis
  proof (cases "?n = 0")
    case True
    then have "\<forall>v \<in> set xs. b < key v" using gt by (auto simp: in_set_conv_nth)
    then show ?thesis using True by (simp add: list_upper_bound_def)
  next
    case False
    have "?n \<le> length xs" by (rule length_takeWhile_le)
    then have "?n - 1 < length xs" using False by linarith
    moreover have "key (xs ! (?n - 1)) \<le> b" using False by (intro le) linarith
    moreover have "b < key (xs ! j)" if "?n - 1 < j" "j < length xs" for j
      using gt [of j] that False by linarith
    ultimately show ?thesis using False by (auto simp: list_upper_bound_def Let_def)
  qed
qed

lemma list_rbtree_laws: "rbtree_laws key (list_rbtree key)"
proof -
  have pos: "list_insert_pos key xs v \<le> length xs" for xs v
    by (simp add: list_insert_pos_def length_takeWhile_le)
  show ?thesis
    unfolding rbtree_laws_def list_rbtree_simps fst_conv snd_conv
    by (intro conjI allI impI)
      (rule refl pos list_find_correct | erule list_insert_sorted list_upper_bound_correct)+
qed

section \<open>Equal keys\<close>

definition rb_insert_last :: "('v \<Rightarrow> usize) \<Rightarrow> ('t, 'v) rbtree_ops \<Rightarrow> bool" where
  "rb_insert_last key T \<longleftrightarrow>
     (\<forall>t v. rb_sorted key (rb_iter T t) \<longrightarrow>
        snd (rb_insert T t v) = length (takeWhile (\<lambda>x. key x \<le> key v) (rb_iter T t)))"

lemma list_rbtree_insert_last: "rb_insert_last key (list_rbtree key)"
  by (simp add: rb_insert_last_def list_insert_pos_def)

text \<open>Where an element lands between smaller and larger ones.\<close>

lemma rb_insert_at:
  assumes "rbtree_laws key T" "rb_insert_last key T" "rb_sorted key (rb_iter T t)"
    and "rb_iter T t = xs @ ys" "\<forall>x \<in> set xs. key x \<le> key v" "\<forall>y \<in> set ys. key v < key y"
  shows "snd (rb_insert T t v) = length xs" "rb_iter T (fst (rb_insert T t v)) = xs @ v # ys"
proof -
  have "takeWhile (\<lambda>x. key x \<le> key v) (xs @ ys) = xs @ takeWhile (\<lambda>x. key x \<le> key v) ys"
    using assms(5) by (simp add: takeWhile_append2)
  also have "takeWhile (\<lambda>x. key x \<le> key v) ys = []"
    using assms(6) by (cases ys) auto
  finally show p: "snd (rb_insert T t v) = length xs"
    using assms(2,3,4) by (simp add: rb_insert_last_def)
  obtain t' q where i: "rb_insert T t v = (t', q)" by fastforce
  from rb_insert_split(2) [OF assms(1,3) i] p i assms(4)
  show "rb_iter T (fst (rb_insert T t v)) = xs @ v # ys" by simp
qed

end
