(* ===== verification/UntrustedAlloc.thy ===== *)
theory UntrustedAlloc
  imports FreeSpace RbTree
begin

text \<open>
  The allocator of untrusted memory
  (\<^verbatim>\<open>src/libos/crates/sgx-untrusted-alloc/src/untrusted_allocator\<close>): chunks obtained
  from the host by \<open>mmap\<close>, each with a free list and a tree of the blocks in use, and the
  list of chunks behind \<open>UntrustedBox\<close>.  The crate has its own copies of the range and free
  list code; they differ from those of the LibOS only where this theory gives a definition
  of its own, and are otherwise the definitions of \<open>VmRange\<close> and \<open>FreeSpace\<close>.
  Parameters: the tree operations \<open>T\<close> of \<open>RbTree\<close> and the answer \<open>mmap\<close> of the host to the
  one call an operation may make (\<open>None\<close> for \<open>MAP_FAILED\<close>).
\<close>

section \<open>The code\<close>

abbreviation DEFAULT_ALIGNMENT :: usize where
  "DEFAULT_ALIGNMENT \<equiv> 16"

abbreviation DEFAULT_CHUNK_SIZE :: usize where
  "DEFAULT_CHUNK_SIZE \<equiv> 16777216"

definition UVMRange_new :: "usize \<Rightarrow> usize \<Rightarrow> VMRange res" where
  "UVMRange_new s e = (if s > e then Err EINVAL else Ok (mk_range s e))"

record UVMArea =
  ua_range :: VMRange

definition ua_key :: "UVMArea \<Rightarrow> usize" where
  "ua_key vma = r_start (ua_range vma)"

fun ua_find_loop :: "usize \<Rightarrow> usize \<Rightarrow> nat \<Rightarrow> VMRange list \<Rightarrow> (VMRange \<times> nat) option" where
  "ua_find_loop sz align idx [] = None"
| "ua_find_loop sz align idx (free_range # rest) =
     (if VMRange_size free_range < sz then ua_find_loop sz align (Suc idx) rest
      else let s = align_up (r_start free_range) align; e = uadd s sz
        in if r_end free_range < e then ua_find_loop sz align (Suc idx) rest
           else Some (VMRange_from_unchecked s e, idx))"

definition ua_find_free_range_internal ::
  "VMFreeSpaceManager \<Rightarrow> usize \<Rightarrow> usize \<Rightarrow> (VMFreeSpaceManager \<times> VMRange) res" where
  "ua_find_free_range_internal fl sz align =
     (case ua_find_loop sz align 0 fl of
        None \<Rightarrow> Err ENOMEM
      | Some (r, index) \<Rightarrow> res_bind (free_list_update_range fl index r) (\<lambda>fl'. Ok (fl', r)))"

record 't UChunk =
  uc_range :: VMRange
  uc_free_size :: usize
  uc_vmas :: 't
  uc_free_manager :: VMFreeSpaceManager

definition UChunk_new ::
  "('t, UVMArea) rbtree_ops \<Rightarrow> (usize \<Rightarrow> usize option) \<Rightarrow> usize \<Rightarrow> 't UChunk res" where
  "UChunk_new T mmap total_size =
     (case mmap total_size of
        None \<Rightarrow> Err ENOMEM
      | Some addr \<Rightarrow>
          (case checked_add addr total_size of
             None \<Rightarrow> Panic
           | Some e \<Rightarrow>
               res_bind (UVMRange_new addr e) (\<lambda>range.
                 Ok \<lparr>uc_range = range, uc_free_size = VMRange_size range, uc_vmas = rb_new T,
                     uc_free_manager = FreeSpace_new range\<rparr>)))"

definition UChunk_is_empty :: "('t, UVMArea) rbtree_ops \<Rightarrow> 't UChunk \<Rightarrow> bool" where
  "UChunk_is_empty T c \<longleftrightarrow> length (rb_iter T (uc_vmas c)) = 0"

definition UChunk_alloc ::
  "('t, UVMArea) rbtree_ops \<Rightarrow> 't UChunk \<Rightarrow> usize \<Rightarrow> usize \<Rightarrow> ('t UChunk \<times> usize) res" where
  "UChunk_alloc T c sz align =
     res_bind (ua_find_free_range_internal (uc_free_manager c) sz align) (\<lambda>(fm, new_range).
       let new_vma = \<lparr>ua_range = new_range\<rparr>
       in Ok (c\<lparr>uc_free_manager := fm,
                uc_free_size := usub (uc_free_size c) (VMRange_size (ua_range new_vma)),
                uc_vmas := fst (rb_insert T (uc_vmas c) new_vma)\<rparr>, r_start new_range))"

definition UChunk_free ::
  "('t, UVMArea) rbtree_ops \<Rightarrow> 't UChunk \<Rightarrow> usize \<Rightarrow> 't UChunk res" where
  "UChunk_free T c addr =
     (if addr = 0 then Ok c
      else case rb_find T (uc_vmas c) addr of
        None \<Rightarrow> Err EINVAL
      | Some i \<Rightarrow>
          (let vma = rb_iter T (uc_vmas c) ! i
           in Ok (c\<lparr>uc_vmas := rb_remove T (uc_vmas c) i,
                    uc_free_manager := add_range_back_to_free_manager (uc_free_manager c) (ua_range vma),
                    uc_free_size := uadd (uc_free_size c) (VMRange_size (ua_range vma))\<rparr>)))"

definition UChunk_find_used_mem_region ::
  "('t, UVMArea) rbtree_ops \<Rightarrow> 't UChunk \<Rightarrow> usize \<Rightarrow> VMRange res" where
  "UChunk_find_used_mem_region T c addr =
     (case rb_upper_bound T (uc_vmas c) addr of
        None \<Rightarrow> Err ESRCH
      | Some i \<Rightarrow>
          (let vma = rb_iter T (uc_vmas c) ! i
           in if \<not> VMRange_contains (ua_range vma) addr then Err ESRCH else Ok (ua_range vma)))"

definition UChunk_is_free_range :: "'t UChunk \<Rightarrow> VMRange \<Rightarrow> bool" where
  "UChunk_is_free_range c request_range = is_free_range (uc_free_manager c) request_range"

definition UChunk_contains :: "'t UChunk \<Rightarrow> usize \<Rightarrow> bool" where
  "UChunk_contains c addr = VMRange_contains (uc_range c) addr"

text \<open>The list of chunks; the lock around it is not modelled, every operation holds it throughout.\<close>

type_synonym 't Allocator = "'t UChunk list"

definition Allocator_new ::
  "('t, UVMArea) rbtree_ops \<Rightarrow> (usize \<Rightarrow> usize option) \<Rightarrow> 't Allocator res" where
  "Allocator_new T mmap =
     (case UChunk_new T mmap DEFAULT_CHUNK_SIZE of Ok c \<Rightarrow> Ok [c] | _ \<Rightarrow> Panic)"

fun alloc_from_chunks ::
  "('t, UVMArea) rbtree_ops \<Rightarrow> 't Allocator \<Rightarrow> usize \<Rightarrow> usize \<Rightarrow> ('t Allocator \<times> usize) option res" where
  "alloc_from_chunks T [] sz align = Ok None"
| "alloc_from_chunks T (c # cs) sz align =
     (let next = map_res (map_option (\<lambda>(cs', addr). (c # cs', addr))) (alloc_from_chunks T cs sz align)
      in if sz > uc_free_size c then next
         else case UChunk_alloc T c sz align of
           Ok (c', addr) \<Rightarrow> Ok (Some (c' # cs, addr))
         | Err _ \<Rightarrow> next
         | Panic \<Rightarrow> Panic)"

definition alloc_from_new_chunk ::
  "('t, UVMArea) rbtree_ops \<Rightarrow> (usize \<Rightarrow> usize option) \<Rightarrow> 't Allocator \<Rightarrow> usize \<Rightarrow> usize
     \<Rightarrow> ('t Allocator \<times> usize) res" where
  "alloc_from_new_chunk T mmap cs sz align =
     res_bind (UChunk_new T mmap (max sz DEFAULT_CHUNK_SIZE)) (\<lambda>new_chunk.
       res_bind (UChunk_alloc T new_chunk sz align) (\<lambda>(new_chunk', ret_addr).
         Ok (new_chunk' # cs, ret_addr)))"

definition Allocator_alloc ::
  "('t, UVMArea) rbtree_ops \<Rightarrow> (usize \<Rightarrow> usize option) \<Rightarrow> 't Allocator \<Rightarrow> usize \<Rightarrow> usize option
     \<Rightarrow> ('t Allocator \<times> usize) res" where
  "Allocator_alloc T mmap cs sz align_opt =
     (let align = (case align_opt of Some a \<Rightarrow> a | None \<Rightarrow> DEFAULT_ALIGNMENT)
      in res_bind (alloc_from_chunks T cs sz align) (\<lambda>found.
           case found of
             Some res \<Rightarrow> Ok res
           | None \<Rightarrow> alloc_from_new_chunk T mmap cs sz align))"

fun find_chunk :: "'t Allocator \<Rightarrow> usize \<Rightarrow> nat \<Rightarrow> nat option" where
  "find_chunk [] addr idx = None"
| "find_chunk (c # cs) addr idx =
     (if UChunk_contains c addr then Some idx else find_chunk cs addr (Suc idx))"

definition Allocator_free ::
  "('t, UVMArea) rbtree_ops \<Rightarrow> 't Allocator \<Rightarrow> usize \<Rightarrow> 't Allocator res" where
  "Allocator_free T cs addr =
     (case find_chunk cs addr 0 of
        None \<Rightarrow> Panic
      | Some idx \<Rightarrow>
          (case UChunk_free T (cs ! idx) addr of
             Ok chunk \<Rightarrow>
               (let chunk_list = cs[idx := chunk]
                in if UChunk_is_empty T chunk \<and> length chunk_list > 1 then
                     (let rest = take idx chunk_list @ drop (Suc idx) chunk_list
                      in if \<not> UChunk_is_empty T (hd rest) then Ok (chunk # rest) else Ok rest)
                   else Ok chunk_list)
           | _ \<Rightarrow> Panic))"

section \<open>Invariant and abstraction\<close>

definition uc_used :: "('t, UVMArea) rbtree_ops \<Rightarrow> 't UChunk \<Rightarrow> VMRange list" where
  "uc_used T c = map ua_range (rb_iter T (uc_vmas c))"

definition uchunk_inv :: "('t, UVMArea) rbtree_ops \<Rightarrow> 't UChunk \<Rightarrow> bool" where
  "uchunk_inv T c \<longleftrightarrow>
     proper (uc_range c) \<and> 0 < r_start (uc_range c) \<and>
     fl_inv (uc_free_manager c) \<and> rb_sorted ua_key (rb_iter T (uc_vmas c)) \<and>
     disjoint_ranges (uc_used T c) \<and>
     free_set (uc_free_manager c) \<inter> used_set (uc_used T c) = {} \<and>
     free_set (uc_free_manager c) \<union> used_set (uc_used T c) = addrs (uc_range c) \<and>
     uc_free_size c = card (free_set (uc_free_manager c))"

definition apart :: "VMRange \<Rightarrow> VMRange \<Rightarrow> bool" where
  "apart r s \<longleftrightarrow> addrs r \<inter> addrs s = {}"

definition alloc_inv :: "('t, UVMArea) rbtree_ops \<Rightarrow> 't Allocator \<Rightarrow> bool" where
  "alloc_inv T cs \<longleftrightarrow>
     cs \<noteq> [] \<and> (\<forall>c \<in> set cs. uchunk_inv T c) \<and>
     sorted_wrt apart (map uc_range cs)"

definition live :: "('t, UVMArea) rbtree_ops \<Rightarrow> 't Allocator \<Rightarrow> VMRange set" where
  "live T cs = (\<Union>c \<in> set cs. set (uc_used T c))"

text \<open>
  What the host promises of an anonymous mapping: a region of the requested size in the user
  half of the address space, not at the null page, page aligned and apart from the mappings
  that exist.
\<close>

definition mmap_fresh :: "(usize \<Rightarrow> usize option) \<Rightarrow> 't Allocator \<Rightarrow> bool" where
  "mmap_fresh mmap cs \<longleftrightarrow>
     (\<forall>n a. mmap n = Some a \<longrightarrow>
        0 < a \<and> a + n \<le> ADDR_LIMIT \<and> a mod PAGE_SIZE = 0 \<and>
        (\<forall>c \<in> set cs. addrs (uc_range c) \<inter> {a..<a + n} = {}))"

section \<open>The chunk manager\<close>

lemma ua_find_loop_eq: "find_loop sz align Any idx fl None = Ok (ua_find_loop sz align idx fl)"
  by (induction fl arbitrary: idx) (auto simp: Let_def VMRange_from_unchecked_def)

lemma ua_find_eq: "ua_find_free_range_internal fl sz align = find_free_range_internal fl sz align Any"
  by (simp add: ua_find_free_range_internal_def find_free_range_internal_def ua_find_loop_eq)

lemma disjoint_ranges_append:
  "disjoint_ranges (xs @ ys) \<longleftrightarrow>
     disjoint_ranges xs \<and> disjoint_ranges ys \<and> used_set xs \<inter> used_set ys = {}"
  by (induction xs) (auto simp: used_set_def)

lemma used_set_append [simp]: "used_set (xs @ ys) = used_set xs \<union> used_set ys"
  by (auto simp: used_set_def)

lemma disjoint_ranges_middle:
  "disjoint_ranges (xs @ r # ys) \<longleftrightarrow>
     proper r \<and> addrs r \<inter> used_set (xs @ ys) = {} \<and> disjoint_ranges (xs @ ys)"
  by (auto simp: disjoint_ranges_append) (auto simp: used_set_def)

lemma disjoint_ranges_start_inj:
  assumes "disjoint_ranges rs" "r \<in> set rs" "s \<in> set rs" "r_start r = r_start s"
  shows "r = s"
proof (rule ccontr)
  assume "r \<noteq> s"
  then have "addrs r \<inter> addrs s = {}" using assms by (intro disjoint_ranges_pairwise)
  moreover have "proper r" "proper s" using assms disjoint_ranges_proper by blast+
  then have "r_start r \<in> addrs r" "r_start r \<in> addrs s"
    using assms(4) by (auto simp: proper_def addrs_def)
  ultimately show False by blast
qed

lemma proper_size_card: "proper r \<Longrightarrow> VMRange_size r = card (addrs r)"
  using VMRange_size_card proper_ok by blast

lemma uchunk_alloc_spec:
  assumes T: "rbtree_laws ua_key T" and inv: "uchunk_inv T c"
    and q: "is_power_of_two align" "0 < sz" and ok: "UChunk_alloc T c sz align = Ok (c', a)"
  shows "uchunk_inv T c'" "uc_range c' = uc_range c" "a mod align = 0"
    "set (uc_used T c') = insert (mk_range a (a + sz)) (set (uc_used T c))"
    "addrs (mk_range a (a + sz)) \<inter> used_set (uc_used T c) = {}"
    "addrs (mk_range a (a + sz)) \<subseteq> addrs (uc_range c)"
proof -
  from ok obtain fm r where f: "find_free_range_internal (uc_free_manager c) sz align Any = Ok (fm, r)"
    and a: "a = r_start r"
    and c': "c' = c\<lparr>uc_free_manager := fm, uc_free_size := usub (uc_free_size c) (VMRange_size r),
                uc_vmas := fst (rb_insert T (uc_vmas c) \<lparr>ua_range = r\<rparr>)\<rparr>"
    by (auto simp: UChunk_alloc_def ua_find_eq Let_def elim!: res_bind_OkE)
  have i: "fl_inv (uc_free_manager c)" "rb_sorted ua_key (rb_iter T (uc_vmas c))"
    "disjoint_ranges (uc_used T c)"
    "free_set (uc_free_manager c) \<inter> used_set (uc_used T c) = {}"
    "free_set (uc_free_manager c) \<union> used_set (uc_used T c) = addrs (uc_range c)"
    "uc_free_size c = card (free_set (uc_free_manager c))"
    "proper (uc_range c)" "0 < r_start (uc_range c)"
    using inv by (simp_all add: uchunk_inv_def)
  note s = find_free_range_spec [OF i(1) q(1) f]
  have r: "r = mk_range a (a + sz)" using s(4) a by simp
  have pr: "proper r" using s(4,6) q(2) by (simp add: proper_def range_ok_def)
  obtain t' p where ins: "rb_insert T (uc_vmas c) \<lparr>ua_range = r\<rparr> = (t', p)" by (cases "rb_insert T (uc_vmas c) \<lparr>ua_range = r\<rparr>")
  note b = rb_insert_split [OF T i(2) ins]
  let ?L = "uc_used T c"
  have used: "uc_used T c' = take p ?L @ r # drop p ?L"
    using b(2) by (simp add: c' ins uc_used_def take_map drop_map)
  have dj: "addrs r \<inter> used_set ?L = {}" using s(3) i(4) by auto
  have us: "used_set (take p ?L) \<union> used_set (drop p ?L) = used_set ?L"
    by (simp only: used_set_append [symmetric] append_take_drop_id)
  have st: "set (take p ?L) \<union> set (drop p ?L) = set ?L"
    by (simp only: set_append [symmetric] append_take_drop_id)
  have "disjoint_ranges (uc_used T c')"
    unfolding used disjoint_ranges_middle using i(3) pr dj by simp
  moreover have "used_set (uc_used T c') = addrs r \<union> used_set ?L"
    unfolding used using us by auto
  moreover have "usub (uc_free_size c) (VMRange_size r) = card (free_set fm)"
  proof -
    have "card (addrs r) \<le> card (free_set (uc_free_manager c))"
      using s(3) by (intro card_mono) auto
    then show ?thesis
      using s(2,3) by (simp add: i(6) proper_size_card [OF pr] usub_no_wrap card_Diff_subset finite_subset [OF s(3)])
  qed
  ultimately show "uchunk_inv T c'"
    using i s b(3) by (auto simp: uchunk_inv_def c' ins)
  show "uc_range c' = uc_range c" by (simp add: c')
  show "a mod align = 0" using s(5) a by simp
  show "set (uc_used T c') = insert (mk_range a (a + sz)) (set ?L)"
    unfolding used using st r by auto
  show "addrs (mk_range a (a + sz)) \<inter> used_set ?L = {}" using dj r by simp
  show "addrs (mk_range a (a + sz)) \<subseteq> addrs (uc_range c)" using s(3) i(5) r by auto
qed

lemma uchunk_free_spec:
  assumes T: "rbtree_laws ua_key T" and inv: "uchunk_inv T c" and r: "r \<in> set (uc_used T c)"
  obtains c' where "UChunk_free T c (r_start r) = Ok c'" "uchunk_inv T c'" "uc_range c' = uc_range c"
    "set (uc_used T c') = set (uc_used T c) - {r}"
    "free_set (uc_free_manager c') = free_set (uc_free_manager c) \<union> addrs r"
proof -
  have i: "fl_inv (uc_free_manager c)" "rb_sorted ua_key (rb_iter T (uc_vmas c))"
    "disjoint_ranges (uc_used T c)"
    "free_set (uc_free_manager c) \<inter> used_set (uc_used T c) = {}"
    "free_set (uc_free_manager c) \<union> used_set (uc_used T c) = addrs (uc_range c)"
    "uc_free_size c = card (free_set (uc_free_manager c))"
    "proper (uc_range c)" "0 < r_start (uc_range c)"
    using inv by (simp_all add: uchunk_inv_def)
  let ?L = "uc_used T c" and ?xs = "rb_iter T (uc_vmas c)"
  have pr: "proper r" using i(3) r by (rule disjoint_ranges_proper)
  have sub: "addrs r \<subseteq> used_set ?L" using r by (auto simp: used_set_def)
  have "r_start r \<in> addrs r" using pr by (simp add: proper_def addrs_def)
  then have "r_start r \<in> addrs (uc_range c)" using sub i(5) by blast
  then have nz: "r_start r \<noteq> 0" using i(8) by (auto simp: addrs_def)
  have "r_start r \<in> ua_key ` set ?xs" using r by (auto simp: uc_used_def ua_key_def)
  then obtain k where k: "rb_find T (uc_vmas c) (r_start r) = Some k"
    using rb_find_None [OF T i(2)] by (cases "rb_find T (uc_vmas c) (r_start r)") auto
  note fk = rb_find_Some [OF T i(2) k]
  have "ua_range (?xs ! k) \<in> set ?L" using fk(1) by (simp add: uc_used_def)
  then have kr: "ua_range (?xs ! k) = r"
    using disjoint_ranges_start_inj [OF i(3) _ r] fk(2) by (simp add: ua_key_def)
  let ?fm = "add_range_back_to_free_manager (uc_free_manager c) r"
  define c' where "c' = c\<lparr>uc_vmas := rb_remove T (uc_vmas c) k, uc_free_manager := ?fm,
                    uc_free_size := uadd (uc_free_size c) (VMRange_size r)\<rparr>"
  have eq: "UChunk_free T c (r_start r) = Ok c'"
    using nz k kr by (simp add: UChunk_free_def Let_def c'_def)
  have dis: "addrs r \<inter> free_set (uc_free_manager c) = {}" using sub i(4) by auto
  note fm = add_range_back_spec [OF i(1) pr dis]
  have L: "?L = take k ?L @ r # drop (Suc k) ?L"
    using id_take_nth_drop [of k ?L] fk(1) kr by (simp add: uc_used_def)
  have L': "uc_used T c' = take k ?L @ drop (Suc k) ?L"
    using rb_iter_remove [OF T fk(1)] by (simp add: uc_used_def c'_def take_map drop_map)
  have dr: "disjoint_ranges (take k ?L @ r # drop (Suc k) ?L)" using i(3) L by simp
  then have d': "disjoint_ranges (uc_used T c')" "addrs r \<inter> used_set (uc_used T c') = {}"
    unfolding disjoint_ranges_middle L' by auto
  have u': "used_set ?L = addrs r \<union> used_set (uc_used T c')" by (subst L) (auto simp: L')
  have "r \<notin> set (uc_used T c')" using d'(2) proper_addrs [OF pr] by (auto simp: used_set_def)
  moreover have "set ?L = insert r (set (uc_used T c'))" by (subst L) (auto simp: L')
  ultimately have set': "set (uc_used T c') = set ?L - {r}" by auto
  have cd: "card (free_set ?fm) = card (free_set (uc_free_manager c)) + card (addrs r)"
    using fm dis by (simp add: card_Un_disjoint Int_commute)
  have "card (free_set ?fm) \<le> ADDR_LIMIT"
    using card_mono [OF _ free_set_bound] fm by fastforce
  then have sz: "uc_free_size c' = card (free_set ?fm)"
    using cd by (simp add: c'_def i(6) proper_size_card [OF pr] uadd_no_wrap)
  have "rb_sorted ua_key (rb_iter T (uc_vmas c'))"
    using rb_sorted_delete [OF i(2)] rb_iter_remove [OF T fk(1)] by (simp add: c'_def)
  moreover have "uc_free_manager c' = ?fm" "uc_range c' = uc_range c" by (simp_all add: c'_def)
  ultimately have "uchunk_inv T c'"
    using i fm d' u' sz by (auto simp: uchunk_inv_def)
  then show ?thesis using that eq set' fm by (simp add: c'_def)
qed
section \<open>The list of chunks\<close>

lemma uchunk_new_spec:
  assumes T: "rbtree_laws ua_key T" and m: "mmap_fresh mmap cs" and n: "0 < n"
    and ok: "UChunk_new T mmap n = Ok c"
  shows "uchunk_inv T c" "uc_used T c = []" "uc_free_manager c = [uc_range c]"
    "\<forall>d \<in> set cs. apart (uc_range d) (uc_range c)"
    "mmap n = Some (r_start (uc_range c))" "r_end (uc_range c) = r_start (uc_range c) + n"
proof -
  from ok obtain a where a: "mmap n = Some a"
    by (auto simp: UChunk_new_def split: option.splits)
  then have h: "0 < a" "a + n \<le> ADDR_LIMIT" "\<forall>d \<in> set cs. addrs (uc_range d) \<inter> {a..<a + n} = {}"
    using m by (auto simp: mmap_fresh_def)
  have c: "c = \<lparr>uc_range = mk_range a (a + n), uc_free_size = n, uc_vmas = rb_new T,
      uc_free_manager = [mk_range a (a + n)]\<rparr>"
    using ok h a
    by (auto simp: UChunk_new_def checked_add_def UVMRange_new_def FreeSpace_new_def VMRange_size_def
      usub_no_wrap split: if_splits)
  show "uchunk_inv T c" "uc_used T c = []" "uc_free_manager c = [uc_range c]"
    "mmap n = Some (r_start (uc_range c))" "r_end (uc_range c) = r_start (uc_range c) + n"
    using h n a by (simp_all add: c uchunk_inv_def uc_used_def rb_iter_new [OF T] proper_def fl_inv_def
        rb_sorted_def addrs_def)
  show "\<forall>d \<in> set cs. apart (uc_range d) (uc_range c)"
    using h(3) by (simp add: c addrs_def apart_def)
qed

lemma alloc_from_chunks_Some:
  assumes "alloc_from_chunks T cs sz align = Ok (Some (cs', a))"
  obtains xs c ys c' where "cs = xs @ c # ys" "cs' = xs @ c' # ys" "UChunk_alloc T c sz align = Ok (c', a)"
  using assms
proof (induction cs arbitrary: cs' thesis)
  case (Cons d ds)
  have rec: thesis if "map_res (map_option (\<lambda>(cs', addr). (d # cs', addr))) (alloc_from_chunks T ds sz align) =
      Ok (Some (cs', a))"
  proof -
    from that obtain ds' where ds': "alloc_from_chunks T ds sz align = Ok (Some (ds', a))" "cs' = d # ds'"
      by (cases "alloc_from_chunks T ds sz align") auto
    obtain xs c ys c' where "ds = xs @ c # ys" "ds' = xs @ c' # ys" "UChunk_alloc T c sz align = Ok (c', a)"
      using Cons.IH [OF _ ds'(1)] by blast
    then show ?thesis using Cons.prems(1) [of "d # xs" c ys c'] ds' by simp
  qed
  show ?case
    using Cons.prems rec Cons.prems(1) [of "[]" d ds]
    by (auto simp: Let_def split: if_splits res.splits)
qed simp

lemma live_append [simp]: "live T (xs @ ys) = live T xs \<union> live T ys"
  and live_Cons [simp]: "live T (c # cs) = set (uc_used T c) \<union> live T cs"
  and live_Nil [simp]: "live T [] = {}"
  by (auto simp: live_def)

lemma apart_sym: "apart r s \<longleftrightarrow> apart s r"
  by (auto simp: apart_def)

lemma alloc_inv_split:
  "alloc_inv T (xs @ c # ys) \<longleftrightarrow>
     (\<forall>d \<in> set (c # xs @ ys). uchunk_inv T d) \<and>
     (\<forall>d \<in> set (xs @ ys). apart (uc_range d) (uc_range c)) \<and>
     sorted_wrt apart (map uc_range (xs @ ys))"
  using apart_sym by (auto simp: alloc_inv_def sorted_wrt_append)

lemma alloc_inv_moves:
  assumes "alloc_inv T (xs @ c # ys)"
  shows "alloc_inv T (c # xs @ ys)" "xs @ ys \<noteq> [] \<Longrightarrow> alloc_inv T (xs @ ys)"
  using assms apart_sym unfolding alloc_inv_split by (auto simp: alloc_inv_def)

lemma uchunk_inv_live:
  assumes "uchunk_inv T d" "r \<in> set (uc_used T d)"
  shows "proper r" "addrs r \<subseteq> addrs (uc_range d)"
  using assms disjoint_ranges_proper by (auto simp: uchunk_inv_def used_set_def)

lemma live_outside:
  assumes "alloc_inv T (xs @ c # ys)" "r \<in> live T (xs @ ys)"
  shows "addrs r \<inter> addrs (uc_range c) = {}" "proper r"
proof -
  from assms(2) obtain d where d: "d \<in> set (xs @ ys)" "r \<in> set (uc_used T d)"
    by (auto simp: live_def)
  then show "addrs r \<inter> addrs (uc_range c) = {}" and "proper r"
    using assms(1) uchunk_inv_live [of T d r] unfolding alloc_inv_split apart_def by auto
qed

lemma allocator_alloc_spec:
  assumes T: "rbtree_laws ua_key T" and inv: "alloc_inv T cs" and m: "mmap_fresh mmap cs"
    and q: "is_power_of_two align" "0 < sz"
    and al: "align = (case align_opt of Some a \<Rightarrow> a | None \<Rightarrow> DEFAULT_ALIGNMENT)"
    and ok: "Allocator_alloc T mmap cs sz align_opt = Ok (cs', a)"
  shows "alloc_inv T cs'" "live T cs' = insert (mk_range a (a + sz)) (live T cs)"
    "\<forall>r \<in> live T cs. addrs (mk_range a (a + sz)) \<inter> addrs r = {}" "a mod align = 0"
proof -
  let ?r = "mk_range a (a + sz)"
  from ok consider "alloc_from_chunks T cs sz align = Ok (Some (cs', a))"
    | "alloc_from_new_chunk T mmap cs sz align = Ok (cs', a)"
    by (auto simp: Allocator_alloc_def Let_def al elim!: res_bind_OkE split: option.splits)
  then have "alloc_inv T cs' \<and> live T cs' = insert ?r (live T cs) \<and>
    (\<forall>r \<in> live T cs. addrs ?r \<inter> addrs r = {}) \<and> a mod align = 0"
  proof cases
    case 1
    then obtain xs c ys c' where s: "cs = xs @ c # ys" "cs' = xs @ c' # ys"
      "UChunk_alloc T c sz align = Ok (c', a)" by (rule alloc_from_chunks_Some)
    have ci: "uchunk_inv T c" using inv s(1) by (simp add: alloc_inv_def)
    note a = uchunk_alloc_spec [OF T ci q s(3)]
    have "addrs ?r \<inter> addrs r = {}" if "r \<in> live T cs" for r
      using that a(5,6) live_outside(1) [OF inv [unfolded s(1)], of r] s(1)
      by (auto simp: used_set_def)
    then show ?thesis
      using inv a(1-4) s unfolding s alloc_inv_split by auto
  next
    case 2
    then obtain c c' where n: "UChunk_new T mmap (max sz DEFAULT_CHUNK_SIZE) = Ok c"
      and c': "UChunk_alloc T c sz align = Ok (c', a)" "cs' = c' # cs"
      by (auto simp: alloc_from_new_chunk_def elim!: res_bind_OkE)
    have "0 < max sz DEFAULT_CHUNK_SIZE" by simp
    note u = uchunk_new_spec [OF T m this n]
    note ci = u(1)
    note a = uchunk_alloc_spec [OF T ci q c'(1)]
    have i: "alloc_inv T ([] @ c' # cs)"
      using inv a(1,2) u(4) unfolding alloc_inv_split by (auto simp: alloc_inv_def)
    have "addrs ?r \<inter> addrs r = {}" if "r \<in> live T cs" for r
      using that live_outside(1) [OF i, of r] a(2,6) by auto
    then show ?thesis
      using i a u(2) c'(2) by auto
  qed
  then show "alloc_inv T cs'" "live T cs' = insert ?r (live T cs)"
    "\<forall>r \<in> live T cs. addrs ?r \<inter> addrs r = {}" "a mod align = 0" by auto
qed

lemma find_chunk_at:
  assumes "UChunk_contains c addr" "\<forall>d \<in> set xs. \<not> UChunk_contains d addr"
  shows "find_chunk (xs @ c # ys) addr k = Some (k + length xs)"
  using assms by (induction xs arbitrary: k) auto

lemma allocator_free_spec:
  assumes T: "rbtree_laws ua_key T" and inv: "alloc_inv T cs" and r: "r \<in> live T cs"
  obtains cs' where "Allocator_free T cs (r_start r) = Ok cs'" "alloc_inv T cs'"
    "live T cs' = live T cs - {r}"
proof -
  from r obtain c where c: "c \<in> set cs" "r \<in> set (uc_used T c)" by (auto simp: live_def)
  then obtain xs ys where cs: "cs = xs @ c # ys" by (meson split_list)
  have ci: "uchunk_inv T c" using inv c by (auto simp: alloc_inv_def)
  note rr = uchunk_inv_live [OF ci c(2)]
  have rs: "r_start r \<in> addrs (uc_range c)"
    using rr by (auto simp: proper_def addrs_def subset_eq)
  have con: "UChunk_contains d a \<longleftrightarrow> a \<in> addrs (uc_range d)" for d :: "'a UChunk" and a
    by (simp add: UChunk_contains_def VMRange_contains_def addrs_def)
  have "\<forall>d \<in> set xs. \<not> UChunk_contains d (r_start r)"
    using inv rs unfolding cs alloc_inv_split con apart_def by auto
  then have fc: "find_chunk cs (r_start r) 0 = Some (length xs)"
    using find_chunk_at [of c "r_start r" xs ys 0] rs by (simp add: cs con)
  obtain c' where c': "UChunk_free T c (r_start r) = Ok c'" "uchunk_inv T c'" "uc_range c' = uc_range c"
    "set (uc_used T c') = set (uc_used T c) - {r}"
    "free_set (uc_free_manager c') = free_set (uc_free_manager c) \<union> addrs r"
    by (rule uchunk_free_spec [OF T ci c(2)])
  have out: "r \<notin> live T (xs @ ys)"
    using live_outside(1) [OF inv [unfolded cs], of r] rr proper_addrs [OF rr(1)] by auto
  have i': "alloc_inv T (xs @ c' # ys)"
    using inv c'(2,3) unfolding cs alloc_inv_split by auto
  have lv: "live T (xs @ c' # ys) = live T cs - {r}" using out c'(4) by (auto simp: cs)
  have emp: "live T (xs @ ys) = live T (xs @ c' # ys)" if "UChunk_is_empty T c'"
    using that by (auto simp: UChunk_is_empty_def uc_used_def)
  let ?cs' = "if UChunk_is_empty T c' \<and> xs @ ys \<noteq> [] then
      (if \<not> UChunk_is_empty T (hd (xs @ ys)) then c' # xs @ ys else xs @ ys) else xs @ c' # ys"
  have eq: "Allocator_free T cs (r_start r) = Ok ?cs'"
    unfolding Allocator_free_def fc
    by (simp add: c'(1) cs Let_def list_update_append)
  have "alloc_inv T ?cs'" using i' alloc_inv_moves [OF i'] by auto
  moreover have "live T ?cs' = live T cs - {r}" using lv emp by auto
  ultimately show ?thesis using that eq by blast
qed

section \<open>Clients\<close>

text \<open>
  The states a client can reach: the allocator of \<open>Allocator::new\<close>, after any sequence of
  non-empty allocations and of releases of blocks that are held.  The second component is the
  set of blocks the client holds.
\<close>

inductive ua_reach :: "('t, UVMArea) rbtree_ops \<Rightarrow> 't Allocator \<Rightarrow> VMRange set \<Rightarrow> bool"
  for T :: "('t, UVMArea) rbtree_ops" where
  start: "mmap_fresh mmap ([] :: 't Allocator) \<Longrightarrow> Allocator_new T mmap = Ok cs \<Longrightarrow> ua_reach T cs {}"
| alloc: "ua_reach T cs L \<Longrightarrow> mmap_fresh mmap cs \<Longrightarrow> 0 < sz \<Longrightarrow>
    is_power_of_two (case align_opt of Some al \<Rightarrow> al | None \<Rightarrow> DEFAULT_ALIGNMENT) \<Longrightarrow>
    Allocator_alloc T mmap cs sz align_opt = Ok (cs', a) \<Longrightarrow>
    ua_reach T cs' (insert (mk_range a (a + sz)) L)"
| free: "ua_reach T cs L \<Longrightarrow> r \<in> L \<Longrightarrow> Allocator_free T cs (r_start r) = Ok cs' \<Longrightarrow>
    ua_reach T cs' (L - {r})"

inductive_cases ua_reachE: "ua_reach T cs L"

lemma ua_reach_inv:
  assumes T: "rbtree_laws ua_key T" and "ua_reach T cs L"
  shows "alloc_inv T cs \<and> live T cs = L \<and> (\<forall>r \<in> L. \<forall>s \<in> L. r \<noteq> s \<longrightarrow> apart r s)"
  using assms(2)
proof (induction rule: ua_reach.induct)
  case (start mmap cs)
  then obtain c where c: "UChunk_new T mmap DEFAULT_CHUNK_SIZE = Ok c" "cs = [c]"
    by (auto simp: Allocator_new_def split: res.splits)
  show ?case using uchunk_new_spec [OF T start(1) _ c(1)] c(2) by (simp add: alloc_inv_def)
next
  case (alloc cs L mmap sz align_opt cs' a)
  note s = allocator_alloc_spec [OF T _ alloc.hyps(2,4,3) refl alloc.hyps(5)]
  have "\<forall>r \<in> L. apart (mk_range a (a + sz)) r" using s(3) alloc.IH by (simp add: apart_def)
  then show ?case using s(1,2) alloc.IH apart_sym by auto
next
  case (free cs L r cs')
  then have "r \<in> live T cs" by simp
  then obtain cs2 where "Allocator_free T cs (r_start r) = Ok cs2" "alloc_inv T cs2"
    "live T cs2 = live T cs - {r}"
    using allocator_free_spec [OF T] free.IH by blast
  then show ?case using free by auto
qed

lemma uchunk_empty_free:
  assumes "uchunk_inv T c" "uc_used T c = []"
  shows "uc_free_manager c = [uc_range c]" "uc_free_size c = VMRange_size (uc_range c)"
proof -
  have f: "fl_inv (uc_free_manager c)" "free_set (uc_free_manager c) = addrs (uc_range c)"
    "proper (uc_range c)" "uc_free_size c = card (addrs (uc_range c))"
    using assms by (auto simp: uchunk_inv_def)
  then show "uc_free_manager c = [uc_range c]"
    by (intro free_set_inj) (auto simp: fl_inv_Cons)
  show "uc_free_size c = VMRange_size (uc_range c)" using f by (simp add: proper_size_card)
qed

lemma uchunk_find_used_spec:
  assumes T: "rbtree_laws ua_key T" and inv: "uchunk_inv T c"
  shows "UChunk_find_used_mem_region T c addr =
     (if addr \<in> used_set (uc_used T c) then Ok (THE r. r \<in> set (uc_used T c) \<and> addr \<in> addrs r)
      else Err ESRCH)"
proof -
  have i: "rb_sorted ua_key (rb_iter T (uc_vmas c))" "disjoint_ranges (uc_used T c)"
    using inv by (simp_all add: uchunk_inv_def)
  let ?xs = "rb_iter T (uc_vmas c)"
  have mem: "addr \<in> addrs r \<longleftrightarrow> VMRange_contains r addr" for r
    by (simp add: addrs_def VMRange_contains_def)
  have the: "(THE r. r \<in> set (uc_used T c) \<and> addr \<in> addrs r) = r"
    if "r \<in> set (uc_used T c)" "addr \<in> addrs r" for r
    using that disjoint_ranges_pairwise [OF i(2)] by (intro the_equality) auto
  show ?thesis
  proof (cases "rb_upper_bound T (uc_vmas c) addr")
    case None
    then have "\<forall>v \<in> set ?xs. addr < r_start (ua_range v)"
      using rb_upper_bound_None [OF T i(1)] by (simp add: ua_key_def)
    then have "addr \<notin> used_set (uc_used T c)" by (force simp: used_set_def uc_used_def addrs_def)
    then show ?thesis using None by (simp add: UChunk_find_used_mem_region_def)
  next
    case (Some k)
    note b = rb_upper_bound_Some [OF T i(1) Some]
    let ?r = "ua_range (?xs ! k)"
    have rin: "?r \<in> set (uc_used T c)" using b(1) by (simp add: uc_used_def)
    have only: "addr \<in> addrs ?r" if "addr \<in> used_set (uc_used T c)"
    proof -
      from that obtain j where j: "j < length ?xs" "addr \<in> addrs (ua_range (?xs ! j))"
        by (auto simp: used_set_def uc_used_def in_set_conv_nth)
      let ?s = "ua_range (?xs ! j)"
      have sin: "?s \<in> set (uc_used T c)" using j(1) by (simp add: uc_used_def)
      have "\<not> k < j" using b(3) [of j] j by (auto simp: ua_key_def addrs_def)
      then have "r_start ?s \<le> r_start ?r"
        using i(1) b(1) by (auto simp: rb_sorted_def sorted_iff_nth_mono ua_key_def)
      then have "r_start ?r \<in> addrs ?s" using j(2) b(2) by (auto simp: addrs_def ua_key_def)
      moreover have "r_start ?r \<in> addrs ?r"
        using disjoint_ranges_proper [OF i(2) rin] by (simp add: proper_def addrs_def)
      ultimately have "?s = ?r" using disjoint_ranges_pairwise [OF i(2) sin rin] by blast
      then show ?thesis using j(2) by simp
    qed
    show ?thesis
    proof (cases "addr \<in> addrs ?r")
      case True
      then have "addr \<in> used_set (uc_used T c)" using rin by (auto simp: used_set_def)
      then show ?thesis using True the [OF rin True] Some
        by (simp add: UChunk_find_used_mem_region_def mem)
    next
      case False
      then have "addr \<notin> used_set (uc_used T c)" using only by blast
      then show ?thesis using False Some by (simp add: UChunk_find_used_mem_region_def mem)
    qed
  qed
qed

lemma uchunk_alloc_fresh:
  assumes T: "rbtree_laws ua_key T" and "0 < sz" "is_power_of_two align" "r_start (uc_range c) mod align = 0"
    and "uc_free_manager c = [uc_range c]" "uchunk_inv T c" "r_start (uc_range c) + sz \<le> r_end (uc_range c)"
  shows "\<exists>c'. UChunk_alloc T c sz align = Ok (c', r_start (uc_range c))"
proof -
  have p: "proper (uc_range c)" using assms(6) by (simp add: uchunk_inv_def)
  have au: "align_up (r_start (uc_range c)) align = r_start (uc_range c)"
    using align_up_aligned [OF assms(3) align_up_in_space [OF assms(3)] assms(4)] p
    by (simp add: proper_def)
  have w: "uadd (r_start (uc_range c)) sz = r_start (uc_range c) + sz"
    using p assms(7) by (simp add: proper_def uadd_no_wrap)
  have "ua_find_loop sz align 0 (uc_free_manager c) =
      Some (mk_range (r_start (uc_range c)) (r_start (uc_range c) + sz), 0)"
    using p assms(5,7) by (simp add: au w VMRange_size_def usub_no_wrap proper_def Let_def
        VMRange_from_unchecked_def)
  then show ?thesis
    by (simp add: UChunk_alloc_def ua_find_free_range_internal_def free_list_update_range_eq assms(5))
qed

lemma alloc_from_chunks_total:
  assumes "\<forall>c \<in> set cs. uchunk_inv T c" "is_power_of_two align" "0 < sz"
  shows "\<exists>r. alloc_from_chunks T cs sz align = Ok r"
  using assms
proof (induction cs)
  case (Cons c cs)
  have "UChunk_alloc T c sz align \<noteq> Panic"
    using Cons.prems find_free_range_not_Panic [of "uc_free_manager c" align sz Any]
    by (cases "find_free_range_internal (uc_free_manager c) sz align Any")
      (auto simp: UChunk_alloc_def ua_find_eq uchunk_inv_def Let_def split: prod.splits)
  then show ?case using Cons by (auto simp: Let_def split: res.splits)
qed simp

lemma allocator_alloc_total:
  assumes T: "rbtree_laws ua_key T" and inv: "alloc_inv T cs" and m: "mmap_fresh mmap cs"
    and q: "is_power_of_two align" "align \<le> PAGE_SIZE" "0 < sz"
    and al: "align = (case align_opt of Some a \<Rightarrow> a | None \<Rightarrow> DEFAULT_ALIGNMENT)"
  shows "(\<exists>cs' a. Allocator_alloc T mmap cs sz align_opt = Ok (cs', a)) \<or>
    Allocator_alloc T mmap cs sz align_opt = Err ENOMEM \<and> mmap (max sz DEFAULT_CHUNK_SIZE) = None"
proof -
  obtain found where f: "alloc_from_chunks T cs sz align = Ok found"
    using alloc_from_chunks_total [OF _ q(1,3), of cs T] inv by (auto simp: alloc_inv_def)
  show ?thesis
  proof (cases found)
    case None
    let ?n = "max sz DEFAULT_CHUNK_SIZE"
    have n: "Allocator_alloc T mmap cs sz align_opt = alloc_from_new_chunk T mmap cs sz align"
      using f None by (simp add: Allocator_alloc_def al [symmetric])
    show ?thesis
    proof (cases "mmap ?n")
      case (Some a)
      then have h: "0 < a" "a + ?n \<le> ADDR_LIMIT" "a mod PAGE_SIZE = 0"
        using m unfolding mmap_fresh_def by blast+
      have "0 < ?n" by simp
      from Some h have "\<exists>c. UChunk_new T mmap ?n = Ok c"
        by (simp add: UChunk_new_def checked_add_def UVMRange_new_def)
      then obtain c where c: "UChunk_new T mmap ?n = Ok c" by blast
      note u = uchunk_new_spec [OF T m \<open>0 < ?n\<close> c]
      have "align dvd PAGE_SIZE" using q by (intro is_power_of_two_dvd) simp_all
      then have "a mod align = 0" using h(3) by (meson dvd_trans mod_eq_0_iff_dvd)
      then have "\<exists>c'. UChunk_alloc T c sz align = Ok (c', r_start (uc_range c))"
        using u Some q by (intro uchunk_alloc_fresh [OF T]) auto
      then show ?thesis using n c by (auto simp: alloc_from_new_chunk_def)
    qed (simp add: n alloc_from_new_chunk_def UChunk_new_def)
  qed (use f in \<open>auto simp: Allocator_alloc_def al [symmetric]\<close>)
qed

section \<open>Properties\<close>

text \<open>
  C5: A client of the untrusted allocator is safe in every state it can reach by non-empty
  allocations and releases of what it holds, however the host answers \<open>mmap\<close> within its
  contract and whatever red-black tree keeps the blocks: the blocks it holds never overlap,
  releasing any of them does not panic, and once it holds none every chunk passes the checks of
  \<open>Drop\<close> (no block in use, the whole chunk one free range).
\<close>

theorem untrusted_alloc_safe:
  assumes "rbtree_laws ua_key T" "ua_reach T cs L"
  shows "(\<forall>r \<in> L. \<forall>s \<in> L. r \<noteq> s \<longrightarrow> addrs r \<inter> addrs s = {}) \<and>
    (\<forall>r \<in> L. \<exists>cs'. Allocator_free T cs (r_start r) = Ok cs') \<and>
    (L = {} \<longrightarrow> (\<forall>c \<in> set cs. UChunk_is_empty T c \<and> UChunk_is_free_range c (uc_range c)))"
proof -
  note i = ua_reach_inv [OF assms]
  have "\<exists>cs'. Allocator_free T cs (r_start r) = Ok cs'" if "r \<in> L" for r
  proof -
    have "alloc_inv T cs" "r \<in> live T cs" using i that by simp_all
    from allocator_free_spec [OF assms(1) this] show ?thesis by metis
  qed
  moreover have "UChunk_is_empty T c \<and> UChunk_is_free_range c (uc_range c)" if "L = {}" "c \<in> set cs" for c
  proof -
    have "uc_used T c = []" "uchunk_inv T c" using that i by (auto simp: live_def alloc_inv_def)
    with uchunk_empty_free [of T c] show ?thesis
      by (simp add: UChunk_is_empty_def uc_used_def UChunk_is_free_range_def is_free_range_def
          is_superset_of_def)
  qed
  ultimately show ?thesis using i by (simp add: apart_def)
qed

lemmas untrusted_eval = free_list_eval Let_def
  Allocator_new_def Allocator_alloc_def alloc_from_new_chunk_def Allocator_free_def
  UChunk_new_def UChunk_alloc_def UChunk_free_def UChunk_is_empty_def UChunk_contains_def
  ua_find_free_range_internal_def UVMRange_new_def FreeSpace_new_def checked_add_def
  list_insert_pos_def list_find_def list_upper_bound_def ua_key_def

definition mmap_at :: "usize \<Rightarrow> usize \<Rightarrow> usize option" where
  "mmap_at a n = (if a + n \<le> ADDR_LIMIT then Some a else None)"

definition one_chunk :: "UVMArea list \<Rightarrow> VMFreeSpaceManager \<Rightarrow> usize \<Rightarrow> UVMArea list Allocator" where
  "one_chunk vmas fl n =
     [\<lparr>uc_range = mk_range 4096 16781312, uc_free_size = n, uc_vmas = vmas, uc_free_manager = fl\<rparr>]"

lemma one_chunk_new:
  "Allocator_new (list_rbtree ua_key) (mmap_at 4096) = Ok (one_chunk [] [mk_range 4096 16781312] 16777216)"
  by (simp add: Allocator_new_def UChunk_new_def mmap_at_def one_chunk_def checked_add_def
      UVMRange_new_def VMRange_size_def usub_def FreeSpace_new_def)

lemma one_chunk_reach:
  "ua_reach (list_rbtree ua_key)
     (one_chunk [\<lparr>ua_range = mk_range 4096 4136\<rparr>] [mk_range 4136 16781312] 16777176) {mk_range 4096 4136}"
proof -
  have fresh: "mmap_fresh (mmap_at 4096) ([] :: UVMArea list Allocator)"
    by (auto simp: mmap_fresh_def mmap_at_def split: if_splits)
  have none: "mmap_fresh (\<lambda>_. None) cs" for cs :: "UVMArea list Allocator"
    by (simp add: mmap_fresh_def)
  note s = ua_reach.start [OF fresh one_chunk_new]
  have "Allocator_alloc (list_rbtree ua_key) (\<lambda>_. None) (one_chunk [] [mk_range 4096 16781312] 16777216) 40 None =
     Ok (one_chunk [\<lparr>ua_range = mk_range 4096 4136\<rparr>] [mk_range 4136 16781312] 16777176, 4096)"
    by (simp add: untrusted_eval one_chunk_def)
  from ua_reach.alloc [OF s none _ _ this] show ?thesis by simp
qed

theorem untrusted_alloc_safe_witness:
  "\<exists>cs'. Allocator_free (list_rbtree ua_key)
     (one_chunk [\<lparr>ua_range = mk_range 4096 4136\<rparr>] [mk_range 4136 16781312] 16777176) 4096 = Ok cs'"
  using untrusted_alloc_safe [OF list_rbtree_laws one_chunk_reach] by simp

text \<open>
  C18: An allocation of at least one byte, aligned to a power of two up to a page, succeeds unless
  the host refuses the chunk it would need, which is reported as \<open>ENOMEM\<close>; it never panics.  On
  success the invariant is kept, exactly one block is added to those in use, it is aligned, has the
  requested size and overlaps no other block.
\<close>

theorem untrusted_alloc_answers:
  assumes "rbtree_laws ua_key T" "alloc_inv T cs" "mmap_fresh mmap cs"
    and "is_power_of_two align" "align \<le> PAGE_SIZE" "0 < sz"
  shows "case Allocator_alloc T mmap cs sz (Some align) of
      Ok (cs', a) \<Rightarrow> alloc_inv T cs' \<and> live T cs' = insert (mk_range a (a + sz)) (live T cs) \<and>
        a mod align = 0 \<and> (\<forall>r \<in> live T cs. {a..<a + sz} \<inter> addrs r = {})
    | Err e \<Rightarrow> e = ENOMEM \<and> mmap (max sz DEFAULT_CHUNK_SIZE) = None
    | Panic \<Rightarrow> False"
proof -
  have al: "align = (case Some align of Some a \<Rightarrow> a | None \<Rightarrow> DEFAULT_ALIGNMENT)" by simp
  from allocator_alloc_total [OF assms al] show ?thesis
  proof (elim disjE exE conjE)
    fix cs' a assume ok: "Allocator_alloc T mmap cs sz (Some align) = Ok (cs', a)"
    show ?thesis
      using allocator_alloc_spec [OF assms(1-4,6) al ok] by (simp add: ok addrs_def)
  qed simp
qed

lemma one_chunk_start:
  "ua_reach (list_rbtree ua_key) (one_chunk [] [mk_range 4096 16781312] 16777216) {}"
proof -
  have "mmap_fresh (mmap_at 4096) ([] :: UVMArea list Allocator)"
    by (auto simp: mmap_fresh_def mmap_at_def split: if_splits)
  then show ?thesis by (rule ua_reach.start [OF _ one_chunk_new])
qed

theorem untrusted_alloc_answers_witness:
  "alloc_inv (list_rbtree ua_key) (one_chunk [\<lparr>ua_range = mk_range 4096 4136\<rparr>] [mk_range 4136 16781312] 16777176)"
proof -
  let ?T = "list_rbtree ua_key" and ?cs = "one_chunk [] [mk_range 4096 16781312] 16777216"
  have i: "alloc_inv ?T ?cs" using ua_reach_inv [OF list_rbtree_laws one_chunk_start] by simp
  have m: "mmap_fresh (\<lambda>_. None) ?cs" by (simp add: mmap_fresh_def)
  have "Allocator_alloc ?T (\<lambda>_. None) ?cs 40 (Some 16) =
     Ok (one_chunk [\<lparr>ua_range = mk_range 4096 4136\<rparr>] [mk_range 4136 16781312] 16777176, 4096)"
    by (simp add: untrusted_eval one_chunk_def)
  with untrusted_alloc_answers [OF list_rbtree_laws i m is_power_of_two_16, of 40]
  show ?thesis by simp
qed

text \<open>
  C19: Releasing a block in use by its start address does not panic, keeps the invariant, and takes
  exactly that block out of use, whether the chunk stays, moves to the front of the list or is
  dropped.
\<close>

theorem untrusted_free_releases:
  assumes "rbtree_laws ua_key T" "alloc_inv T cs" "r \<in> live T cs"
  shows "\<exists>cs'. Allocator_free T cs (r_start r) = Ok cs' \<and> alloc_inv T cs' \<and> live T cs' = live T cs - {r}"
  using allocator_free_spec [OF assms] by metis

theorem untrusted_free_releases_witness:
  "\<exists>cs'. Allocator_free (list_rbtree ua_key)
     (one_chunk [\<lparr>ua_range = mk_range 4096 4136\<rparr>] [mk_range 4136 16781312] 16777176) 4096 = Ok cs' \<and>
     live (list_rbtree ua_key) cs' = {}"
proof -
  let ?T = "list_rbtree ua_key"
  let ?cs = "one_chunk [\<lparr>ua_range = mk_range 4096 4136\<rparr>] [mk_range 4136 16781312] 16777176"
  have i: "alloc_inv ?T ?cs" "live ?T ?cs = {mk_range 4096 4136}"
    using ua_reach_inv [OF list_rbtree_laws one_chunk_reach] by simp_all
  from untrusted_free_releases [OF list_rbtree_laws i(1), of "mk_range 4096 4136"] i(2)
  show ?thesis by auto
qed

text \<open>
  C37: Looking up the region that contains an address, by the greatest block start not above it,
  finds the one block in use with that address, and reports \<open>ESRCH\<close> exactly when no block in use
  contains it.
\<close>

theorem find_used_mem_region_correct:
  assumes "rbtree_laws ua_key T" "uchunk_inv T c"
  shows "(UChunk_find_used_mem_region T c addr = Ok r \<longleftrightarrow> r \<in> set (uc_used T c) \<and> addr \<in> addrs r) \<and>
    (UChunk_find_used_mem_region T c addr = Err ESRCH \<longleftrightarrow> addr \<notin> used_set (uc_used T c))"
proof -
  have d: "disjoint_ranges (uc_used T c)" using assms(2) by (simp add: uchunk_inv_def)
  have the: "(THE r. r \<in> set (uc_used T c) \<and> addr \<in> addrs r) = r"
    if "r \<in> set (uc_used T c)" "addr \<in> addrs r" for r
    using that disjoint_ranges_pairwise [OF d] by (intro the_equality) auto
  have ex: "\<exists>r. r \<in> set (uc_used T c) \<and> addr \<in> addrs r" if "addr \<in> used_set (uc_used T c)"
    using that by (auto simp: used_set_def)
  show ?thesis
    unfolding uchunk_find_used_spec [OF assms] using the ex by (auto simp: used_set_def)
qed

theorem find_used_mem_region_correct_witness:
  "mk_range 4096 4136 \<in> set (uc_used (list_rbtree ua_key)
      (hd (one_chunk [\<lparr>ua_range = mk_range 4096 4136\<rparr>] [mk_range 4136 16781312] 16777176)))"
proof -
  let ?T = "list_rbtree ua_key"
  let ?cs = "one_chunk [\<lparr>ua_range = mk_range 4096 4136\<rparr>] [mk_range 4136 16781312] 16777176"
  have "uchunk_inv ?T (hd ?cs)"
    using ua_reach_inv [OF list_rbtree_laws one_chunk_reach] by (simp add: alloc_inv_def one_chunk_def)
  moreover have "UChunk_find_used_mem_region ?T (hd ?cs) 4100 = Ok (mk_range 4096 4136)"
    by (simp add: UChunk_find_used_mem_region_def one_chunk_def list_upper_bound_def ua_key_def
        VMRange_contains_def)
  ultimately show ?thesis
    using find_used_mem_region_correct [OF list_rbtree_laws, of "hd ?cs" 4100 "mk_range 4096 4136"]
    by simp
qed

text \<open>
  C38: A request of zero bytes is answered with a block that does not leave the free list, so the
  next request is placed at the same address: two live allocations, a zero-length slice and a
  value, share their start address, and with it the key under which \<open>free\<close> looks them up.
\<close>

theorem zero_size_alloc_aliases:
  assumes "uchunk_inv T c" "uc_free_manager c = f # fl" "r_start f mod align = 0"
    and "is_power_of_two align" "sz \<le> VMRange_size f"
  shows "\<exists>c1 c2. UChunk_alloc T c 0 align = Ok (c1, r_start f) \<and>
     UChunk_alloc T c1 sz align = Ok (c2, r_start f)"
proof -
  have p: "proper f" using assms(1,2) by (simp add: uchunk_inv_def fl_inv_Cons)
  have au: "align_up (r_start f) align = r_start f"
    using align_up_aligned [OF assms(4) align_up_in_space [OF assms(4)] assms(3)] p
    by (simp add: proper_def)
  have w: "uadd (r_start f) n = r_start f + n" "r_start f + n \<le> r_end f" if "n \<le> VMRange_size f" for n
    using p that by (auto simp: proper_def uadd_no_wrap VMRange_size_def usub_no_wrap)
  have lp: "ua_find_loop n align 0 (f # fl) = Some (mk_range (r_start f) (r_start f + n), 0)"
    if "n \<le> VMRange_size f" for n
    using that w [OF that] by (simp add: au Let_def VMRange_from_unchecked_def)
  have sub: "VMRange_subtract f (mk_range (r_start f) (r_start f)) = [f]"
    using p by (simp add: VMRange_subtract_def VMRange_intersect_def VMRange_size_def usub_no_wrap
        proper_def Let_def)
  show ?thesis
    using lp [of 0] lp [OF assms(5)] assms(2)
    by (simp add: UChunk_alloc_def ua_find_free_range_internal_def free_list_update_range_eq sub)
qed

theorem zero_size_alloc_aliases_witness:
  "\<exists>c1 c2. UChunk_alloc (list_rbtree ua_key) (hd (one_chunk [] [mk_range 4096 16781312] 16777216)) 0 16
      = Ok (c1, 4096) \<and>
     UChunk_alloc (list_rbtree ua_key) c1 8 16 = Ok (c2, 4096)"
proof -
  let ?T = "list_rbtree ua_key" and ?c = "hd (one_chunk [] [mk_range 4096 16781312] 16777216)"
  have "uchunk_inv ?T ?c"
    using ua_reach_inv [OF list_rbtree_laws one_chunk_start] by (simp add: alloc_inv_def one_chunk_def)
  moreover have "uc_free_manager ?c = [mk_range 4096 16781312]" by (simp add: one_chunk_def)
  ultimately show ?thesis
    using zero_size_alloc_aliases [of ?T ?c "mk_range 4096 16781312" "[]" 16 8]
    by (simp add: VMRange_size_def usub_def)
qed

definition chunk_at :: "usize \<Rightarrow> usize \<Rightarrow> VMRange list \<Rightarrow> VMFreeSpaceManager \<Rightarrow> usize \<Rightarrow> UVMArea list UChunk" where
  "chunk_at a n used fl f =
     \<lparr>uc_range = mk_range a (a + n), uc_free_size = f, uc_vmas = map (\<lambda>r. \<lparr>ua_range = r\<rparr>) used, uc_free_manager = fl\<rparr>"

lemma two_chunks_reach:
  defines "T \<equiv> list_rbtree ua_key"
  shows "ua_reach T
    [chunk_at 33554432 33554432 [] [mk_range 33554432 67108864] 33554432,
     chunk_at 134217728 33554432 [mk_range 134217728 167772160] [] 0,
     chunk_at 4096 16777216 [] [mk_range 4096 16781312] 16777216]
    {mk_range 134217728 167772160}"
proof -
  let ?B0 = "chunk_at 4096 16777216 [] [mk_range 4096 16781312] 16777216"
  let ?B1 = "chunk_at 4096 16777216 [mk_range 4096 4136] [mk_range 4136 16781312] 16777176"
  let ?A1 = "chunk_at 33554432 33554432 [mk_range 33554432 67108864] [] 0"
  let ?A0 = "chunk_at 33554432 33554432 [] [mk_range 33554432 67108864] 33554432"
  let ?C1 = "chunk_at 134217728 33554432 [mk_range 134217728 167772160] [] 0"
  have fresh1: "mmap_fresh (\<lambda>n. if n = 33554432 then Some 33554432 else None) [?B1]"
    and fresh2: "mmap_fresh (\<lambda>n. if n = 33554432 then Some 134217728 else None) [?B0, ?A1]"
    by (simp_all add: mmap_fresh_def chunk_at_def addrs_def atLeastLessThan_Int)
  have e1: "Allocator_alloc T (\<lambda>n. if n = 33554432 then Some 33554432 else None) [?B1] 33554432 None =
      Ok ([?A1, ?B1], 33554432)"
    by (simp add: T_def untrusted_eval chunk_at_def)
  have e2: "Allocator_free T [?A1, ?B1] (r_start (mk_range 4096 4136)) = Ok [?B0, ?A1]"
    by (simp add: T_def untrusted_eval chunk_at_def)
  have e3: "Allocator_alloc T (\<lambda>n. if n = 33554432 then Some 134217728 else None) [?B0, ?A1] 33554432 None =
      Ok ([?C1, ?B0, ?A1], 134217728)"
    by (simp add: T_def untrusted_eval chunk_at_def)
  have e4: "Allocator_free T [?C1, ?B0, ?A1] (r_start (mk_range 33554432 67108864)) = Ok [?A0, ?C1, ?B0]"
    by (simp add: T_def untrusted_eval chunk_at_def)
  have r0: "ua_reach T [?B1] {mk_range 4096 4136}"
    using one_chunk_reach by (simp add: one_chunk_def chunk_at_def T_def)
  have r1: "ua_reach T [?A1, ?B1] {mk_range 33554432 67108864, mk_range 4096 4136}"
    using ua_reach.alloc [OF r0 fresh1 _ _ e1] by simp
  have r2: "ua_reach T [?B0, ?A1] {mk_range 33554432 67108864}"
    using ua_reach.free [OF r1 _ e2] by (simp add: insert_Diff_if)
  have r3: "ua_reach T [?C1, ?B0, ?A1] {mk_range 134217728 167772160, mk_range 33554432 67108864}"
    using ua_reach.alloc [OF r2 fresh2 _ _ e3] by simp
  show ?thesis
    using ua_reach.free [OF r3 _ e4] by (simp add: insert_Diff_if)
qed

text \<open>
  C39: The list can hold more than one empty chunk: emptying a chunk looks only at the front of the
  list, so an empty chunk further back goes unnoticed.  A client reaches such a state with two
  large allocations and two releases.
\<close>

theorem two_empty_chunks_reachable:
  "\<exists>cs L. ua_reach (list_rbtree ua_key) cs L \<and>
     length (filter (UChunk_is_empty (list_rbtree ua_key)) cs) = 2"
proof -
  let ?cs = "[chunk_at 33554432 33554432 [] [mk_range 33554432 67108864] 33554432,
     chunk_at 134217728 33554432 [mk_range 134217728 167772160] [] 0,
     chunk_at 4096 16777216 [] [mk_range 4096 16781312] 16777216]"
  have "length (filter (UChunk_is_empty (list_rbtree ua_key)) ?cs) = 2"
    by (simp add: UChunk_is_empty_def chunk_at_def)
  then show ?thesis using two_chunks_reach by blast
qed

end
