(* ===== verification/FileTable.thy ===== *)
theory FileTable
  imports OcclumPrelude
begin

text \<open>
  The file descriptor table of a process (\<^verbatim>\<open>src/libos/src/fs/file_table.rs\<close>).  A file is an
  abstract reference \<open>'f\<close>; the notifier of the table is the list of the \<open>Del\<close> events it has
  broadcast so far.  The abstract view \<open>fd_map\<close> is a partial map from descriptors to entries, and
  the lemmas show that each operation acts on it as POSIX asks: the lowest free descriptor is
  handed out, other descriptors are not disturbed, and the count of open descriptors is exact.
\<close>

section \<open>The code\<close>

type_synonym FileDesc = nat

abbreviation U32_MOD :: nat where
  "U32_MOD \<equiv> 4294967296"

definition as_FileDesc :: "usize \<Rightarrow> FileDesc" where
  "as_FileDesc i = i mod U32_MOD"

record 'f FileTableEntry =
  fe_file :: 'f
  fe_close_on_spawn :: bool

datatype FileTableEvent = Del FileDesc

record 'f FileTable =
  ft_table :: "'f FileTableEntry option list"
  ft_num_fds :: usize
  ft_events :: "FileTableEvent list"

definition FileTableEntry_new :: "'f \<Rightarrow> bool \<Rightarrow> 'f FileTableEntry" where
  "FileTableEntry_new file close_on_spawn = \<lparr>fe_file = file, fe_close_on_spawn = close_on_spawn\<rparr>"

definition FileTable_new :: "'f FileTable" where
  "FileTable_new = \<lparr>ft_table = [], ft_num_fds = 0, ft_events = []\<rparr>"

definition FileTable_clone :: "'f FileTable \<Rightarrow> 'f FileTable" where
  "FileTable_clone t = t\<lparr>ft_events := []\<rparr>"

definition broadcast_del :: "'f FileTable \<Rightarrow> FileDesc \<Rightarrow> 'f FileTable" where
  "broadcast_del t fd = t\<lparr>ft_events := ft_events t @ [Del fd]\<rparr>"

text \<open>The first empty slot of an enumerated part of the table.\<close>

fun free_slot :: "nat \<Rightarrow> 'e option list \<Rightarrow> nat option" where
  "free_slot idx [] = None"
| "free_slot idx (opt # rest) = (if opt = None then Some idx else free_slot (Suc idx) rest)"

definition get_entry :: "'f FileTable \<Rightarrow> FileDesc \<Rightarrow> 'f FileTableEntry res" where
  "get_entry t fd =
     (if fd \<ge> length (ft_table t) then Err EBADF
      else case ft_table t ! fd of Some table_entry \<Rightarrow> Ok table_entry | None \<Rightarrow> Err EBADF)"

definition FileTable_get :: "'f FileTable \<Rightarrow> FileDesc \<Rightarrow> 'f res" where
  "FileTable_get t fd = res_bind (get_entry t fd) (\<lambda>entry. Ok (fe_file entry))"

text \<open>\<open>get_entry_mut\<close> with the one mutation its callers make.\<close>

definition set_close_on_spawn :: "'f FileTable \<Rightarrow> FileDesc \<Rightarrow> bool \<Rightarrow> 'f FileTable res" where
  "set_close_on_spawn t fd b =
     (if fd \<ge> length (ft_table t) then Err EBADF
      else case ft_table t ! fd of
        Some table_entry \<Rightarrow>
          Ok (t\<lparr>ft_table := (ft_table t)[fd := Some (table_entry\<lparr>fe_close_on_spawn := b\<rparr>)]\<rparr>)
      | None \<Rightarrow> Err EBADF)"

definition FileTable_put_at ::
  "'f FileTable \<Rightarrow> FileDesc \<Rightarrow> 'f \<Rightarrow> bool \<Rightarrow> 'f FileTable \<times> 'f option" where
  "FileTable_put_at t fd file close_on_spawn =
     (let table = (if fd \<ge> length (ft_table t)
            then ft_table t @ replicate (fd + 1 - length (ft_table t)) None else ft_table t);
          old = table ! fd
      in (t\<lparr>ft_table := table[fd := Some (FileTableEntry_new file close_on_spawn)],
            ft_num_fds := (if old = None then uadd (ft_num_fds t) 1 else ft_num_fds t)\<rparr>,
          map_option fe_file old))"

definition FileTable_put :: "'f FileTable \<Rightarrow> 'f \<Rightarrow> bool \<Rightarrow> ('f FileTable \<times> FileDesc) res" where
  "FileTable_put t file close_on_spawn =
     res_bind
       (if ft_num_fds t < length (ft_table t)
        then res_bind (unwrap (free_slot 0 (ft_table t))) (\<lambda>i. Ok (ft_table t, i))
        else Ok (ft_table t @ [None], length (ft_table t)))
       (\<lambda>(table, min_free_fd).
          if min_free_fd < length table then
            Ok (t\<lparr>ft_table := table[min_free_fd := Some (FileTableEntry_new file close_on_spawn)],
                  ft_num_fds := uadd (ft_num_fds t) 1\<rparr>, as_FileDesc min_free_fd)
          else Panic)"

definition FileTable_dup ::
  "'f FileTable \<Rightarrow> FileDesc \<Rightarrow> FileDesc \<Rightarrow> bool \<Rightarrow> ('f FileTable \<times> FileDesc) res" where
  "FileTable_dup t fd min_fd close_on_spawn =
     res_bind (FileTable_get t fd) (\<lambda>file_ref.
       let table = (if min_fd \<ge> length (ft_table t)
             then ft_table t @ replicate (min_fd - length (ft_table t) + 1) None else ft_table t);
           (table', index) = (case free_slot min_fd (drop min_fd table) of
               Some index \<Rightarrow> (table, index)
             | None \<Rightarrow> (table @ [None], length table));
           min_free_fd = as_FileDesc index
       in Ok (fst (FileTable_put_at (t\<lparr>ft_table := table'\<rparr>) min_free_fd file_ref close_on_spawn), min_free_fd))"

definition FileTable_fds :: "'f FileTable \<Rightarrow> FileDesc list" where
  "FileTable_fds t = map (\<lambda>(idx, opt). as_FileDesc idx)
     (filter (\<lambda>(idx, opt). opt \<noteq> None) (enumerate 0 (ft_table t)))"

definition FileTable_del :: "'f FileTable \<Rightarrow> FileDesc \<Rightarrow> ('f FileTable \<times> 'f) res" where
  "FileTable_del t fd =
     (if fd \<ge> length (ft_table t) then Err EBADF
      else case ft_table t ! fd of
        Some del_table_entry \<Rightarrow>
          Ok (broadcast_del (t\<lparr>ft_table := (ft_table t)[fd := None],
                ft_num_fds := usub (ft_num_fds t) 1\<rparr>) fd, fe_file del_table_entry)
      | None \<Rightarrow> Err EBADF)"

text \<open>
  \<open>del_all\<close> numbers the occupied slots after the empty ones have been filtered away, so the loop
  counter is the position among the occupied slots.
\<close>

definition FileTable_del_all :: "'f FileTable \<Rightarrow> 'f FileTable \<times> 'f list" where
  "FileTable_del_all t =
     (let entries = filter (\<lambda>entry. entry \<noteq> None) (ft_table t);
          deleted_files = map (\<lambda>entry. fe_file (the entry)) entries;
          deleted_fds = map (\<lambda>(fd, entry). as_FileDesc fd) (enumerate 0 entries);
          t' = t\<lparr>ft_table := map (\<lambda>entry. None) (ft_table t), ft_num_fds := 0\<rparr>
      in (foldl broadcast_del t' deleted_fds, deleted_files))"

fun close_loop ::
  "nat \<Rightarrow> 'f FileTableEntry option list \<Rightarrow> usize
     \<Rightarrow> 'f FileTableEntry option list \<times> usize \<times> FileDesc list \<times> 'f list" where
  "close_loop fd [] num = ([], num, [], [])"
| "close_loop fd (entry # rest) num =
     (case entry of
        Some e \<Rightarrow>
          (if fe_close_on_spawn e then
             (let (tb, n, dfds, files) = close_loop (Suc fd) rest (usub num 1)
              in (None # tb, n, as_FileDesc fd # dfds, fe_file e # files))
           else
             (let (tb, n, dfds, files) = close_loop (Suc fd) rest num
              in (entry # tb, n, dfds, files)))
      | None \<Rightarrow>
          (let (tb, n, dfds, files) = close_loop (Suc fd) rest num in (None # tb, n, dfds, files)))"

definition FileTable_close_on_spawn :: "'f FileTable \<Rightarrow> 'f FileTable \<times> 'f list" where
  "FileTable_close_on_spawn t =
     (let (tb, n, dfds, files) = close_loop 0 (ft_table t) (ft_num_fds t)
      in (foldl broadcast_del (t\<lparr>ft_table := tb, ft_num_fds := n\<rparr>) dfds, files))"

section \<open>The abstract view\<close>

definition fd_map :: "'f FileTable \<Rightarrow> FileDesc \<Rightarrow> 'f FileTableEntry option" where
  "fd_map t fd = (if fd < length (ft_table t) then ft_table t ! fd else None)"

definition ft_inv :: "'f FileTable \<Rightarrow> bool" where
  "ft_inv t \<longleftrightarrow>
     ft_num_fds t = length (filter (\<lambda>e. e \<noteq> None) (ft_table t)) \<and> length (ft_table t) \<le> U32_MOD"

definition lowest_free :: "'f FileTable \<Rightarrow> FileDesc \<Rightarrow> FileDesc" where
  "lowest_free t n = (LEAST fd. n \<le> fd \<and> fd_map t fd = None)"

section \<open>Lemmas\<close>

lemma free_slot_Some:
  "free_slot k xs = Some i \<Longrightarrow>
     k \<le> i \<and> i - k < length xs \<and> xs ! (i - k) = None \<and> (\<forall>j < i - k. xs ! j \<noteq> None)"
proof (induction xs arbitrary: k)
  case (Cons x xs)
  show ?case
  proof (cases x)
    case (Some y)
    then have s: "free_slot (Suc k) xs = Some i" using Cons.prems by simp
    note ih = Cons.IH [OF s]
    then have "i - k = Suc (i - Suc k)" by (simp add: Suc_diff_Suc Suc_le_lessD)
    then show ?thesis using ih Some by (auto simp: less_Suc_eq_0_disj)
  qed (use Cons.prems in simp)
qed simp

lemma free_slot_None: "free_slot k xs = None \<longleftrightarrow> (\<forall>x \<in> set xs. x \<noteq> None)"
  by (induction xs arbitrary: k) auto

lemma filter_update_length:
  "i < length xs \<Longrightarrow> length (filter P (xs[i := x])) + (if P (xs ! i) then 1 else 0) =
     length (filter P xs) + (if P x then 1 else 0)"
proof (induction xs arbitrary: i)
  case (Cons y ys)
  then show ?case by (cases i) auto
qed simp

lemma fd_map_None_above: "length (ft_table t) \<le> fd \<Longrightarrow> fd_map t fd = None"
  by (simp add: fd_map_def)

lemma lowest_free_eq:
  assumes "n \<le> fd" "fd_map t fd = None" "\<forall>j. n \<le> j \<longrightarrow> j < fd \<longrightarrow> fd_map t j \<noteq> None"
  shows "lowest_free t n = fd"
  unfolding lowest_free_def using assms by (intro Least_equality) (auto simp: not_less [symmetric])

lemma lowest_free_spec:
  "n \<le> lowest_free t n \<and> fd_map t (lowest_free t n) = None \<and>
     (\<forall>j. n \<le> j \<longrightarrow> j < lowest_free t n \<longrightarrow> fd_map t j \<noteq> None)"
proof -
  have "n \<le> max n (length (ft_table t)) \<and> fd_map t (max n (length (ft_table t))) = None"
    by (simp add: fd_map_None_above)
  from LeastI [of "\<lambda>fd. n \<le> fd \<and> fd_map t fd = None", OF this] show ?thesis
    using not_less_Least [of _ "\<lambda>fd. n \<le> fd \<and> fd_map t fd = None"]
    by (auto simp: lowest_free_def)
qed

lemma get_entry_eq: "get_entry t fd = ok_or (fd_map t fd) EBADF"
  by (cases "ft_table t ! fd") (auto simp: get_entry_def fd_map_def)

lemma as_FileDesc_id: "i < U32_MOD \<Longrightarrow> as_FileDesc i = i"
  by (simp add: as_FileDesc_def)

text \<open>Padding the table with empty slots changes neither the view nor the count.\<close>

lemma fd_map_pad: "fd_map (t\<lparr>ft_table := ft_table t @ replicate n None\<rparr>) = fd_map t"
  by (auto simp: fd_map_def nth_append)

lemma ft_inv_pad:
  "ft_inv t \<Longrightarrow> length (ft_table t) + n \<le> U32_MOD \<Longrightarrow>
     ft_inv (t\<lparr>ft_table := ft_table t @ replicate n None\<rparr>)"
  by (simp add: ft_inv_def)

lemma ft_num_fds_le: "ft_inv t \<Longrightarrow> ft_num_fds t \<le> length (ft_table t)"
  by (simp add: ft_inv_def)

text \<open>Storing an entry in a slot of the table.\<close>

lemma store_spec:
  fixes t :: "'f FileTable" and e :: "'f FileTableEntry"
  assumes inv: "ft_inv t" and i: "i < length (ft_table t)"
  defines "t' \<equiv> t\<lparr>ft_table := (ft_table t)[i := Some e],
      ft_num_fds := (if ft_table t ! i = None then uadd (ft_num_fds t) 1 else ft_num_fds t)\<rparr>"
  shows "ft_inv t'" "fd_map t' = (fd_map t)(i \<mapsto> e)"
proof -
  have w: "uadd (ft_num_fds t) 1 = ft_num_fds t + 1"
  proof (rule uadd_no_wrap)
    have "length (ft_table t) \<le> U32_MOD" using inv by (simp add: ft_inv_def)
    then show "ft_num_fds t + 1 < USIZE_MOD" using ft_num_fds_le [OF inv] by linarith
  qed
  show "ft_inv t'"
    using inv filter_update_length [OF i, of "\<lambda>e. e \<noteq> None" "Some e"] w
    by (auto simp: ft_inv_def t'_def)
  show "fd_map t' = (fd_map t)(i \<mapsto> e)"
    using i by (auto simp: fd_map_def t'_def nth_list_update)
qed

lemma put_at_spec:
  assumes inv: "ft_inv t" and fd: "fd < U32_MOD"
  obtains t' where "FileTable_put_at t fd file c = (t', map_option fe_file (fd_map t fd))"
    "ft_inv t'" "fd_map t' = (fd_map t)(fd \<mapsto> FileTableEntry_new file c)" "ft_events t' = ft_events t"
proof -
  let ?n = "fd + 1 - length (ft_table t)"
  let ?p = "t\<lparr>ft_table := ft_table t @ replicate ?n None\<rparr>"
  have pinv: "ft_inv ?p" using inv fd by (intro ft_inv_pad) (auto simp: ft_inv_def)
  have pmap: "fd_map ?p = fd_map t" by (rule fd_map_pad)
  have len: "fd < length (ft_table ?p)" by simp
  have tab: "(if fd \<ge> length (ft_table t) then ft_table t @ replicate ?n None else ft_table t) = ft_table ?p"
    by simp
  have "fd_map ?p fd = ft_table ?p ! fd" using len by (simp only: fd_map_def if_True)
  then have old: "ft_table ?p ! fd = fd_map t fd" by (simp only: pmap)
  note s = store_spec [OF pinv len, of "FileTableEntry_new file c"]
  have eq: "FileTable_put_at t fd file c =
     (?p\<lparr>ft_table := (ft_table ?p)[fd := Some (FileTableEntry_new file c)],
         ft_num_fds := (if ft_table ?p ! fd = None then uadd (ft_num_fds ?p) 1 else ft_num_fds ?p)\<rparr>,
      map_option fe_file (fd_map t fd))"
    unfolding FileTable_put_at_def Let_def tab by (simp add: old [symmetric])
  show ?thesis
    by (rule that [OF eq s(1)]) (simp_all only: s(2) pmap, simp)
qed

lemma put_spec:
  assumes inv: "ft_inv t" and room: "length (ft_table t) < U32_MOD"
  obtains t' where "FileTable_put t file c = Ok (t', lowest_free t 0)" "ft_inv t'"
    "fd_map t' = (fd_map t)(lowest_free t 0 \<mapsto> FileTableEntry_new file c)" "ft_events t' = ft_events t"
proof (cases "ft_num_fds t < length (ft_table t)")
  case True
  have "free_slot 0 (ft_table t) \<noteq> None"
  proof
    assume "free_slot 0 (ft_table t) = None"
    then have "filter (\<lambda>e. e \<noteq> None) (ft_table t) = ft_table t" by (simp add: free_slot_None)
    then show False using True inv by (simp add: ft_inv_def)
  qed
  then obtain i where i: "free_slot 0 (ft_table t) = Some i" by auto
  from free_slot_Some [OF i] have s: "i < length (ft_table t)" "ft_table t ! i = None"
    "\<forall>j < i. ft_table t ! j \<noteq> None" by auto
  then have lf: "lowest_free t 0 = i" by (intro lowest_free_eq) (auto simp: fd_map_def)
  note st = store_spec [OF inv s(1), of "FileTableEntry_new file c"]
  let ?t = "t\<lparr>ft_table := (ft_table t)[i := Some (FileTableEntry_new file c)],
      ft_num_fds := uadd (ft_num_fds t) 1\<rparr>"
  have "FileTable_put t file c = Ok (?t, lowest_free t 0)"
    using s room by (simp add: FileTable_put_def True i lf as_FileDesc_id)
  then show ?thesis using st s(2) by (intro that [of ?t]) (simp_all add: lf)
next
  case False
  let ?p = "t\<lparr>ft_table := ft_table t @ replicate 1 None\<rparr>" and ?n = "length (ft_table t)"
  have "x \<noteq> None" if "x \<in> set (ft_table t)" for x
    using length_filter_less [OF that, of "\<lambda>e. e \<noteq> None"] False inv by (auto simp: ft_inv_def)
  then have "\<forall>j < ?n. ft_table t ! j \<noteq> None" by (simp add: all_set_conv_all_nth [symmetric])
  then have lf: "lowest_free t 0 = ?n" by (intro lowest_free_eq) (auto simp: fd_map_def)
  have pinv: "ft_inv ?p" using inv room by (intro ft_inv_pad) auto
  note st = store_spec [OF pinv, of ?n "FileTableEntry_new file c"]
  let ?t = "t\<lparr>ft_table := ft_table t @ [Some (FileTableEntry_new file c)],
      ft_num_fds := uadd (ft_num_fds t) 1\<rparr>"
  have "FileTable_put t file c = Ok (?t, lowest_free t 0)"
    using room by (simp add: FileTable_put_def False lf as_FileDesc_id)
  then show ?thesis using st fd_map_pad [of t 1] by (intro that [of ?t]) (simp_all add: lf)
qed

lemma fd_map_padded:
  "fd_map t j = (if j < length (ft_table t @ replicate n None) then (ft_table t @ replicate n None) ! j else None)"
  by (auto simp: fd_map_def nth_append)

text \<open>The slot \<open>dup\<close> chooses in the padded table, and the table it stores into.\<close>

lemma dup_slot:
  assumes tb: "tb = ft_table t @ replicate n None" and m: "min_fd < length tb" "length tb \<le> U32_MOD"
    and room: "length (ft_table t) < U32_MOD"
    and n: "n \<noteq> 0 \<Longrightarrow> length tb = min_fd + 1 \<and> length (ft_table t) \<le> min_fd"
  shows "\<exists>k. (case free_slot min_fd (drop min_fd tb) of
      Some index \<Rightarrow> (tb, index) | None \<Rightarrow> (tb @ [None], length tb)) =
    (ft_table t @ replicate k None, lowest_free t min_fd) \<and>
    lowest_free t min_fd < U32_MOD \<and> length (ft_table t) + k \<le> U32_MOD"
proof (cases "free_slot min_fd (drop min_fd tb)")
  case (Some i)
  have d: "drop min_fd tb ! j = tb ! (min_fd + j)" if "j < length tb - min_fd" for j
    using m(1) by simp
  from free_slot_Some [OF Some] have s: "min_fd \<le> i" "i < length tb" "tb ! i = None"
    and lt: "\<forall>j < i - min_fd. tb ! (min_fd + j) \<noteq> None"
    using m(1) by auto
  have "fd_map t j \<noteq> None" if "min_fd \<le> j" "j < i" for j
    using lt [rule_format, of "j - min_fd"] that s(2) by (simp add: fd_map_padded [of t j n] flip: tb)
  moreover have "fd_map t i = None" using s by (simp add: fd_map_padded [of t i n] flip: tb)
  ultimately have lf: "lowest_free t min_fd = i" using s(1) by (intro lowest_free_eq) auto
  have "length (ft_table t) + n \<le> U32_MOD" using m(2) tb by simp
  then show ?thesis using Some s(2) m(2) lf tb by (intro exI [of _ n]) simp
next
  case None
  have nn: "tb ! j \<noteq> None" if "min_fd \<le> j" "j < length tb" for j
  proof -
    have "drop min_fd tb ! (j - min_fd) \<in> set (drop min_fd tb)"
      using that by (intro nth_mem) simp
    then show ?thesis using None that m(1) by (auto simp: free_slot_None)
  qed
  have n0: "n = 0"
  proof (rule ccontr)
    assume "n \<noteq> 0"
    then show False using n nn [of min_fd] m(1) tb by (auto simp: nth_append)
  qed
  then have "lowest_free t min_fd = length tb"
    using nn m(1) tb by (intro lowest_free_eq) (auto simp: fd_map_def)
  then show ?thesis using None n0 tb room by (intro exI [of _ 1]) simp
qed

lemma dup_spec:
  assumes inv: "ft_inv t" and room: "length (ft_table t) < U32_MOD" "min_fd < U32_MOD"
    and e: "fd_map t fd = Some e"
  obtains t' where "FileTable_dup t fd min_fd c = Ok (t', lowest_free t min_fd)" "ft_inv t'"
    "fd_map t' = (fd_map t)(lowest_free t min_fd \<mapsto> FileTableEntry_new (fe_file e) c)"
    "ft_events t' = ft_events t"
proof -
  define n where "n = (if min_fd \<ge> length (ft_table t) then min_fd - length (ft_table t) + 1 else 0)"
  define tb where "tb = ft_table t @ replicate n None"
  have "\<exists>k. (case free_slot min_fd (drop min_fd tb) of
      Some index \<Rightarrow> (tb, index) | None \<Rightarrow> (tb @ [None], length tb)) =
    (ft_table t @ replicate k None, lowest_free t min_fd) \<and>
    lowest_free t min_fd < U32_MOD \<and> length (ft_table t) + k \<le> U32_MOD"
    using room by (intro dup_slot [OF tb_def]) (auto simp: tb_def n_def split: if_splits)
  then obtain k where k: "(case free_slot min_fd (drop min_fd tb) of
      Some index \<Rightarrow> (tb, index) | None \<Rightarrow> (tb @ [None], length tb)) =
    (ft_table t @ replicate k None, lowest_free t min_fd)"
    "lowest_free t min_fd < U32_MOD" "length (ft_table t) + k \<le> U32_MOD" by blast
  let ?q = "t\<lparr>ft_table := ft_table t @ replicate k None\<rparr>" and ?i = "lowest_free t min_fd"
  have qinv: "ft_inv ?q" using inv k(3) by (rule ft_inv_pad)
  obtain t' where pa: "FileTable_put_at ?q ?i (fe_file e) c = (t', map_option fe_file (fd_map ?q ?i))"
    "ft_inv t'" "fd_map t' = (fd_map ?q)(?i \<mapsto> FileTableEntry_new (fe_file e) c)"
    "ft_events t' = ft_events ?q"
    by (rule put_at_spec [OF qinv k(2)])
  have tab: "(if min_fd \<ge> length (ft_table t)
      then ft_table t @ replicate (min_fd - length (ft_table t) + 1) None else ft_table t) = tb"
    by (simp add: tb_def n_def)
  have "FileTable_dup t fd min_fd c = Ok (t', ?i)"
    unfolding FileTable_dup_def FileTable_get_def get_entry_eq e Let_def tab k(1)
    by (simp add: k(2) as_FileDesc_id pa(1))
  then show ?thesis using that pa by (simp add: fd_map_pad)
qed

lemma foldl_broadcast: "foldl broadcast_del t ds = t\<lparr>ft_events := ft_events t @ map Del ds\<rparr>"
  by (induction ds arbitrary: t) (simp_all add: broadcast_del_def)

lemma del_spec:
  assumes inv: "ft_inv t" and e: "fd_map t fd = Some e"
  obtains t' where "FileTable_del t fd = Ok (t', fe_file e)" "ft_inv t'"
    "fd_map t' = (fd_map t)(fd := None)" "ft_events t' = ft_events t @ [Del fd]"
proof -
  have fd: "fd < length (ft_table t)" "ft_table t ! fd = Some e"
    using e by (auto simp: fd_map_def split: if_splits)
  let ?t = "broadcast_del (t\<lparr>ft_table := (ft_table t)[fd := None], ft_num_fds := usub (ft_num_fds t) 1\<rparr>) fd"
  have "ft_inv ?t"
    using inv filter_update_length [OF fd(1), of "\<lambda>e. e \<noteq> None" None] fd(2)
    by (auto simp: ft_inv_def broadcast_del_def usub_def)
  moreover have "fd_map ?t = (fd_map t)(fd := None)"
    by (auto simp: fd_map_def broadcast_del_def nth_list_update)
  ultimately show ?thesis
    using that [of ?t] fd by (simp add: FileTable_del_def broadcast_del_def)
qed

fun closes :: "'f FileTableEntry option \<Rightarrow> bool" where
  "closes None = False"
| "closes (Some e) = fe_close_on_spawn e"

lemma closes_Some: "closes e \<Longrightarrow> e \<noteq> None"
  by (cases e) auto

lemma close_loop_eq:
  assumes "close_loop k tb n = (tb', n', dfds, files)" "length (filter (\<lambda>e. e \<noteq> None) tb) \<le> n"
  shows "tb' = map (\<lambda>e. if closes e then None else e) tb \<and>
    n' = n - length (filter closes tb) \<and>
    dfds = map (\<lambda>(i, e). as_FileDesc i) (filter (\<lambda>(i, e). closes e) (enumerate k tb)) \<and>
    files = map (\<lambda>e. fe_file (the e)) (filter closes tb)"
  using assms
proof (induction tb arbitrary: k n tb' n' dfds files)
  case (Cons x tb)
  obtain tb2 n2 dfds2 files2 where r: "close_loop (Suc k) tb (if closes x then usub n 1 else n) =
      (tb2, n2, dfds2, files2)" by (metis prod_cases4)
  have le: "length (filter (\<lambda>e. e \<noteq> None) tb) \<le> (if closes x then usub n 1 else n)"
    using Cons.prems(2) by (cases x) (auto simp: usub_def)
  have u: "closes x \<Longrightarrow> usub n 1 = n - 1"
    using Cons.prems(2) by (cases x) (auto simp: usub_def)
  note ih = Cons.IH [OF r le]
  show ?case
  proof (cases x)
    case None
    then show ?thesis using Cons.prems(1) ih r by simp
  next
    case (Some e)
    then show ?thesis using Cons.prems(1) ih r u by (cases "fe_close_on_spawn e") simp_all
  qed
qed simp

lemma filter_enumerate_fst:
  "map fst (filter (\<lambda>(i, e). P e) (enumerate k xs)) = filter (\<lambda>i. P (xs ! (i - k))) [k..<k + length xs]"
proof (induction xs arbitrary: k)
  case (Cons x xs)
  have u: "[k..<k + length (x # xs)] = k # [Suc k..<Suc k + length xs]" by (simp add: upt_conv_Cons del: upt_Suc)
  have "filter (\<lambda>i. P ((x # xs) ! (i - k))) [Suc k..<Suc k + length xs] =
      filter (\<lambda>i. P (xs ! (i - Suc k))) [Suc k..<Suc k + length xs]"
    by (intro filter_cong) (auto simp: nth_Cons')
  then show ?case unfolding u using Cons.IH [of "Suc k"] by (simp del: upt_Suc)
qed simp

lemma filter_nth: "filter P xs = map (\<lambda>i. xs ! i) (filter (\<lambda>i. P (xs ! i)) [0..<length xs])"
proof -
  have "filter P (map ((!) xs) [0..<length xs]) = map ((!) xs) (filter (P \<circ> (!) xs) [0..<length xs])"
    by (rule filter_map)
  then show ?thesis by (simp add: map_nth comp_def)
qed

lemma fds_enumerated:
  assumes "length (ft_table t) \<le> U32_MOD"
  shows "map (\<lambda>(i, e). as_FileDesc i) (filter (\<lambda>(i, e). P e) (enumerate 0 (ft_table t))) =
     filter (\<lambda>i. P (ft_table t ! i)) [0..<length (ft_table t)]"
proof -
  have "map (\<lambda>(i, e). as_FileDesc i) (filter (\<lambda>(i, e). P e) (enumerate 0 (ft_table t))) =
     map fst (filter (\<lambda>(i, e). P e) (enumerate 0 (ft_table t)))"
    using assms by (intro map_cong refl) (auto simp: in_set_enumerate_eq as_FileDesc_id)
  then show ?thesis by (simp add: filter_enumerate_fst)
qed

lemma fds_eq:
  "ft_inv t \<Longrightarrow> FileTable_fds t = filter (\<lambda>fd. fd_map t fd \<noteq> None) [0..<length (ft_table t)]"
  by (auto simp: FileTable_fds_def ft_inv_def fds_enumerated fd_map_def intro!: filter_cong)

lemma filter_length_le: "(\<And>x. P x \<Longrightarrow> Q x) \<Longrightarrow> length (filter P xs) \<le> length (filter Q xs)"
  by (induction xs) (auto simp: le_SucI)

lemma length_filter_split:
  "length (filter (\<lambda>e. e \<noteq> None) tb) = length (filter closes tb) +
     length (filter (\<lambda>e. e \<noteq> None) (map (\<lambda>e. if closes e then None else e) tb))"
  by (induction tb) (auto dest: closes_Some)

lemma close_on_spawn_spec:
  assumes inv: "ft_inv t"
  obtains t' where "FileTable_close_on_spawn t =
      (t', map (\<lambda>fd. fe_file (the (fd_map t fd))) (filter (\<lambda>fd. closes (fd_map t fd)) (FileTable_fds t)))"
    "ft_inv t'" "fd_map t' = (\<lambda>fd. if closes (fd_map t fd) then None else fd_map t fd)"
    "ft_events t' = ft_events t @ map Del (filter (\<lambda>fd. closes (fd_map t fd)) (FileTable_fds t))"
proof -
  obtain tb n dfds files where l: "close_loop 0 (ft_table t) (ft_num_fds t) = (tb, n, dfds, files)"
    by (metis prod_cases4)
  note c = close_loop_eq [OF l]
  have inv': "ft_num_fds t = length (filter (\<lambda>e. e \<noteq> None) (ft_table t))" "length (ft_table t) \<le> U32_MOD"
    using inv by (auto simp: ft_inv_def)
  have cs: "filter (\<lambda>fd. closes (fd_map t fd)) (FileTable_fds t) =
      filter (\<lambda>i. closes (ft_table t ! i)) [0..<length (ft_table t)]"
    unfolding fds_eq [OF inv] filter_filter
    by (intro filter_cong) (auto simp: fd_map_def dest: closes_Some)
  have d: "dfds = filter (\<lambda>i. closes (ft_table t ! i)) [0..<length (ft_table t)]"
    using c inv' by (simp add: fds_enumerated)
  have "files = map (\<lambda>e. fe_file (the e)) (filter closes (ft_table t))" using c inv' by simp
  also have "\<dots> = map (\<lambda>fd. fe_file (the (fd_map t fd))) dfds"
    unfolding filter_nth [of closes] d map_map by (intro map_cong) (auto simp: fd_map_def)
  finally have f: "files = map (\<lambda>fd. fe_file (the (fd_map t fd))) dfds" .
  let ?t = "foldl broadcast_del (t\<lparr>ft_table := tb, ft_num_fds := n\<rparr>) dfds"
  have "ft_inv ?t"
    using c inv' length_filter_split [of "ft_table t"] by (simp add: ft_inv_def foldl_broadcast)
  moreover have "fd_map ?t = (\<lambda>fd. if closes (fd_map t fd) then None else fd_map t fd)"
    using c inv' by (auto simp: fd_map_def foldl_broadcast)
  moreover have "FileTable_close_on_spawn t = (?t, files)"
    by (simp add: FileTable_close_on_spawn_def l)
  ultimately show ?thesis
    using that [of ?t] f d by (simp add: cs foldl_broadcast)
qed

lemma del_all_spec:
  assumes inv: "ft_inv t"
  obtains t' where "FileTable_del_all t = (t', map (\<lambda>fd. fe_file (the (fd_map t fd))) (FileTable_fds t))"
    "ft_inv t'" "fd_map t' = Map.empty" "ft_events t' = ft_events t @ map Del [0..<ft_num_fds t]"
proof -
  have inv': "ft_num_fds t = length (filter (\<lambda>e. e \<noteq> None) (ft_table t))" "length (ft_table t) \<le> U32_MOD"
    using inv by (auto simp: ft_inv_def)
  let ?es = "filter (\<lambda>entry. entry \<noteq> None) (ft_table t)"
  let ?f = "filter (\<lambda>i. ft_table t ! i \<noteq> None) [0..<length (ft_table t)]"
  have "length ?es \<le> U32_MOD" using inv' le_trans length_filter_le by blast
  then have ds: "map (\<lambda>(fd, entry). as_FileDesc fd) (enumerate 0 ?es) = [0..<ft_num_fds t]"
    using inv'(1) by (intro nth_equalityI) (auto simp: nth_enumerate_eq as_FileDesc_id)
  have fd: "FileTable_fds t = ?f"
    unfolding fds_eq [OF inv] by (intro filter_cong) (auto simp: fd_map_def)
  have fs: "map (\<lambda>entry. fe_file (the entry)) ?es =
      map (\<lambda>fd. fe_file (the (fd_map t fd))) (FileTable_fds t)"
    unfolding filter_nth [of "\<lambda>entry. entry \<noteq> None"] fd map_map
    by (intro map_cong) (auto simp: fd_map_def)
  let ?t = "t\<lparr>ft_table := map (\<lambda>entry. None) (ft_table t), ft_num_fds := 0,
      ft_events := ft_events t @ map Del [0..<ft_num_fds t]\<rparr>"
  have "FileTable_del_all t = (?t, map (\<lambda>fd. fe_file (the (fd_map t fd))) (FileTable_fds t))"
    unfolding FileTable_del_all_def Let_def fs ds foldl_broadcast by simp
  then show ?thesis
    by (rule that) (auto simp: ft_inv_def inv'(2) fd_map_def filter_empty_conv)
qed

section \<open>Properties\<close>

text \<open>
  C20: Opening a file hands out the lowest descriptor that is free, in a table with room for it: the
  slot was empty, all lower ones were open, only that descriptor changes, the count of open
  descriptors stays exact, and the call does not panic.
\<close>

theorem file_table_put_lowest:
  assumes "ft_inv t" "length (ft_table t) < U32_MOD"
  shows "\<exists>t' fd. FileTable_put t file c = Ok (t', fd) \<and> ft_inv t' \<and>
    fd_map t fd = None \<and> (\<forall>j < fd. fd_map t j \<noteq> None) \<and>
    fd_map t' = (fd_map t)(fd \<mapsto> FileTableEntry_new file c)"
proof -
  obtain t' where t': "FileTable_put t file c = Ok (t', lowest_free t 0)" "ft_inv t'"
    "fd_map t' = (fd_map t)(lowest_free t 0 \<mapsto> FileTableEntry_new file c)"
    using put_spec [OF assms] by metis
  show ?thesis using t' lowest_free_spec [of 0 t] by (intro exI [of _ t'] exI [of _ "lowest_free t 0"]) simp
qed

lemmas file_table_eval = FileTable_put_def FileTable_dup_def FileTable_put_at_def FileTable_del_def
  FileTable_del_all_def FileTable_close_on_spawn_def FileTable_get_def get_entry_def broadcast_del_def
  FileTableEntry_new_def as_FileDesc_def uadd_def usub_def Let_def

definition example_table :: "nat FileTable" where
  "example_table = \<lparr>ft_table = [Some (FileTableEntry_new 7 False), None, Some (FileTableEntry_new 9 True)],
     ft_num_fds = 2, ft_events = []\<rparr>"

lemma example_table_inv: "ft_inv example_table" "length (ft_table example_table) < U32_MOD"
  by (simp_all add: ft_inv_def example_table_def)

lemma example_table_map: "fd_map example_table 2 = Some (FileTableEntry_new 9 True)"
  and example_table_events: "ft_events example_table = []"
  by (simp_all add: fd_map_def example_table_def)

theorem file_table_put_lowest_witness:
  "FileTable_put example_table 5 False =
     Ok (example_table\<lparr>ft_table := [Some (FileTableEntry_new 7 False), Some (FileTableEntry_new 5 False),
           Some (FileTableEntry_new 9 True)], ft_num_fds := 3\<rparr>, 1) \<and>
   ft_inv (example_table\<lparr>ft_table := [Some (FileTableEntry_new 7 False), Some (FileTableEntry_new 5 False),
           Some (FileTableEntry_new 9 True)], ft_num_fds := 3\<rparr>)"
proof -
  have c: "FileTable_put example_table 5 False =
     Ok (example_table\<lparr>ft_table := [Some (FileTableEntry_new 7 False), Some (FileTableEntry_new 5 False),
           Some (FileTableEntry_new 9 True)], ft_num_fds := 3\<rparr>, 1)"
    by (simp add: file_table_eval example_table_def)
  from file_table_put_lowest [OF example_table_inv, of 5 False] c show ?thesis by auto
qed

text \<open>
  C22: \<open>dup\<close> with a lower bound: a closed source descriptor is \<open>EBADF\<close>; otherwise the lowest free
  descriptor not below the bound refers to the same file afterwards, and nothing else changes.
\<close>

theorem file_table_dup_lowest:
  assumes "ft_inv t" "length (ft_table t) < U32_MOD" "min_fd < U32_MOD"
  shows "case fd_map t fd of
      None \<Rightarrow> FileTable_dup t fd min_fd c = Err EBADF
    | Some e \<Rightarrow> \<exists>t' n. FileTable_dup t fd min_fd c = Ok (t', n) \<and> ft_inv t' \<and>
        min_fd \<le> n \<and> fd_map t n = None \<and> (\<forall>j. min_fd \<le> j \<longrightarrow> j < n \<longrightarrow> fd_map t j \<noteq> None) \<and>
        fd_map t' = (fd_map t)(n \<mapsto> FileTableEntry_new (fe_file e) c)"
proof (cases "fd_map t fd")
  case None
  then show ?thesis by (simp add: FileTable_dup_def FileTable_get_def get_entry_eq)
next
  case (Some e)
  obtain t' where t': "FileTable_dup t fd min_fd c = Ok (t', lowest_free t min_fd)" "ft_inv t'"
    "fd_map t' = (fd_map t)(lowest_free t min_fd \<mapsto> FileTableEntry_new (fe_file e) c)"
    using dup_spec [OF assms Some] by metis
  have "\<exists>t' n. FileTable_dup t fd min_fd c = Ok (t', n) \<and> ft_inv t' \<and>
        min_fd \<le> n \<and> fd_map t n = None \<and> (\<forall>j. min_fd \<le> j \<longrightarrow> j < n \<longrightarrow> fd_map t j \<noteq> None) \<and>
        fd_map t' = (fd_map t)(n \<mapsto> FileTableEntry_new (fe_file e) c)"
    using t' lowest_free_spec [of min_fd t]
    by (intro exI [of _ t'] exI [of _ "lowest_free t min_fd"]) simp
  then show ?thesis using Some by simp
qed

theorem file_table_dup_lowest_witness:
  "\<exists>t'. FileTable_dup example_table 2 2 False = Ok (t', 3) \<and>
     fd_map t' = (fd_map example_table)(3 \<mapsto> FileTableEntry_new 9 False)"
proof -
  have e: "\<exists>t'. FileTable_dup example_table 2 2 False = Ok (t', 3)"
    by (simp add: file_table_eval example_table_def)
  have "(2 :: nat) < U32_MOD" by simp
  from file_table_dup_lowest [OF example_table_inv this, of 2 False] e
  show ?thesis by (auto simp: example_table_map FileTableEntry_new_def)
qed

text \<open>
  Closing: a descriptor that is not open is \<open>EBADF\<close> and the table is untouched; an open one is
  removed, the file it referred to is returned, its removal is announced to the observers, no
  other descriptor is affected and the count stays exact.
\<close>

theorem file_table_del_correct:
  assumes "ft_inv t"
  shows "case fd_map t fd of
      None \<Rightarrow> FileTable_del t fd = Err EBADF
    | Some e \<Rightarrow> \<exists>t'. FileTable_del t fd = Ok (t', fe_file e) \<and> ft_inv t' \<and>
        fd_map t' = (fd_map t)(fd := None) \<and> ft_events t' = ft_events t @ [Del fd]"
proof (cases "fd_map t fd")
  case None
  then show ?thesis
    by (cases "fd < length (ft_table t)") (auto simp: FileTable_del_def fd_map_def)
next
  case (Some e)
  obtain t' where "FileTable_del t fd = Ok (t', fe_file e)" "ft_inv t'"
    "fd_map t' = (fd_map t)(fd := None)" "ft_events t' = ft_events t @ [Del fd]"
    by (rule del_spec [OF assms Some])
  then show ?thesis using Some by simp
qed

theorem file_table_del_correct_witness:
  "\<exists>t'. FileTable_del example_table 2 = Ok (t', 9) \<and> ft_inv t' \<and> ft_events t' = [Del 2]"
  using file_table_del_correct [OF example_table_inv(1), of 2]
  by (auto simp: example_table_map example_table_events FileTableEntry_new_def)

text \<open>
  C24: Spawning closes exactly the descriptors marked close-on-spawn: they become free, every other
  one keeps its entry, the files returned are those of the closed descriptors in order, and the
  removal of exactly these descriptors is announced.
\<close>

theorem close_on_spawn_exact:
  assumes "ft_inv t" "FileTable_close_on_spawn t = (t', files)"
  shows "ft_inv t' \<and> fd_map t' = (\<lambda>fd. if closes (fd_map t fd) then None else fd_map t fd) \<and>
    files = map (\<lambda>fd. fe_file (the (fd_map t fd))) (filter (\<lambda>fd. closes (fd_map t fd)) (FileTable_fds t)) \<and>
    ft_events t' = ft_events t @ map Del (filter (\<lambda>fd. closes (fd_map t fd)) (FileTable_fds t))"
proof -
  obtain t2 where "FileTable_close_on_spawn t =
      (t2, map (\<lambda>fd. fe_file (the (fd_map t fd))) (filter (\<lambda>fd. closes (fd_map t fd)) (FileTable_fds t)))"
    "ft_inv t2" "fd_map t2 = (\<lambda>fd. if closes (fd_map t fd) then None else fd_map t fd)"
    "ft_events t2 = ft_events t @ map Del (filter (\<lambda>fd. closes (fd_map t fd)) (FileTable_fds t))"
    by (rule close_on_spawn_spec [OF assms(1)])
  then show ?thesis using assms(2) by simp
qed

theorem close_on_spawn_exact_witness:
  "ft_events (fst (FileTable_close_on_spawn example_table)) = [Del 2] \<and>
   fd_map (fst (FileTable_close_on_spawn example_table)) 2 = None"
proof -
  obtain t' files where c: "FileTable_close_on_spawn example_table = (t', files)" by fastforce
  have f: "FileTable_fds example_table = [0, 2]"
    by (simp add: FileTable_fds_def example_table_def as_FileDesc_def)
  from close_on_spawn_exact [OF example_table_inv(1) c] c f show ?thesis
    by (simp add: fd_map_def example_table_def FileTableEntry_new_def)
qed

text \<open>
  C40: Closing everything empties the table and returns all files, but the descriptors it announces
  are \<open>0, 1, \<dots>, n - 1\<close> for \<open>n\<close> open descriptors, whatever descriptors were open: observers of a
  descriptor are notified correctly only when the open descriptors are the first \<open>n\<close>.
\<close>

theorem del_all_announces_positions:
  assumes "ft_inv t" "FileTable_del_all t = (t', files)"
  shows "ft_inv t' \<and> fd_map t' = Map.empty \<and>
    files = map (\<lambda>fd. fe_file (the (fd_map t fd))) (FileTable_fds t) \<and>
    ft_events t' = ft_events t @ map Del [0..<ft_num_fds t] \<and>
    (ft_events t' = ft_events t @ map Del (FileTable_fds t) \<longleftrightarrow> FileTable_fds t = [0..<ft_num_fds t])"
proof -
  obtain t2 where "FileTable_del_all t = (t2, map (\<lambda>fd. fe_file (the (fd_map t fd))) (FileTable_fds t))"
    "ft_inv t2" "fd_map t2 = Map.empty" "ft_events t2 = ft_events t @ map Del [0..<ft_num_fds t]"
    by (rule del_all_spec [OF assms(1)])
  moreover have "map Del xs = map Del ys \<longleftrightarrow> xs = ys" for xs ys
    by (simp add: inj_map_eq_map inj_def)
  ultimately show ?thesis using assms(2) by auto
qed

theorem del_all_announces_positions_witness:
  "FileTable_fds example_table = [0, 2] \<and>
   ft_events (fst (FileTable_del_all example_table)) = [Del 0, Del 1]"
proof -
  obtain t' files where c: "FileTable_del_all example_table = (t', files)" by fastforce
  have f: "FileTable_fds example_table = [0, 2]"
    by (simp add: FileTable_fds_def example_table_def as_FileDesc_def)
  from del_all_announces_positions [OF example_table_inv(1) c] c f show ?thesis
    by (simp add: example_table_def numeral_2_eq_2)
qed

end
