(* ===== verification/RangeLock.thy ===== *)
theory RangeLock
  imports OcclumPrelude
begin

text \<open>
  POSIX advisory record locks (\<^verbatim>\<open>src/libos/src/fs/locks/range_lock\<close>): file ranges, locks
  with their queues of waiting threads, and the list of locks of a file.  A waiter is an
  identifier; operations on the list also return the waiters they wake.  The abstract view
  \<open>held\<close> says which lock, if any, a process holds on a byte; the lemmas show that setting and
  releasing a lock act on it byte by byte, that conflicting locks never coexist, and that a
  thread sleeps only in the queue of a lock that conflicts with its request.
\<close>

section \<open>Ranges of a file (range.rs)\<close>

abbreviation OFFSET_MAX :: nat where
  "OFFSET_MAX \<equiv> 9223372036854775807"

record FileRange =
  fr_start :: usize
  fr_end :: usize

datatype FileRangeChange = Same | Expanded | Shrinked

datatype OverlapWith = ToLeft | ToRight | InMiddle | Includes

datatype RangeLockWhence = SEEK_SET | SEEK_CUR | SEEK_END

definition RangeLockWhence_from_u16 :: "nat \<Rightarrow> RangeLockWhence res" where
  "RangeLockWhence_from_u16 whence =
     (if whence = 0 then Ok SEEK_SET else if whence = 1 then Ok SEEK_CUR
      else if whence = 2 then Ok SEEK_END else Err EINVAL)"

definition FileRange_new :: "usize \<Rightarrow> usize \<Rightarrow> FileRange res" where
  "FileRange_new s e = (if s \<ge> e then Err EINVAL else Ok \<lparr>fr_start = s, fr_end = e\<rparr>)"

definition FileRange_len :: "FileRange \<Rightarrow> usize" where
  "FileRange_len r = usub (fr_end r) (fr_start r)"

definition FileRange_set_start :: "FileRange \<Rightarrow> usize \<Rightarrow> (FileRange \<times> FileRangeChange) res" where
  "FileRange_set_start r new_start =
     (if new_start \<ge> fr_end r then Err EINVAL
      else Ok (r\<lparr>fr_start := new_start\<rparr>,
        if new_start > fr_start r then Shrinked else if new_start < fr_start r then Expanded else Same))"

definition FileRange_set_end :: "FileRange \<Rightarrow> usize \<Rightarrow> (FileRange \<times> FileRangeChange) res" where
  "FileRange_set_end r new_end =
     (if new_end \<le> fr_start r then Err EINVAL
      else Ok (r\<lparr>fr_end := new_end\<rparr>,
        if new_end < fr_end r then Shrinked else if new_end > fr_end r then Expanded else Same))"

definition FileRange_overlap_with :: "FileRange \<Rightarrow> FileRange \<Rightarrow> OverlapWith option" where
  "FileRange_overlap_with r other =
     (if fr_start r \<ge> fr_end other \<or> fr_end r \<le> fr_start other then None
      else Some
        (if fr_start r \<le> fr_start other \<and> fr_end r < fr_end other then ToLeft
         else if fr_start r > fr_start other \<and> fr_end r < fr_end other then InMiddle
         else if fr_start r > fr_start other \<and> fr_end r \<ge> fr_end other then ToRight
         else Includes))"

definition FileRange_merge :: "FileRange \<Rightarrow> FileRange \<Rightarrow> (FileRange \<times> FileRangeChange) res" where
  "FileRange_merge r other =
     (if fr_end r < fr_start other \<or> fr_end other < fr_start r then Err EINVAL
      else let (r1, c1) = (if fr_start other < fr_start r
                 then (r\<lparr>fr_start := fr_start other\<rparr>, Expanded) else (r, Same));
               (r2, c2) = (if fr_end other > fr_end r1
                 then (r1\<lparr>fr_end := fr_end other\<rparr>, Expanded) else (r1, c1))
           in Ok (r2, c2))"

section \<open>Locks (mod.rs)\<close>

datatype RangeLockType = F_RDLCK | F_WRLCK | F_UNLCK

definition RangeLockType_from_u16 :: "nat \<Rightarrow> RangeLockType res" where
  "RangeLockType_from_u16 t =
     (if t = 0 then Ok F_RDLCK else if t = 1 then Ok F_WRLCK
      else if t = 2 then Ok F_UNLCK else Err EINVAL)"

fun RangeLockType_as_u16 :: "RangeLockType \<Rightarrow> nat" where
  "RangeLockType_as_u16 F_RDLCK = 0"
| "RangeLockType_as_u16 F_WRLCK = 1"
| "RangeLockType_as_u16 F_UNLCK = 2"

record c_flock =
  l_type :: nat
  l_whence :: nat
  l_start :: int
  l_len :: int
  l_pid :: pid_t

text \<open>Offsets of type \<open>off_t\<close>: casts from and to \<open>usize\<close> and checked addition.\<close>

definition as_off_t :: "usize \<Rightarrow> int" where
  "as_off_t n = (if n \<le> OFFSET_MAX then int n else int n - int USIZE_MOD)"

definition off_t_checked_add :: "int \<Rightarrow> int \<Rightarrow> int option" where
  "off_t_checked_add a b = (if - int OFFSET_MAX - 1 \<le> a + b \<and> a + b \<le> int OFFSET_MAX then Some (a + b) else None)"

text \<open>The position and the size of the file are parameters, as the file reports them.\<close>

definition from_c_flock_and_file :: "c_flock \<Rightarrow> int res \<Rightarrow> usize res \<Rightarrow> FileRange res" where
  "from_c_flock_and_file lock position file_size =
     res_bind (res_bind (RangeLockWhence_from_u16 (l_whence lock)) (\<lambda>whence.
         case whence of
           SEEK_SET \<Rightarrow> Ok (l_start lock)
         | SEEK_CUR \<Rightarrow> res_bind position (\<lambda>p. ok_or (off_t_checked_add p (l_start lock)) EOVERFLOW)
         | SEEK_END \<Rightarrow> res_bind file_size (\<lambda>n. ok_or (off_t_checked_add (as_off_t n) (l_start lock)) EOVERFLOW)))
       (\<lambda>s. if s < 0 then Err EINVAL
         else if l_len lock > 0 then
           res_bind (ok_or (off_t_checked_add s (l_len lock)) EOVERFLOW) (\<lambda>e.
             Ok \<lparr>fr_start = nat s, fr_end = nat e\<rparr>)
         else if l_len lock = 0 then Ok \<lparr>fr_start = nat s, fr_end = OFFSET_MAX\<rparr>
         else let new_start = s + l_len lock
           in if new_start < 0 then Err EINVAL else Ok \<lparr>fr_start = nat new_start, fr_end = nat s\<rparr>)"

type_synonym waiter = nat

record RangeLock =
  lk_owner :: pid_t
  lk_type :: RangeLockType
  lk_range :: FileRange
  lk_waiters :: "waiter list"

abbreviation lk_start :: "RangeLock \<Rightarrow> usize" where
  "lk_start lk \<equiv> fr_start (lk_range lk)"

abbreviation lk_end :: "RangeLock \<Rightarrow> usize" where
  "lk_end lk \<equiv> fr_end (lk_range lk)"

definition copy_from_range_lock :: "c_flock \<Rightarrow> RangeLock \<Rightarrow> c_flock" where
  "copy_from_range_lock c lock =
     (let c1 = c\<lparr>l_type := RangeLockType_as_u16 (lk_type lock)\<rparr>
      in if lk_type lock \<noteq> F_UNLCK then
           c1\<lparr>l_whence := 0, l_start := as_off_t (lk_start lock),
              l_len := (if lk_end lock = OFFSET_MAX then 0 else as_off_t (FileRange_len (lk_range lock))),
              l_pid := lk_owner lock\<rparr>
         else c1)"

definition RangeLock_overlap_with :: "RangeLock \<Rightarrow> RangeLock \<Rightarrow> OverlapWith option" where
  "RangeLock_overlap_with lk other = FileRange_overlap_with (lk_range lk) (lk_range other)"

definition RangeLock_conflict_with :: "RangeLock \<Rightarrow> RangeLock \<Rightarrow> bool" where
  "RangeLock_conflict_with lk other =
     (if lk_owner lk = lk_owner other then False
      else if RangeLock_overlap_with lk other = None then False
      else if lk_type lk = F_WRLCK \<or> lk_type other = F_WRLCK then True
      else False)"

definition RangeLock_merge_with :: "RangeLock \<Rightarrow> RangeLock \<Rightarrow> RangeLock res" where
  "RangeLock_merge_with lk other =
     (case FileRange_merge (lk_range lk) (lk_range other) of
        Ok (r, _) \<Rightarrow> Ok (lk\<lparr>lk_range := r\<rparr>)
      | _ \<Rightarrow> Panic)"

text \<open>Emptying the queue of a lock returns the woken waiters.\<close>

definition dequeue_and_wake_all_waiters :: "RangeLock \<Rightarrow> RangeLock \<times> waiter list" where
  "dequeue_and_wake_all_waiters lk = (lk\<lparr>lk_waiters := []\<rparr>, lk_waiters lk)"

definition RangeLock_enqueue_waiter :: "RangeLock \<Rightarrow> waiter \<Rightarrow> RangeLock" where
  "RangeLock_enqueue_waiter lk w = lk\<lparr>lk_waiters := lk_waiters lk @ [w]\<rparr>"

definition RangeLock_set_start :: "RangeLock \<Rightarrow> usize \<Rightarrow> (RangeLock \<times> waiter list) res" where
  "RangeLock_set_start lk new_start =
     (case FileRange_set_start (lk_range lk) new_start of
        Ok (r, change) \<Rightarrow>
          (let lk' = lk\<lparr>lk_range := r\<rparr>
           in Ok (if change = Shrinked then dequeue_and_wake_all_waiters lk' else (lk', [])))
      | _ \<Rightarrow> Panic)"

definition RangeLock_set_end :: "RangeLock \<Rightarrow> usize \<Rightarrow> (RangeLock \<times> waiter list) res" where
  "RangeLock_set_end lk new_end =
     (case FileRange_set_end (lk_range lk) new_end of
        Ok (r, change) \<Rightarrow>
          (let lk' = lk\<lparr>lk_range := r\<rparr>
           in Ok (if change = Shrinked then dequeue_and_wake_all_waiters lk' else (lk', [])))
      | _ \<Rightarrow> Panic)"

definition RangeLock_clone :: "RangeLock \<Rightarrow> RangeLock" where
  "RangeLock_clone lk = lk\<lparr>lk_waiters := []\<rparr>"

section \<open>The builder (builder.rs)\<close>

record RangeLockBuilder =
  bd_type :: "RangeLockType option"
  bd_range :: "FileRange option"
  bd_owner :: "pid_t option"
  bd_waiters :: "waiter list option"

definition RangeLockBuilder_new :: RangeLockBuilder where
  "RangeLockBuilder_new = \<lparr>bd_type = None, bd_range = None, bd_owner = None, bd_waiters = None\<rparr>"

text \<open>\<open>current_pid\<close> is the process of the calling thread.\<close>

definition RangeLockBuilder_build :: "pid_t \<Rightarrow> RangeLockBuilder \<Rightarrow> RangeLock res" where
  "RangeLockBuilder_build current_pid b =
     (let owner = (case bd_owner b of Some p \<Rightarrow> p | None \<Rightarrow> current_pid)
      in res_bind (ok_or (bd_type b) EINVAL) (\<lambda>t.
           res_bind (ok_or (bd_range b) EINVAL) (\<lambda>r.
             Ok \<lparr>lk_owner = owner, lk_type = t, lk_range = r,
                 lk_waiters = (case bd_waiters b of Some q \<Rightarrow> q | None \<Rightarrow> [])\<rparr>)))"

section \<open>The list of locks (mod.rs)\<close>

type_synonym RangeLockList = "RangeLock list"

fun test_lock_loop :: "RangeLockList \<Rightarrow> RangeLock \<Rightarrow> RangeLock" where
  "test_lock_loop [] lock = lock\<lparr>lk_type := F_UNLCK\<rparr>"
| "test_lock_loop (existing_lock # rest) lock =
     (if RangeLock_conflict_with lock existing_lock
      then lock\<lparr>lk_owner := lk_owner existing_lock, lk_type := lk_type existing_lock,
                lk_range := lk_range existing_lock\<rparr>
      else test_lock_loop rest lock)"

definition test_lock :: "RangeLockList \<Rightarrow> RangeLock \<Rightarrow> RangeLock" where
  "test_lock list lock = test_lock_loop list lock"

definition list_remove :: "'a list \<Rightarrow> nat \<Rightarrow> 'a list" where
  "list_remove xs i = take i xs @ drop (Suc i) xs"

definition list_insert :: "'a list \<Rightarrow> nat \<Rightarrow> 'a \<Rightarrow> 'a list" where
  "list_insert xs i x = take i xs @ x # drop i xs"

definition list_swap :: "'a list \<Rightarrow> nat \<Rightarrow> nat \<Rightarrow> 'a list" where
  "list_swap xs i j = xs[i := xs ! j, j := xs ! i]"

lemma list_remove_length [simp]: "i < length xs \<Longrightarrow> length (list_remove xs i) = length xs - 1"
  by (simp add: list_remove_def)

lemma list_swap_length [simp]: "length (list_swap xs i j) = length xs"
  by (simp add: list_swap_def)

text \<open>
  The adjustment loop of \<open>insert_lock_into_list\<close>: the lock at \<open>pre_idx\<close> is compared with its right
  neighbour until the list obeys the ordering and merging rules again.  Dropping a lock wakes its
  waiters.
\<close>

function insert_loop ::
  "RangeLockList \<Rightarrow> nat \<Rightarrow> waiter list \<Rightarrow> (RangeLockList \<times> waiter list) res" where
  "insert_loop list pre_idx woken =
     (let next_idx = pre_idx + 1
      in if next_idx \<ge> length list then Ok (list, woken)
         else let pre_lock = RangeLock_clone (list ! pre_idx);
                  next_lock = RangeLock_clone (list ! next_idx)
           in if lk_owner next_lock \<noteq> lk_owner pre_lock then Ok (list, woken)
              else if lk_type next_lock = lk_type pre_lock then
                (if lk_end pre_lock < lk_start next_lock then Ok (list, woken)
                 else if lk_end next_lock < lk_start pre_lock
                 then insert_loop (list_swap list pre_idx next_idx) (pre_idx + 1) woken
                 else case RangeLock_merge_with (list ! next_idx) pre_lock of
                     Ok merged \<Rightarrow>
                       insert_loop (list_remove (list[next_idx := merged]) pre_idx) pre_idx
                         (woken @ lk_waiters (list ! pre_idx))
                   | Err e \<Rightarrow> Err e
                   | Panic \<Rightarrow> Panic)
              else if lk_end pre_lock \<le> lk_start next_lock then Ok (list, woken)
              else if lk_end next_lock \<le> lk_start pre_lock
              then insert_loop (list_swap list pre_idx next_idx) (pre_idx + 1) woken
              else case RangeLock_overlap_with pre_lock next_lock of
                  None \<Rightarrow> Panic
                | Some ToLeft \<Rightarrow>
                    res_bind (RangeLock_set_start (list ! next_idx) (lk_end pre_lock)) (\<lambda>(lk, ws).
                      Ok (list[next_idx := lk], woken @ ws))
                | Some InMiddle \<Rightarrow>
                    res_bind (RangeLock_set_start (RangeLock_clone next_lock) (lk_end pre_lock)) (\<lambda>(right_lk, _).
                      res_bind (RangeLock_set_end (list ! next_idx) (lk_start pre_lock)) (\<lambda>(lk, ws).
                        Ok (list_insert (list_swap (list[next_idx := lk]) pre_idx next_idx) (next_idx + 1) right_lk,
                            woken @ ws)))
                | Some ToRight \<Rightarrow>
                    (case RangeLock_set_end (list ! next_idx) (lk_start pre_lock) of
                       Ok (lk, ws) \<Rightarrow>
                         insert_loop (list_swap (list[next_idx := lk]) pre_idx next_idx) (pre_idx + 1) (woken @ ws)
                     | Err e \<Rightarrow> Err e
                     | Panic \<Rightarrow> Panic)
                | Some Includes \<Rightarrow>
                    insert_loop (list_remove list next_idx) pre_idx (woken @ lk_waiters (list ! next_idx)))"
  by pat_completeness auto
termination
  by (relation "measure (\<lambda>(list, pre_idx, woken). length list - pre_idx)") auto

declare insert_loop.simps [simp del]

definition insert_lock_into_list ::
  "RangeLockList \<Rightarrow> RangeLock \<Rightarrow> (RangeLockList \<times> waiter list) res" where
  "insert_lock_into_list list lock =
     (case list_position (\<lambda>lk. lk_owner lk = lk_owner lock) list of
        None \<Rightarrow> Ok (RangeLock_clone lock # list, [])
      | Some first_same_owner_idx \<Rightarrow>
          insert_loop (list_insert list first_same_owner_idx (RangeLock_clone lock)) first_same_owner_idx [])"

text \<open>
  One turn of the loop of \<open>set_lock\<close>: the request is refused, or its thread is put to sleep in the
  queue of the first conflicting lock, or the lock is set.
\<close>

datatype set_lock_result = Refused errno | Waiting RangeLockList | Locked RangeLockList "waiter list"

definition RangeLockList_set_lock ::
  "RangeLockList \<Rightarrow> RangeLock \<Rightarrow> bool \<Rightarrow> waiter \<Rightarrow> set_lock_result res" where
  "RangeLockList_set_lock list lock is_nonblocking waiter =
     (case list_position (\<lambda>l. RangeLock_conflict_with l lock) list of
        Some i \<Rightarrow>
          (if is_nonblocking then Ok (Refused EAGAIN)
           else Ok (Waiting (list[i := RangeLock_enqueue_waiter (list ! i) waiter])))
      | None \<Rightarrow> map_res (\<lambda>(list', woken). Locked list' woken) (insert_lock_into_list list lock))"

function unlock_loop ::
  "RangeLock \<Rightarrow> RangeLockList \<Rightarrow> nat \<Rightarrow> waiter list \<Rightarrow> (RangeLockList \<times> waiter list) res" where
  "unlock_loop lock list skipped woken =
     (case list_position (\<lambda>lk. lk_owner lk = lk_owner lock) (drop skipped list) of
        None \<Rightarrow> Ok (list, woken)
      | Some i \<Rightarrow>
          (let idx = i + skipped; existing_lock = list ! idx
           in case RangeLock_overlap_with lock existing_lock of
                None \<Rightarrow> unlock_loop lock list (idx + 1) woken
              | Some ToLeft \<Rightarrow>
                  res_bind (RangeLock_set_start existing_lock (lk_end lock)) (\<lambda>(lk, ws).
                    Ok (list[idx := lk], woken @ ws))
              | Some InMiddle \<Rightarrow>
                  res_bind (RangeLock_set_start (RangeLock_clone existing_lock) (lk_end lock)) (\<lambda>(right_lk, _).
                    res_bind (RangeLock_set_end existing_lock (lk_start lock)) (\<lambda>(lk, ws).
                      Ok (list_insert (list[idx := lk]) (idx + 1) right_lk, woken @ ws)))
              | Some ToRight \<Rightarrow>
                  (case RangeLock_set_end existing_lock (lk_start lock) of
                     Ok (lk, ws) \<Rightarrow> unlock_loop lock (list[idx := lk]) (idx + 1) (woken @ ws)
                   | Err e \<Rightarrow> Err e
                   | Panic \<Rightarrow> Panic)
              | Some Includes \<Rightarrow>
                  unlock_loop lock (list_remove list idx) idx (woken @ lk_waiters existing_lock)))"
  by pat_completeness auto
termination
  by (relation "measure (\<lambda>(lock, list, skipped, woken). length list - skipped)")
    (auto dest!: list_position_lt)

declare unlock_loop.simps [simp del]

definition RangeLockList_unlock :: "RangeLockList \<Rightarrow> RangeLock \<Rightarrow> (RangeLockList \<times> waiter list) res" where
  "RangeLockList_unlock list lock = unlock_loop lock list 0 []"

section \<open>The abstract view\<close>

definition bytes :: "RangeLock \<Rightarrow> nat set" where
  "bytes lk = {lk_start lk..<lk_end lk}"

text \<open>The types of the locks that a process holds on a byte; under the invariant at most one.\<close>

definition held :: "RangeLockList \<Rightarrow> pid_t \<Rightarrow> nat \<Rightarrow> RangeLockType set" where
  "held list p x = lk_type ` {lk \<in> set list. lk_owner lk = p \<and> x \<in> bytes lk}"

definition wf_lock :: "RangeLock \<Rightarrow> bool" where
  "wf_lock lk \<longleftrightarrow> lk_start lk < lk_end lk \<and> lk_type lk \<noteq> F_UNLCK"

text \<open>The ordering and merging rules between two locks of one process.\<close>

definition before :: "RangeLock \<Rightarrow> RangeLock \<Rightarrow> bool" where
  "before a b \<longleftrightarrow> lk_end a \<le> lk_start b \<and> (lk_type a = lk_type b \<longrightarrow> lk_end a < lk_start b)"

fun grouped :: "pid_t list \<Rightarrow> bool" where
  "grouped [] = True"
| "grouped (p # ps) = (p \<notin> set (dropWhile (\<lambda>q. q = p) ps) \<and> grouped ps)"

text \<open>The rules stated for \<open>RangeLockList\<close> in the source.\<close>

definition list_rules :: "RangeLockList \<Rightarrow> bool" where
  "list_rules list \<longleftrightarrow>
     (\<forall>lk \<in> set list. wf_lock lk) \<and>
     sorted_wrt (\<lambda>a b. lk_owner a = lk_owner b \<longrightarrow> before a b) list \<and>
     grouped (map lk_owner list)"

text \<open>Mutual exclusion: a byte on which a process holds a write lock is locked by no other process.\<close>

definition exclusive :: "RangeLockList \<Rightarrow> bool" where
  "exclusive list \<longleftrightarrow>
     (\<forall>p q x. p \<noteq> q \<longrightarrow> F_WRLCK \<in> held list p x \<longrightarrow> held list q x = {})"

text \<open>
  Sleeping threads: \<open>req w\<close> is the lock that the thread with waiter \<open>w\<close> asked for.  A thread is
  queued only at a lock that conflicts with its request.
\<close>

definition sleepers_blocked :: "(waiter \<Rightarrow> RangeLock) \<Rightarrow> RangeLockList \<Rightarrow> bool" where
  "sleepers_blocked req list \<longleftrightarrow>
     (\<forall>lk \<in> set list. \<forall>w \<in> set (lk_waiters lk). RangeLock_conflict_with lk (req w))"

definition sleepers :: "RangeLockList \<Rightarrow> waiter set" where
  "sleepers list = (\<Union>lk \<in> set list. set (lk_waiters lk))"

section \<open>The loops as recursion on the list\<close>

definition hull :: "FileRange \<Rightarrow> FileRange \<Rightarrow> FileRange" where
  "hull r s = \<lparr>fr_start = min (fr_start r) (fr_start s), fr_end = max (fr_end r) (fr_end s)\<rparr>"

abbreviation cut_start :: "RangeLock \<Rightarrow> usize \<Rightarrow> RangeLock" where
  "cut_start lk s \<equiv> lk\<lparr>lk_range := (lk_range lk)\<lparr>fr_start := s\<rparr>, lk_waiters := []\<rparr>"

abbreviation cut_end :: "RangeLock \<Rightarrow> usize \<Rightarrow> RangeLock" where
  "cut_end lk e \<equiv> lk\<lparr>lk_range := (lk_range lk)\<lparr>fr_end := e\<rparr>, lk_waiters := []\<rparr>"

abbreviation consl :: "'a \<Rightarrow> 'a list \<times> 'w list \<Rightarrow> 'a list \<times> 'w list" where
  "consl x p \<equiv> (x # fst p, snd p)"

abbreviation wakes :: "'w list \<Rightarrow> 'a list \<times> 'w list \<Rightarrow> 'a list \<times> 'w list" where
  "wakes ws p \<equiv> (fst p, ws @ snd p)"

fun bubble :: "RangeLock \<Rightarrow> RangeLockList \<Rightarrow> RangeLockList \<times> waiter list" where
  "bubble pre [] = ([pre], [])"
| "bubble pre (nx # rest) =
     (if lk_owner nx \<noteq> lk_owner pre then (pre # nx # rest, [])
      else if lk_type nx = lk_type pre then
        (if lk_end pre < lk_start nx then (pre # nx # rest, [])
         else if lk_end nx < lk_start pre then consl nx (bubble pre rest)
         else wakes (lk_waiters pre) (bubble (nx\<lparr>lk_range := hull (lk_range nx) (lk_range pre)\<rparr>) rest))
      else if lk_end pre \<le> lk_start nx then (pre # nx # rest, [])
      else if lk_end nx \<le> lk_start pre then consl nx (bubble pre rest)
      else if lk_end pre < lk_end nx then
        (if lk_start pre \<le> lk_start nx then (pre # cut_start nx (lk_end pre) # rest, lk_waiters nx)
         else (cut_end nx (lk_start pre) # pre # cut_start nx (lk_end pre) # rest, lk_waiters nx))
      else if lk_start pre > lk_start nx
      then wakes (lk_waiters nx) (consl (cut_end nx (lk_start pre)) (bubble pre rest))
      else wakes (lk_waiters nx) (bubble pre rest))"

lemma nth_pair [simp]:
  "(xs @ a # b # ys) ! Suc (length xs) = b"
  "(xs @ a # b # ys)[Suc (length xs) := c] = xs @ a # c # ys"
  "list_swap (xs @ a # b # ys) (length xs) (Suc (length xs)) = xs @ b # a # ys"
  "list_remove (xs @ a # ys) (length xs) = xs @ ys"
  "list_remove (xs @ a # b # ys) (Suc (length xs)) = xs @ a # ys"
  "list_insert (xs @ a # b # ys) (Suc (Suc (length xs))) c = xs @ a # b # c # ys"
  "list_insert (xs @ a # ys) (Suc (length xs)) c = xs @ a # c # ys"
  by (simp_all add: nth_append list_update_append list_swap_def list_remove_def list_insert_def)

lemma hull_merge:
  "\<not> fr_end r < fr_start s \<Longrightarrow> \<not> fr_end s < fr_start r \<Longrightarrow> \<exists>c. FileRange_merge r s = Ok (hull r s, c)"
  by (auto simp: FileRange_merge_def hull_def min_def max_def)

lemma merge_with_hull:
  "\<not> lk_end a < lk_start b \<Longrightarrow> \<not> lk_end b < lk_start a \<Longrightarrow>
     RangeLock_merge_with a (RangeLock_clone b) = Ok (a\<lparr>lk_range := hull (lk_range a) (lk_range b)\<rparr>)"
  using hull_merge [of "lk_range a" "lk_range b"]
  by (auto simp: RangeLock_merge_with_def RangeLock_clone_def)

lemma set_start_cut:
  "lk_start lk < s \<Longrightarrow> s < lk_end lk \<Longrightarrow> RangeLock_set_start lk s = Ok (cut_start lk s, lk_waiters lk)"
  by (simp add: RangeLock_set_start_def FileRange_set_start_def dequeue_and_wake_all_waiters_def)

lemma set_end_cut:
  "lk_start lk < e \<Longrightarrow> e < lk_end lk \<Longrightarrow> RangeLock_set_end lk e = Ok (cut_end lk e, lk_waiters lk)"
  by (simp add: RangeLock_set_end_def FileRange_set_end_def dequeue_and_wake_all_waiters_def)

lemma clone_simps [simp]:
  "lk_owner (RangeLock_clone lk) = lk_owner lk" "lk_type (RangeLock_clone lk) = lk_type lk"
  "lk_range (RangeLock_clone lk) = lk_range lk" "lk_waiters (RangeLock_clone lk) = []"
  "RangeLock_clone (RangeLock_clone lk) = RangeLock_clone lk"
  "cut_start (RangeLock_clone lk) s = cut_start lk s"
  by (simp_all add: RangeLock_clone_def)

lemma overlap_cases:
  assumes "\<not> lk_end a \<le> lk_start b" "\<not> lk_end b \<le> lk_start a"
  shows "RangeLock_overlap_with a b = Some
    (if lk_end a < lk_end b then (if lk_start a \<le> lk_start b then ToLeft else InMiddle)
     else if lk_start a > lk_start b then ToRight else Includes)"
  using assms by (auto simp: RangeLock_overlap_with_def FileRange_overlap_with_def)

lemma insert_loop_bubble:
  assumes "wf_lock pre" "\<forall>y \<in> set ys. wf_lock y"
  shows "insert_loop (xs @ pre # ys) (length xs) w = Ok (xs @ fst (bubble pre ys), w @ snd (bubble pre ys))"
  using assms
proof (induction ys arbitrary: xs pre w)
  case Nil
  then show ?case by (simp add: insert_loop.simps [of "xs @ [pre]"])
next
  case (Cons nx rest)
  note unfold = insert_loop.simps [of "xs @ pre # nx # rest" "length xs" w]
  have wf: "wf_lock pre" "wf_lock nx" "\<forall>y \<in> set rest. wf_lock y" using Cons.prems by auto
  have swap: "insert_loop (xs @ nx' # pre # rest) (Suc (length xs)) w' =
      Ok (xs @ nx' # fst (bubble pre rest), w' @ snd (bubble pre rest))" for nx' w'
    using Cons.IH [OF wf(1,3), of "xs @ [nx']" w'] by simp
  have keep: "insert_loop (xs @ pre' # rest) (length xs) w' =
      Ok (xs @ fst (bubble pre' rest), w' @ snd (bubble pre' rest))" if "wf_lock pre'" for pre' w'
    using Cons.IH [OF that wf(3)] .
  show ?case
  proof (cases "lk_owner nx = lk_owner pre")
    case own: True
    show ?thesis
    proof (cases "lk_type nx = lk_type pre")
      case ty: True
      have hl: "wf_lock (nx\<lparr>lk_range := hull (lk_range nx) (lk_range pre)\<rparr>)"
        using wf by (auto simp: wf_lock_def hull_def)
      show ?thesis
        using own ty merge_with_hull [of nx pre] keep [OF hl] swap
        by (auto simp: unfold Let_def)
    next
      case ty: False
      show ?thesis
      proof (cases "lk_end pre \<le> lk_start nx \<or> lk_end nx \<le> lk_start pre")
        case True
        then show ?thesis using own ty swap by (auto simp: unfold Let_def)
      next
        case False
        then have nd: "\<not> lk_end pre \<le> lk_start nx" "\<not> lk_end nx \<le> lk_start pre" by auto
        have ov: "RangeLock_overlap_with (RangeLock_clone pre) (RangeLock_clone nx) = Some
    (if lk_end pre < lk_end nx then (if lk_start pre \<le> lk_start nx then ToLeft else InMiddle)
     else if lk_start pre > lk_start nx then ToRight else Includes)"
          using overlap_cases [of "RangeLock_clone pre" "RangeLock_clone nx"] nd by simp
        have "lk_start pre < lk_end pre" "lk_start nx < lk_end nx" using wf by (auto simp: wf_lock_def)
        then show ?thesis
          using own ty nd swap keep [OF wf(1)] set_start_cut [of nx "lk_end pre"] set_end_cut [of nx "lk_start pre"]
            set_start_cut [of "RangeLock_clone nx" "lk_end pre"]
          by (auto simp: unfold Let_def ov)
      qed
    qed
  next
    case False
    then show ?thesis by (simp add: unfold Let_def)
  qed
qed

abbreviation absorb :: "RangeLock \<Rightarrow> RangeLock \<Rightarrow> RangeLock" where
  "absorb a b \<equiv> a\<lparr>lk_range := hull (lk_range a) (lk_range b)\<rparr>"

lemma bubble_append:
  assumes "lk_owner pre = p" "\<forall>g \<in> set G. lk_owner g = p" "B = [] \<or> lk_owner (hd B) \<noteq> p"
  shows "bubble pre (G @ B) = (fst (bubble pre G) @ B, snd (bubble pre G))"
  using assms
proof (induction G arbitrary: pre)
  case Nil
  then show ?case by (cases B) auto
next
  case (Cons g G)
  have own: "lk_owner pre = p" "lk_owner g = p" "\<forall>g \<in> set G. lk_owner g = p" using Cons.prems by simp_all
  have o': "lk_owner (absorb g pre) = p" using own by simp
  note ih = Cons.IH [OF own(1,3) Cons.prems(3)] Cons.IH [OF o' own(3) Cons.prems(3)]
  show ?case by (simp add: own(1,2) ih)
qed

lemma bubble_owner:
  "lk_owner pre = p \<Longrightarrow> \<forall>g \<in> set G. lk_owner g = p \<Longrightarrow> \<forall>y \<in> set (fst (bubble pre G)). lk_owner y = p"
proof (induction G arbitrary: pre)
  case (Cons g G)
  have own: "lk_owner pre = p" "lk_owner g = p" "\<forall>g \<in> set G. lk_owner g = p" using Cons.prems by simp_all
  have o': "lk_owner (absorb g pre) = p" using own by simp
  note ih = Cons.IH [OF own(1,3)] Cons.IH [OF o' own(3)]
  show ?case using own ih by simp
qed simp

lemma bubble_nonempty: "fst (bubble pre G) \<noteq> []"
  by (induction G arbitrary: pre) simp_all

lemma wf_hull: "wf_lock a \<Longrightarrow> wf_lock b \<Longrightarrow> wf_lock (a\<lparr>lk_range := hull (lk_range a) (lk_range b)\<rparr>)"
  by (auto simp: wf_lock_def hull_def)

lemma wf_cut:
  "wf_lock g \<Longrightarrow> s < lk_end g \<Longrightarrow> wf_lock (cut_start g s)"
  "wf_lock g \<Longrightarrow> lk_start g < e \<Longrightarrow> wf_lock (cut_end g e)"
  by (auto simp: wf_lock_def)

lemma bubble_wf:
  "wf_lock pre \<Longrightarrow> \<forall>g \<in> set G. wf_lock g \<Longrightarrow> y \<in> set (fst (bubble pre G)) \<Longrightarrow> wf_lock y"
proof (induction G arbitrary: pre)
  case (Cons g G)
  have wf: "wf_lock pre" "wf_lock g" "\<forall>y \<in> set G. wf_lock y" using Cons.prems by auto
  note ih = Cons.IH [OF wf(1,3)] Cons.IH [OF wf_hull [OF wf(2,1)] wf(3)]
  show ?case
    using Cons.prems(3) wf ih wf_cut [OF wf(2)] by (auto split: if_splits)
qed simp

lemma bubble_before:
  "before a pre \<Longrightarrow> \<forall>g \<in> set G. before a g \<Longrightarrow> y \<in> set (fst (bubble pre G)) \<Longrightarrow> before a y"
proof (induction G arbitrary: pre)
  case (Cons g G)
  have "before a (g\<lparr>lk_range := hull (lk_range g) (lk_range pre)\<rparr>)" if "lk_type g = lk_type pre"
    using Cons.prems that by (auto simp: before_def hull_def)
  then show ?case
    using Cons.prems Cons.IH [of pre] Cons.IH [of "g\<lparr>lk_range := hull (lk_range g) (lk_range pre)\<rparr>"]
    by (auto simp: before_def split: if_splits)
qed simp

lemma before_trans_lt:
  "lk_end a \<le> lk_start b \<Longrightarrow> wf_lock b \<Longrightarrow> before b c \<Longrightarrow> before a c"
  by (auto simp: before_def wf_lock_def)

lemma bubble_sorted:
  assumes "wf_lock pre" "\<forall>g \<in> set G. wf_lock g" "sorted_wrt before G"
    "lk_owner pre = p" "\<forall>g \<in> set G. lk_owner g = p"
  shows "sorted_wrt before (fst (bubble pre G))"
  using assms
proof (induction G arbitrary: pre)
  case (Cons g G)
  have wf: "wf_lock pre" "wf_lock g" "\<forall>y \<in> set G. wf_lock y" "sorted_wrt before G" "\<forall>y \<in> set G. before g y"
    "lk_owner pre = p" "lk_owner g = p" "\<forall>y \<in> set G. lk_owner y = p"
    using Cons.prems by simp_all
  have stop: "\<forall>y \<in> set G. before pre y" if "lk_end pre < lk_end g"
    using wf that by (auto simp: before_def)
  have o': "lk_owner (absorb g pre) = p" using wf by simp
  have ih: "sorted_wrt before (fst (bubble pre G))" by (rule Cons.IH [OF wf(1,3,4,6,8)])
  have ihm: "sorted_wrt before (fst (bubble (absorb g pre) G))"
    by (rule Cons.IH [OF wf_hull [OF wf(2,1)] wf(3,4) o' wf(8)])
  have skip: "sorted_wrt before (g' # fst (bubble pre G))"
    if "before g' pre" "lk_type g' = lk_type g" "lk_end g' \<le> lk_end g" for g'
  proof -
    have "\<forall>y \<in> set G. before g' y" using wf(5) that by (auto simp: before_def)
    then show ?thesis using ih bubble_before [of g' pre G] that(1) by auto
  qed
  show ?case
  proof (cases "lk_type g = lk_type pre")
    case True
    show ?thesis
    proof -
      have "sorted_wrt before (pre # g # G)" if "lk_end pre < lk_start g"
        using that wf stop by (auto simp: before_def wf_lock_def)
      moreover have "sorted_wrt before (g # fst (bubble pre G))" if "lk_end g < lk_start pre"
        using that by (intro skip) (auto simp: before_def)
      ultimately show ?thesis using wf(6,7) True ihm by simp
    qed
  next
    case ty: False
    have c1: "sorted_wrt before (pre # cut_start g (lk_end pre) # G)"
      if "lk_end pre < lk_end g" "lk_start pre \<le> lk_start g"
      using that wf stop ty by (auto simp: before_def)
    have c2: "sorted_wrt before (cut_end g (lk_start pre) # pre # cut_start g (lk_end pre) # G)"
      if "lk_end pre < lk_end g" "lk_start g < lk_start pre"
      using that wf stop ty by (auto simp: before_def wf_lock_def)
    have c3: "sorted_wrt before (cut_end g (lk_start pre) # fst (bubble pre G))"
      if "lk_start pre < lk_end g" "lk_start g < lk_start pre"
      using that ty by (intro skip) (auto simp: before_def)
    have c4: "sorted_wrt before (pre # g # G)" if "lk_end pre \<le> lk_start g"
      using that wf stop ty by (auto simp: before_def wf_lock_def)
    have c5: "sorted_wrt before (g # fst (bubble pre G))" if "lk_end g \<le> lk_start pre"
      using that ty by (intro skip) (auto simp: before_def)
    show ?thesis using wf(6,7) ty c1 c2 c3 c4 c5 ih by simp
  qed
qed simp

lemma bytes_simps:
  "x \<in> bytes lk \<longleftrightarrow> lk_start lk \<le> x \<and> x < lk_end lk"
  by (simp add: bytes_def)

lemma bubble_held:
  assumes "wf_lock pre" "\<forall>g \<in> set G. wf_lock g" "sorted_wrt before G"
    "lk_owner pre = p" "\<forall>g \<in> set G. lk_owner g = p"
  shows "(\<exists>y \<in> set (fst (bubble pre G)). lk_type y = t \<and> x \<in> bytes y) \<longleftrightarrow>
    (if x \<in> bytes pre then t = lk_type pre else \<exists>g \<in> set G. lk_type g = t \<and> x \<in> bytes g)"
  using assms
proof (induction G arbitrary: pre)
  case (Cons g G)
  have wf: "wf_lock pre" "wf_lock g" "\<forall>y \<in> set G. wf_lock y" "sorted_wrt before G" "\<forall>y \<in> set G. before g y"
    "lk_owner pre = p" "lk_owner g = p" "\<forall>y \<in> set G. lk_owner y = p"
    using Cons.prems by simp_all
  have beyond: "x \<notin> bytes pre" if "lk_end pre < lk_end g" "y \<in> set G" "x \<in> bytes y" for y
    using that wf(5) by (auto simp: before_def bytes_simps)
  have ih: "(\<exists>y \<in> set (fst (bubble pre G)). lk_type y = t \<and> x \<in> bytes y) \<longleftrightarrow>
    (if x \<in> bytes pre then t = lk_type pre else \<exists>g \<in> set G. lk_type g = t \<and> x \<in> bytes g)"
    by (rule Cons.IH [OF wf(1,3,4,6,8)])
  have o': "lk_owner (absorb g pre) = p" using wf by simp
  let ?m = "absorb g pre"
  have ihm: "(\<exists>y \<in> set (fst (bubble ?m G)). lk_type y = t \<and> x \<in> bytes y) \<longleftrightarrow>
    (if x \<in> bytes ?m then t = lk_type ?m else \<exists>g \<in> set G. lk_type g = t \<and> x \<in> bytes g)"
    by (rule Cons.IH [OF wf_hull [OF wf(2,1)] wf(3,4) o' wf(8)])
  have apart: "\<not> (x \<in> bytes g \<and> x \<in> bytes y)" if "y \<in> set G" for y
    using wf(5) that by (auto simp: before_def bytes_simps)
  have far: "\<forall>y \<in> set G. \<not> (x \<in> bytes pre \<and> x \<in> bytes y)" if "lk_end pre < lk_end g"
    using beyond [OF that] by blast
  have cs: "x \<in> bytes (cut_start g (lk_end pre)) \<longleftrightarrow> x \<in> bytes g \<and> x \<notin> bytes pre"
    if "lk_start pre \<le> lk_start g" "lk_start g < lk_end pre"
    using that by (auto simp: bytes_simps)
  have ce: "x \<in> bytes (cut_end g (lk_start pre)) \<longleftrightarrow> x \<in> bytes g \<and> x \<notin> bytes pre"
    if "lk_end g \<le> lk_end pre" "lk_start pre < lk_end g"
    using that by (auto simp: bytes_simps)
  have cm: "x \<in> bytes (cut_end g (lk_start pre)) \<or> x \<in> bytes (cut_start g (lk_end pre)) \<longleftrightarrow>
      x \<in> bytes g \<and> x \<notin> bytes pre"
    if "lk_start g < lk_start pre" "lk_end pre < lk_end g" "lk_start pre < lk_end pre"
    using that by (auto simp: bytes_simps)
  have ws: "lk_start pre < lk_end pre" "lk_start g < lk_end g" using wf(1,2) by (auto simp: wf_lock_def)
  have dj: "\<not> (x \<in> bytes pre \<and> x \<in> bytes g)" if "lk_end pre \<le> lk_start g \<or> lk_end g \<le> lk_start pre"
    using that by (auto simp: bytes_simps)
  show ?case
  proof (cases "lk_type g = lk_type pre")
    case ty: True
    consider "lk_end pre < lk_start g" | "lk_end g < lk_start pre" "\<not> lk_end pre < lk_start g"
      | "\<not> lk_end pre < lk_start g" "\<not> lk_end g < lk_start pre" by linarith
    then show ?thesis
    proof cases
      case 1
      then have "fst (bubble pre (g # G)) = pre # g # G" using wf(6,7) ty by simp
      then show ?thesis using dj far 1 ws by auto
    next
      case 2
      then have "fst (bubble pre (g # G)) = g # fst (bubble pre G)" using wf(6,7) ty by simp
      then show ?thesis using dj 2 ih by auto
    next
      case 3
      then have b: "x \<in> bytes ?m \<longleftrightarrow> x \<in> bytes g \<or> x \<in> bytes pre"
        using ws by (auto simp: bytes_simps hull_def)
      have "fst (bubble pre (g # G)) = fst (bubble ?m G)" using 3 wf(6,7) ty by simp
      then show ?thesis using ihm b ty apart by auto
    qed
  next
    case ty: False
    consider "lk_end pre \<le> lk_start g" | "lk_end g \<le> lk_start pre" "\<not> lk_end pre \<le> lk_start g"
      | "\<not> lk_end pre \<le> lk_start g" "\<not> lk_end g \<le> lk_start pre" "lk_end pre < lk_end g" "lk_start pre \<le> lk_start g"
      | "\<not> lk_end pre \<le> lk_start g" "\<not> lk_end g \<le> lk_start pre" "lk_end pre < lk_end g" "lk_start g < lk_start pre"
      | "\<not> lk_end pre \<le> lk_start g" "\<not> lk_end g \<le> lk_start pre" "lk_end g \<le> lk_end pre" "lk_start g < lk_start pre"
      | "lk_end g \<le> lk_end pre" "lk_start pre \<le> lk_start g" "\<not> lk_end pre \<le> lk_start g" "\<not> lk_end g \<le> lk_start pre"
      by linarith
    then show ?thesis
    proof cases
      case 1
      then have "fst (bubble pre (g # G)) = pre # g # G" using wf(6,7) ty by simp
      then show ?thesis using dj far 1 ws by auto
    next
      case 2
      then have "fst (bubble pre (g # G)) = g # fst (bubble pre G)" using wf(6,7) ty by simp
      then show ?thesis using dj 2 ih by auto
    next
      case 3
      then have e: "fst (bubble pre (g # G)) = pre # cut_start g (lk_end pre) # G" using wf(6,7) ty by simp
      have c: "x \<in> bytes (cut_start g (lk_end pre)) \<longleftrightarrow> x \<in> bytes g \<and> x \<notin> bytes pre" using cs 3 by simp
      show ?thesis unfolding e using c far 3 by auto
    next
      case 4
      then have e: "fst (bubble pre (g # G)) =
          cut_end g (lk_start pre) # pre # cut_start g (lk_end pre) # G" using wf(6,7) ty by simp
      have c: "x \<in> bytes (cut_end g (lk_start pre)) \<or> x \<in> bytes (cut_start g (lk_end pre)) \<longleftrightarrow>
          x \<in> bytes g \<and> x \<notin> bytes pre" using cm 4 ws by simp
      show ?thesis unfolding e using c far 4 by auto
    next
      case 5
      then have e: "fst (bubble pre (g # G)) = cut_end g (lk_start pre) # fst (bubble pre G)"
        using wf(6,7) ty by simp
      have c: "x \<in> bytes (cut_end g (lk_start pre)) \<longleftrightarrow> x \<in> bytes g \<and> x \<notin> bytes pre" using ce 5 by simp
      show ?thesis unfolding e using c ih by auto
    next
      case 6
      then have e: "fst (bubble pre (g # G)) = fst (bubble pre G)" using wf(6,7) ty ws by simp
      have "x \<in> bytes g \<Longrightarrow> x \<in> bytes pre" using 6 by (auto simp: bytes_simps)
      then show ?thesis unfolding e using ih by auto
    qed
  qed
qed auto

text \<open>What becomes of the waiters: a lock keeps its queue only if it still covers the same bytes.\<close>

definition covers :: "RangeLock \<Rightarrow> RangeLock \<Rightarrow> bool" where
  "covers y g \<longleftrightarrow> lk_waiters y = lk_waiters g \<and> lk_type y = lk_type g \<and> lk_owner y = lk_owner g \<and>
     lk_start y \<le> lk_start g \<and> lk_end g \<le> lk_end y"

lemma covers_refl [simp]: "covers g g"
  by (simp add: covers_def)

lemma covers_trans: "covers a b \<Longrightarrow> covers b c \<Longrightarrow> covers a c"
  by (auto simp: covers_def)

lemma covers_absorb: "covers (absorb g pre) g"
  by (simp add: covers_def hull_def)

lemma bubble_waiters:
  "\<forall>y \<in> set (fst (bubble pre G)). lk_waiters y = [] \<or> (\<exists>g \<in> set (pre # G). covers y g)"
proof (induction G arbitrary: pre)
  case (Cons g G)
  define K where "K y \<longleftrightarrow> lk_waiters y = [] \<or> (\<exists>h \<in> set (pre # g # G). covers y h)" for y
  have K: "K y" if "y \<in> set (pre # g # G)" for y
    unfolding K_def using that covers_refl by blast
  have ih: "\<forall>y \<in> set (fst (bubble pre G)). K y"
    using Cons.IH [of pre] unfolding K_def by fastforce
  have ihm: "\<forall>y \<in> set (fst (bubble (absorb g pre) G)). K y"
    using Cons.IH [of "absorb g pre"] covers_trans [OF _ covers_absorb, of _ g pre]
    unfolding K_def by fastforce
  have "K (cut_start g s)" "K (cut_end g s)" for s by (simp_all add: K_def)
  then have "\<forall>y \<in> set (fst (bubble pre (g # G))). K y" using K ih ihm by simp
  then show ?case unfolding K_def .
qed simp

lemma sleepers_simps [simp]:
  "sleepers [] = {}" "sleepers (x # xs) = set (lk_waiters x) \<union> sleepers xs"
  "sleepers (xs @ ys) = sleepers xs \<union> sleepers ys"
  by (auto simp: sleepers_def)

lemma bubble_sleepers:
  "set (snd (bubble pre G)) \<union> sleepers (fst (bubble pre G)) = sleepers (pre # G)"
proof (induction G arbitrary: pre)
  case (Cons g G)
  note ih = Cons.IH [of pre] Cons.IH [of "absorb g pre"]
  show ?case using ih by (simp add: Un_ac)
qed simp

lemma overlap_bytes:
  "wf_lock a \<Longrightarrow> wf_lock b \<Longrightarrow> RangeLock_overlap_with a b \<noteq> None \<longleftrightarrow> bytes a \<inter> bytes b \<noteq> {}"
  by (auto simp: RangeLock_overlap_with_def FileRange_overlap_with_def bytes_def wf_lock_def
      atLeastLessThan_Int max_def min_def)

lemma conflict_iff:
  assumes "wf_lock a" "wf_lock b"
  shows "RangeLock_conflict_with a b \<longleftrightarrow>
    lk_owner a \<noteq> lk_owner b \<and> bytes a \<inter> bytes b \<noteq> {} \<and> (lk_type a = F_WRLCK \<or> lk_type b = F_WRLCK)"
  using overlap_bytes [OF assms] by (auto simp: RangeLock_conflict_with_def)

lemma conflict_covers:
  "RangeLock_conflict_with g r \<Longrightarrow> covers y g \<Longrightarrow> RangeLock_conflict_with y r"
  by (auto simp: RangeLock_conflict_with_def RangeLock_overlap_with_def FileRange_overlap_with_def covers_def
      split: if_splits)

lemma sleepers_blocked_covers:
  assumes "sleepers_blocked req L" "\<forall>y \<in> set L'. lk_waiters y = [] \<or> (\<exists>g \<in> set L. covers y g)"
  shows "sleepers_blocked req L'"
  unfolding sleepers_blocked_def
proof (intro ballI)
  fix y w assume y: "y \<in> set L'" "w \<in> set (lk_waiters y)"
  then obtain g where g: "g \<in> set L" "covers y g" using assms(2) by fastforce
  then have "w \<in> set (lk_waiters g)" using y(2) by (simp add: covers_def)
  then show "RangeLock_conflict_with y (req w)"
    using assms(1) g by (auto simp: sleepers_blocked_def intro: conflict_covers)
qed

text \<open>Blocks of the list that belong to one process.\<close>

lemma grouped_replace:
  assumes "grouped (as @ replicate (Suc m) p @ bs)" "p \<notin> set as" "p \<notin> set bs"
  shows "grouped (as @ replicate n p @ bs)"
proof -
  have drop: "dropWhile (\<lambda>q. q = p) (replicate n p @ bs) = bs" for n
    using assms(3) by (induction n) (auto simp: dropWhile_eq_self_iff intro: hd_in_set)
  have base: "grouped (replicate n p @ bs)" if "grouped bs" for n
    using that drop assms(3) by (induction n) auto
  show ?thesis using assms(1,2)
  proof (induction as)
    case Nil
    have "grouped bs" using Nil(1) by (induction m) auto
    from base [OF this] show ?case by simp
  next
    case (Cons a as)
    have ap: "a \<noteq> p" using Cons.prems by auto
    have "a \<notin> set (dropWhile (\<lambda>q. q = a) (as @ replicate n p @ bs))"
    proof (cases "\<forall>x \<in> set as. x = a")
      case True
      then have d: "dropWhile (\<lambda>q. q = a) (as @ xs) = dropWhile (\<lambda>q. q = a) xs" for xs
        by (intro dropWhile_append2) auto
      have "a \<notin> set bs" using Cons.prems(1) ap unfolding grouped.simps append_Cons d by simp
      then show ?thesis unfolding d using ap by (auto dest: set_dropWhileD)
    next
      case False
      then show ?thesis using Cons.prems ap by (auto simp: dropWhile_append1)
    qed
    then show ?case using Cons by simp
  qed
qed

lemma grouped_suffix: "grouped (xs @ ys) \<Longrightarrow> grouped ys"
  by (induction xs) auto

lemma grouped_split:
  assumes "grouped (map lk_owner L)" "list_position (\<lambda>lk. lk_owner lk = p) L = Some i"
  obtains A G B where "L = A @ G @ B" "length A = i" "G \<noteq> []" "\<forall>g \<in> set G. lk_owner g = p"
    "\<forall>a \<in> set A. lk_owner a \<noteq> p" "\<forall>b \<in> set B. lk_owner b \<noteq> p"
proof -
  from list_position_split [OF assms(2)] obtain A x zs where
    s: "L = A @ x # zs" "length A = i" "lk_owner x = p" "\<forall>a \<in> set A. lk_owner a \<noteq> p" by blast
  let ?G = "x # takeWhile (\<lambda>lk. lk_owner lk = p) zs" and ?B = "dropWhile (\<lambda>lk. lk_owner lk = p) zs"
  have "grouped (lk_owner x # map lk_owner zs)"
    using grouped_suffix [of "map lk_owner A" "map lk_owner (x # zs)"] assms(1) s(1) by simp
  then have "p \<notin> set (dropWhile (\<lambda>q. q = p) (map lk_owner zs))" unfolding grouped.simps s(3) by blast
  then have "p \<notin> set (map lk_owner ?B)" unfolding dropWhile_map comp_def .
  then have B: "\<forall>b \<in> set ?B. lk_owner b \<noteq> p" by force
  have G: "\<forall>g \<in> set ?G. lk_owner g = p" using s(3) set_takeWhileD by fastforce
  show ?thesis by (rule that [of A ?G ?B, OF _ s(2) _ G s(4) B]) (simp_all add: s(1))
qed

lemma map_owner_replicate: "\<forall>g \<in> set G. lk_owner g = p \<Longrightarrow> map lk_owner G = replicate (length G) p"
  by (induction G) auto

text \<open>Replacing the block of one process by another block of that process.\<close>

lemma list_rules_replace:
  assumes rules: "list_rules (A @ G @ B)" and ne: "G \<noteq> []" and G: "\<forall>g \<in> set G. lk_owner g = p"
    and A: "\<forall>a \<in> set A. lk_owner a \<noteq> p" and B: "\<forall>b \<in> set B. lk_owner b \<noteq> p"
    and R: "\<forall>r \<in> set R. lk_owner r = p" "\<forall>r \<in> set R. wf_lock r" "sorted_wrt before R"
  shows "list_rules (A @ R @ B)"
proof -
  let ?P = "\<lambda>a b. lk_owner a = lk_owner b \<longrightarrow> before a b"
  have "\<forall>x \<in> set (A @ R @ B). wf_lock x" using rules R(2) by (auto simp: list_rules_def)
  moreover have "sorted_wrt ?P (A @ R @ B)"
  proof -
    have ab: "sorted_wrt ?P A" "sorted_wrt ?P B" "\<forall>a \<in> set A. \<forall>b \<in> set B. ?P a b"
      using rules by (simp_all add: list_rules_def sorted_wrt_append)
    have r: "sorted_wrt ?P R" by (rule sorted_wrt_mono_rel [OF _ R(3)]) simp
    have "lk_owner a \<noteq> lk_owner r" if "a \<in> set A" "r \<in> set R" for a r
      using that A R(1) by metis
    moreover have "lk_owner r \<noteq> lk_owner b" if "r \<in> set R" "b \<in> set B" for r b
      using that B R(1) by metis
    ultimately have "\<forall>a \<in> set A. \<forall>r \<in> set R. ?P a r" "\<forall>r \<in> set R. \<forall>b \<in> set B. ?P r b"
      by blast+
    then show ?thesis using ab r unfolding sorted_wrt_append set_append by blast
  qed
  moreover have "grouped (map lk_owner (A @ R @ B))"
  proof -
    have "grouped (map lk_owner A @ replicate (Suc (length G - 1)) p @ map lk_owner B)"
      using rules ne map_owner_replicate [OF G] by (simp add: list_rules_def)
    then have "grouped (map lk_owner A @ replicate (length R) p @ map lk_owner B)"
      by (rule grouped_replace) (use A B in force)+
    then show ?thesis using map_owner_replicate [OF R(1)] by simp
  qed
  ultimately show ?thesis by (simp add: list_rules_def)
qed

lemma held_append [simp]: "held (xs @ ys) p x = held xs p x \<union> held ys p x"
  by (auto simp: held_def)

lemma held_other: "\<forall>a \<in> set xs. lk_owner a \<noteq> p \<Longrightarrow> held xs p x = {}"
  by (auto simp: held_def)

lemma held_own: "\<forall>g \<in> set G. lk_owner g = p \<Longrightarrow>
    t \<in> held G p x \<longleftrightarrow> (\<exists>g \<in> set G. lk_type g = t \<and> x \<in> bytes g)"
  by (auto simp: held_def)

lemma sorted_block:
  assumes "list_rules (A @ G @ B)" "\<forall>g \<in> set G. lk_owner g = p"
  shows "sorted_wrt before G" "\<forall>g \<in> set G. wf_lock g"
proof -
  have "sorted_wrt (\<lambda>a b. lk_owner a = lk_owner b \<longrightarrow> before a b) G" "\<forall>g \<in> set G. wf_lock g"
    using assms(1) by (auto simp: list_rules_def sorted_wrt_append)
  then show "\<forall>g \<in> set G. wf_lock g" "sorted_wrt before G"
    using assms(2) by (auto intro: sorted_wrt_mono_rel [where P = "\<lambda>a b. lk_owner a = lk_owner b \<longrightarrow> before a b"])
qed

definition set_spec :: "RangeLock \<Rightarrow> (pid_t \<Rightarrow> nat \<Rightarrow> RangeLockType set) \<Rightarrow> pid_t \<Rightarrow> nat \<Rightarrow> RangeLockType set" where
  "set_spec lock h p x = (if p = lk_owner lock \<and> x \<in> bytes lock then {lk_type lock} else h p x)"

definition clear_spec :: "RangeLock \<Rightarrow> (pid_t \<Rightarrow> nat \<Rightarrow> RangeLockType set) \<Rightarrow> pid_t \<Rightarrow> nat \<Rightarrow> RangeLockType set" where
  "clear_spec lock h p x = (if p = lk_owner lock \<and> x \<in> bytes lock then {} else h p x)"

text \<open>The queues after an operation: no sleeper is lost, and a queue survives only where it is covered.\<close>

definition queues_kept :: "RangeLockList \<Rightarrow> RangeLockList \<Rightarrow> waiter list \<Rightarrow> bool" where
  "queues_kept L L' woken \<longleftrightarrow>
     set woken \<union> sleepers L' = sleepers L \<and>
     (\<forall>y \<in> set L'. lk_waiters y = [] \<or> (\<exists>g \<in> set L. covers y g))"

lemma queues_kept_block:
  assumes "set w \<union> sleepers R = sleepers G" "\<forall>y \<in> set R. lk_waiters y = [] \<or> (\<exists>g \<in> set G. covers y g)"
  shows "queues_kept (A @ G @ B) (A @ R @ B) w"
proof -
  have "lk_waiters y = [] \<or> (\<exists>g \<in> set (A @ G @ B). covers y g)" if "y \<in> set (A @ R @ B)" for y
    using that assms(2) covers_refl by (auto simp del: covers_refl)
  moreover have "set w \<union> sleepers (A @ R @ B) = sleepers (A @ G @ B)" using assms(1) by auto
  ultimately show ?thesis unfolding queues_kept_def by blast
qed

lemma clone_wf [simp]: "wf_lock (RangeLock_clone lk) = wf_lock lk"
  and clone_bytes [simp]: "bytes (RangeLock_clone lk) = bytes lk"
  by (simp_all add: wf_lock_def bytes_def)

lemma insert_front:
  assumes rules: "list_rules L" and wf: "wf_lock lock" and no: "\<forall>a \<in> set L. lk_owner a \<noteq> lk_owner lock"
  shows "list_rules (RangeLock_clone lock # L)"
    "held (RangeLock_clone lock # L) = set_spec lock (held L)"
    "queues_kept L (RangeLock_clone lock # L) []"
proof -
  let ?c = "RangeLock_clone lock"
  have "lk_owner lock \<notin> set (map lk_owner L)" using no by force
  then have "lk_owner lock \<notin> set (dropWhile (\<lambda>q. q = lk_owner lock) (map lk_owner L))"
    by (meson set_dropWhileD)
  moreover have "\<forall>b \<in> set L. lk_owner lock = lk_owner b \<longrightarrow> before ?c b" using no by metis
  ultimately show "list_rules (?c # L)"
    using rules wf unfolding list_rules_def by simp
  show "held (?c # L) = set_spec lock (held L)"
  proof (intro ext)
    fix p x
    have "held (?c # L) p x = held [?c] p x \<union> held L p x" using held_append [of "[?c]" L p x] by simp
    moreover have "held [?c] p x = (if p = lk_owner lock \<and> x \<in> bytes lock then {lk_type lock} else {})"
      by (auto simp: held_def)
    ultimately show "held (?c # L) p x = set_spec lock (held L) p x"
      using held_other [OF no, of x] by (simp add: set_spec_def)
  qed
  have "\<forall>y \<in> set L. \<exists>g \<in> set L. covers y g" using covers_refl by blast
  then show "queues_kept L (?c # L) []" by (simp add: queues_kept_def)
qed

lemma insert_spec:
  assumes rules: "list_rules L" and wf: "wf_lock lock"
  obtains L' woken where "insert_lock_into_list L lock = Ok (L', woken)" "list_rules L'"
    "held L' = set_spec lock (held L)" "queues_kept L L' woken"
proof (cases "list_position (\<lambda>lk. lk_owner lk = lk_owner lock) L")
  case None
  then have no: "\<forall>a \<in> set L. lk_owner a \<noteq> lk_owner lock" by (simp add: list_position_None)
  show ?thesis
    by (rule that [OF _ insert_front [OF rules wf no]]) (simp add: insert_lock_into_list_def None)
next
  case (Some i)
  let ?c = "RangeLock_clone lock"
  obtain p where p: "lk_owner lock = p" by simp
  have gr: "grouped (map lk_owner L)" using rules by (simp add: list_rules_def)
  obtain A G B where s: "L = A @ G @ B" "length A = i" "G \<noteq> []" "\<forall>g \<in> set G. lk_owner g = p"
    "\<forall>a \<in> set A. lk_owner a \<noteq> p" "\<forall>b \<in> set B. lk_owner b \<noteq> p"
    by (rule grouped_split [OF gr Some [unfolded p]])
  note blk = sorted_block [OF rules [unfolded s(1)] s(4)]
  have cw: "wf_lock ?c" "lk_owner ?c = p" using wf p by simp_all
  have wfs: "\<forall>y \<in> set (G @ B). wf_lock y" using rules s(1) by (auto simp: list_rules_def)
  define R where "R = fst (bubble ?c G)"
  define w where "w = snd (bubble ?c G)"
  have ba: "bubble ?c (G @ B) = (R @ B, w)"
    unfolding R_def w_def using s(6) by (intro bubble_append [OF cw(2) s(4)]) (cases B; auto)
  have eq: "insert_lock_into_list L lock = Ok (A @ R @ B, w)"
    using insert_loop_bubble [OF cw(1) wfs, of A "[]"] ba
    unfolding insert_lock_into_list_def Some by (simp add: list_insert_def s(1) flip: s(2))
  have Ro: "\<forall>r \<in> set R. lk_owner r = p" unfolding R_def by (rule bubble_owner [OF cw(2) s(4)])
  have Rw: "\<forall>r \<in> set R. wf_lock r" unfolding R_def using bubble_wf [OF cw(1) blk(2)] by blast
  have Rs: "sorted_wrt before R" unfolding R_def by (rule bubble_sorted [OF cw(1) blk(2,1) cw(2) s(4)])
  have rules': "list_rules (A @ R @ B)"
    by (rule list_rules_replace [OF rules [unfolded s(1)] s(3-6) Ro Rw Rs])
  have held': "held (A @ R @ B) = set_spec lock (held L)"
  proof (intro ext)
    fix q x
    show "held (A @ R @ B) q x = set_spec lock (held L) q x"
    proof (cases "q = p")
      case True
      have "t \<in> held R p x \<longleftrightarrow> (if x \<in> bytes lock then t = lk_type lock else t \<in> held G p x)" for t
        unfolding held_own [OF Ro] held_own [OF s(4)]
        using bubble_held [OF cw(1) blk(2,1) cw(2) s(4), of t x, folded R_def]
        unfolding clone_simps clone_bytes .
      then have "held R p x = (if x \<in> bytes lock then {lk_type lock} else held G p x)"
        by (intro set_eqI) simp
      then show ?thesis
        unfolding True s(1) held_append held_other [OF s(5)] held_other [OF s(6)] set_spec_def p by simp
    next
      case False
      then have "\<forall>r \<in> set R. lk_owner r \<noteq> q" "\<forall>g \<in> set G. lk_owner g \<noteq> q" using Ro s(4) by simp_all
      note none = held_other [OF this(1)] held_other [OF this(2)]
      show ?thesis unfolding s(1) held_append none set_spec_def p using False by simp
    qed
  qed
  have "set w \<union> sleepers R = sleepers G" 
    using bubble_sleepers [of ?c G] unfolding R_def w_def sleepers_simps clone_simps list.set by blast
  moreover have "\<forall>y \<in> set R. lk_waiters y = [] \<or> (\<exists>g \<in> set G. covers y g)"
  proof -
    have "lk_waiters y = []" if "covers y ?c" for y using that by (simp add: covers_def)
    then show ?thesis using bubble_waiters [of ?c G] unfolding R_def by auto
  qed
  ultimately have "queues_kept L (A @ R @ B) w" unfolding s(1) by (rule queues_kept_block)
  then show ?thesis by (rule that [OF eq rules' held'])
qed

section \<open>Releasing\<close>

fun release :: "RangeLock \<Rightarrow> RangeLockList \<Rightarrow> RangeLockList \<times> waiter list" where
  "release lock [] = ([], [])"
| "release lock (lk # rest) =
     (if lk_owner lk \<noteq> lk_owner lock then consl lk (release lock rest)
      else if lk_start lock \<ge> lk_end lk \<or> lk_end lock \<le> lk_start lk then consl lk (release lock rest)
      else if lk_end lock < lk_end lk then
        (if lk_start lock \<le> lk_start lk then (cut_start lk (lk_end lock) # rest, lk_waiters lk)
         else (cut_end lk (lk_start lock) # cut_start lk (lk_end lock) # rest, lk_waiters lk))
      else if lk_start lock > lk_start lk
      then wakes (lk_waiters lk) (consl (cut_end lk (lk_start lock)) (release lock rest))
      else wakes (lk_waiters lk) (release lock rest))"

lemma unlock_loop_skip:
  assumes "lk_owner y \<noteq> lk_owner lock"
  shows "unlock_loop lock (xs @ y # ys) (length xs) w = unlock_loop lock (xs @ y # ys) (Suc (length xs)) w"
  unfolding unlock_loop.simps [of lock "xs @ y # ys" "length xs" w]
    unlock_loop.simps [of lock "xs @ y # ys" "Suc (length xs)" w]
  using assms by (cases "list_position (\<lambda>lk. lk_owner lk = lk_owner lock) ys") simp_all

lemma overlap_None: "RangeLock_overlap_with a b = None \<longleftrightarrow> lk_start a \<ge> lk_end b \<or> lk_end a \<le> lk_start b"
  by (simp add: RangeLock_overlap_with_def FileRange_overlap_with_def)

lemma unlock_loop_release:
  assumes "lk_start lock < lk_end lock" "\<forall>y \<in> set ys. wf_lock y"
  shows "unlock_loop lock (xs @ ys) (length xs) w = Ok (xs @ fst (release lock ys), w @ snd (release lock ys))"
  using assms
proof (induction ys arbitrary: xs w)
  case Nil
  then show ?case by (simp add: unlock_loop.simps)
next
  case (Cons y ys)
  have wf: "lk_start y < lk_end y" "\<forall>y \<in> set ys. wf_lock y" using Cons.prems by (auto simp: wf_lock_def)
  have skip: "unlock_loop lock (xs @ y' # ys) (Suc (length xs)) w' =
      Ok (xs @ y' # fst (release lock ys), w' @ snd (release lock ys))" for y' w'
    using Cons.IH [OF Cons.prems(1) wf(2), of "xs @ [y']" w'] by simp
  have drop: "unlock_loop lock (xs @ ys) (length xs) w' =
      Ok (xs @ fst (release lock ys), w' @ snd (release lock ys))" for w'
    using Cons.IH [OF Cons.prems(1) wf(2)] .
  note unfold = unlock_loop.simps [of lock "xs @ y # ys" "length xs" w]
  show ?case
  proof (cases "lk_owner y = lk_owner lock")
    case False
    then show ?thesis using unlock_loop_skip [OF False] skip [of y w] by simp
  next
    case own: True
    show ?thesis
    proof (cases "lk_start lock \<ge> lk_end y \<or> lk_end lock \<le> lk_start y")
      case True
      then have "RangeLock_overlap_with lock y = None" by (simp add: overlap_None)
      then show ?thesis using own True skip [of y w] by (simp add: unfold)
    next
      case False
      then have nd: "\<not> lk_end lock \<le> lk_start y" "\<not> lk_end y \<le> lk_start lock" by auto
      note ov = overlap_cases [OF nd]
      have "lk_start lock < lk_end lock" by (rule Cons.prems(1))
      then show ?thesis
        using own nd wf(1) skip drop set_start_cut [of y "lk_end lock"] set_end_cut [of y "lk_start lock"]
          set_start_cut [of "RangeLock_clone y" "lk_end lock"]
        by (simp add: unfold ov)
    qed
  qed
qed

lemma release_other: "\<forall>a \<in> set ys. lk_owner a \<noteq> lk_owner lock \<Longrightarrow> release lock ys = (ys, [])"
  by (induction ys) auto

lemma release_prefix:
  "\<forall>a \<in> set A. lk_owner a \<noteq> lk_owner lock \<Longrightarrow>
     release lock (A @ ys) = (A @ fst (release lock ys), snd (release lock ys))"
  by (induction A) auto

lemma release_suffix:
  assumes "\<forall>b \<in> set B. lk_owner b \<noteq> lk_owner lock"
  shows "release lock (G @ B) = (fst (release lock G) @ B, snd (release lock G))"
proof (induction G)
  case Nil
  then show ?case using release_other [OF assms] by simp
next
  case (Cons g G)
  then show ?case by simp
qed

definition part_of :: "RangeLock \<Rightarrow> RangeLock \<Rightarrow> bool" where
  "part_of y g \<longleftrightarrow> lk_owner y = lk_owner g \<and> lk_type y = lk_type g \<and>
     lk_start g \<le> lk_start y \<and> lk_end y \<le> lk_end g"

lemma part_of_refl [simp]: "part_of g g"
  by (simp add: part_of_def)

lemma before_part: "before a g \<Longrightarrow> part_of y g \<Longrightarrow> before a y"
  by (auto simp: before_def part_of_def)

lemma release_parts: "y \<in> set (fst (release lock G)) \<Longrightarrow> \<exists>g \<in> set G. part_of y g"
proof (induction G)
  case (Cons g G)
  have cut: "lk_start g < s \<Longrightarrow> part_of (cut_start g s) g" "e < lk_end g \<Longrightarrow> part_of (cut_end g e) g" for s e
    by (simp_all add: part_of_def)
  show ?case
    using Cons.prems Cons.IH cut(1) [of "lk_end lock"] cut(2) [of "lk_start lock"] part_of_refl [of y]
    by (auto split: if_splits simp del: part_of_refl)
qed simp

lemma release_wf:
  assumes "\<forall>g \<in> set G. wf_lock g" "y \<in> set (fst (release lock G))"
  shows "wf_lock y"
  using assms
proof (induction G)
  case (Cons g G)
  have wg: "wf_lock g" using Cons.prems by simp
  show ?case
    using Cons.prems Cons.IH wf_cut [OF wg] by (auto split: if_splits)
qed simp

lemma release_sorted:
  assumes "lk_start lock < lk_end lock" "sorted_wrt before G"
  shows "sorted_wrt before (fst (release lock G))"
  using assms
proof (induction G)
  case (Cons g G)
  have ih: "sorted_wrt before (fst (release lock G))" using Cons by simp
  have g: "\<forall>y \<in> set G. before g y" "sorted_wrt before G" using Cons.prems by simp_all
  have keep: "sorted_wrt before (g' # fst (release lock G))"
    if "lk_type g' = lk_type g" "lk_end g' \<le> lk_end g" for g'
  proof -
    have "before g' y" if y: "y \<in> set (fst (release lock G))" for y
    proof -
      obtain h where "h \<in> set G" "part_of y h" using release_parts [OF y] by blast
      then have "before g y" using g(1) before_part by blast
      then show ?thesis using \<open>lk_type g' = lk_type g\<close> \<open>lk_end g' \<le> lk_end g\<close> by (auto simp: before_def)
    qed
    then show ?thesis using ih by simp
  qed
  have tail: "sorted_wrt before (cut_start g s # G)" for s
    using g by (auto simp: before_def)
  have mid: "sorted_wrt before (cut_end g (lk_start lock) # cut_start g (lk_end lock) # G)"
    if "lk_end lock < lk_end g"
    using g Cons.prems(1) that by (auto simp: before_def)
  show ?case using ih keep tail mid by simp
qed simp

lemma release_held:
  assumes "lk_start lock < lk_end lock" "sorted_wrt before G" "lk_owner lock = p" "\<forall>g \<in> set G. lk_owner g = p"
  shows "(\<exists>y \<in> set (fst (release lock G)). lk_type y = t \<and> x \<in> bytes y) \<longleftrightarrow>
    x \<notin> bytes lock \<and> (\<exists>g \<in> set G. lk_type g = t \<and> x \<in> bytes g)"
  using assms
proof (induction G)
  case (Cons g G)
  have g: "\<forall>y \<in> set G. before g y" "lk_owner g = p" using Cons.prems by simp_all
  have ih: "(\<exists>y \<in> set (fst (release lock G)). lk_type y = t \<and> x \<in> bytes y) \<longleftrightarrow>
    x \<notin> bytes lock \<and> (\<exists>g \<in> set G. lk_type g = t \<and> x \<in> bytes g)"
    using Cons by simp
  have far: "x \<notin> bytes lock" if "lk_end lock < lk_end g" "y \<in> set G" "x \<in> bytes y" for y
    using that g(1) by (auto simp: before_def bytes_simps)
  consider (out) "lk_start lock \<ge> lk_end g \<or> lk_end lock \<le> lk_start g"
    | (left) "\<not> (lk_start lock \<ge> lk_end g \<or> lk_end lock \<le> lk_start g)" "lk_end lock < lk_end g"
        "lk_start lock \<le> lk_start g"
    | (mid) "\<not> (lk_start lock \<ge> lk_end g \<or> lk_end lock \<le> lk_start g)" "lk_end lock < lk_end g"
        "\<not> lk_start lock \<le> lk_start g"
    | (right) "\<not> (lk_start lock \<ge> lk_end g \<or> lk_end lock \<le> lk_start g)" "\<not> lk_end lock < lk_end g"
        "lk_start g < lk_start lock"
    | (incl) "\<not> (lk_start lock \<ge> lk_end g \<or> lk_end lock \<le> lk_start g)" "\<not> lk_end lock < lk_end g"
        "\<not> lk_start g < lk_start lock"
    by blast
  then show ?case
  proof cases
    case out
    then have e: "fst (release lock (g # G)) = g # fst (release lock G)" using g(2) Cons.prems(3) by simp
    have "\<not> (x \<in> bytes g \<and> x \<in> bytes lock)" using out by (auto simp: bytes_simps)
    then show ?thesis unfolding e using ih by auto
  next
    case left
    then have e: "fst (release lock (g # G)) = cut_start g (lk_end lock) # G" using g(2) Cons.prems(3) by simp
    have "x \<in> bytes (cut_start g (lk_end lock)) \<longleftrightarrow> x \<in> bytes g \<and> x \<notin> bytes lock"
      using left by (auto simp: bytes_simps)
    then show ?thesis unfolding e using far left by auto
  next
    case mid
    then have e: "fst (release lock (g # G)) = cut_end g (lk_start lock) # cut_start g (lk_end lock) # G"
      using g(2) Cons.prems(3) by simp
    have "x \<in> bytes (cut_end g (lk_start lock)) \<or> x \<in> bytes (cut_start g (lk_end lock)) \<longleftrightarrow>
        x \<in> bytes g \<and> x \<notin> bytes lock"
      using mid Cons.prems(1) by (auto simp: bytes_simps)
    then show ?thesis unfolding e using far mid by auto
  next
    case right
    then have e: "fst (release lock (g # G)) = cut_end g (lk_start lock) # fst (release lock G)"
      using g(2) Cons.prems(3) by simp
    have "x \<in> bytes (cut_end g (lk_start lock)) \<longleftrightarrow> x \<in> bytes g \<and> x \<notin> bytes lock"
      using right by (auto simp: bytes_simps)
    then show ?thesis unfolding e using ih by auto
  next
    case incl
    then have e: "fst (release lock (g # G)) = fst (release lock G)" using g(2) Cons.prems(3) by simp
    have "x \<in> bytes g \<Longrightarrow> x \<in> bytes lock" using incl by (auto simp: bytes_simps)
    then show ?thesis unfolding e using ih by auto
  qed
qed simp

lemma release_waiters:
  "\<forall>y \<in> set (fst (release lock G)). lk_waiters y = [] \<or> (\<exists>g \<in> set G. covers y g)"
proof (induction G)
  case (Cons g G)
  define K where "K y \<longleftrightarrow> lk_waiters y = [] \<or> (\<exists>h \<in> set (g # G). covers y h)" for y
  have K: "K y" if "y \<in> set (g # G)" for y
    unfolding K_def using that covers_refl by blast
  have ih: "\<forall>y \<in> set (fst (release lock G)). K y"
    using Cons.IH unfolding K_def by fastforce
  have "K (cut_start g s)" "K (cut_end g s)" for s by (simp_all add: K_def)
  then have "\<forall>y \<in> set (fst (release lock (g # G))). K y" using K ih by simp
  then show ?case unfolding K_def .
qed simp

lemma release_sleepers: "set (snd (release lock G)) \<union> sleepers (fst (release lock G)) = sleepers G"
proof (induction G)
  case (Cons g G)
  show ?case using Cons.IH by (simp add: Un_ac)
qed simp

lemma unlock_spec:
  assumes rules: "list_rules L" and ne: "lk_start lock < lk_end lock"
  obtains L' woken where "RangeLockList_unlock L lock = Ok (L', woken)" "list_rules L'"
    "held L' = clear_spec lock (held L)" "queues_kept L L' woken"
proof -
  have wfs: "\<forall>y \<in> set L. wf_lock y" using rules by (simp add: list_rules_def)
  have eq: "RangeLockList_unlock L lock = Ok (release lock L)"
    using unlock_loop_release [OF ne wfs, of "[]" "[]"] by (simp add: RangeLockList_unlock_def)
  obtain p where p: "lk_owner lock = p" by simp
  show ?thesis
  proof (cases "list_position (\<lambda>lk. lk_owner lk = p) L")
    case None
    then have no: "\<forall>a \<in> set L. lk_owner a \<noteq> p" by (simp add: list_position_None)
    then have r: "release lock L = (L, [])" using release_other [of L lock] p by simp
    have "held L = clear_spec lock (held L)"
      using held_other [OF no] p by (auto simp: clear_spec_def fun_eq_iff)
    moreover have "queues_kept L L []" using queues_kept_block [of "[]" "[]" "[]" L "[]"] by simp
    ultimately show ?thesis using that [of L "[]"] eq r rules by simp
  next
    case (Some i)
    have gr: "grouped (map lk_owner L)" using rules by (simp add: list_rules_def)
    obtain A G B where s: "L = A @ G @ B" "length A = i" "G \<noteq> []" "\<forall>g \<in> set G. lk_owner g = p"
      "\<forall>a \<in> set A. lk_owner a \<noteq> p" "\<forall>b \<in> set B. lk_owner b \<noteq> p"
      by (rule grouped_split [OF gr Some])
    note blk = sorted_block [OF rules [unfolded s(1)] s(4)]
    define R where "R = fst (release lock G)"
    define w where "w = snd (release lock G)"
    have r: "release lock L = (A @ R @ B, w)"
      unfolding s(1) R_def w_def
      using release_prefix [OF s(5) [folded p], of "G @ B"] release_suffix [OF s(6) [folded p], of G] by simp
    have Ro: "\<forall>r \<in> set R. lk_owner r = p"
    proof
      fix r assume "r \<in> set R"
      then obtain g where "g \<in> set G" "part_of r g" using release_parts unfolding R_def by blast
      then show "lk_owner r = p" using s(4) by (simp add: part_of_def)
    qed
    have Rw: "\<forall>r \<in> set R. wf_lock r" unfolding R_def using release_wf [OF blk(2)] by blast
    have Rs: "sorted_wrt before R" unfolding R_def by (rule release_sorted [OF ne blk(1)])
    have rules': "list_rules (A @ R @ B)"
      by (rule list_rules_replace [OF rules [unfolded s(1)] s(3-6) Ro Rw Rs])
    have held': "held (A @ R @ B) = clear_spec lock (held L)"
    proof (intro ext)
      fix q x
      show "held (A @ R @ B) q x = clear_spec lock (held L) q x"
      proof (cases "q = p")
        case True
        have "t \<in> held R p x \<longleftrightarrow> x \<notin> bytes lock \<and> t \<in> held G p x" for t
          unfolding held_own [OF Ro] held_own [OF s(4)]
          using release_held [OF ne blk(1) p s(4), of t x, folded R_def] .
        then have "held R p x = (if x \<in> bytes lock then {} else held G p x)"
          by (intro set_eqI) simp
        then show ?thesis
          unfolding True s(1) held_append held_other [OF s(5)] held_other [OF s(6)] clear_spec_def p by simp
      next
        case False
        then have "\<forall>r \<in> set R. lk_owner r \<noteq> q" "\<forall>g \<in> set G. lk_owner g \<noteq> q" using Ro s(4) by simp_all
        note none = held_other [OF this(1)] held_other [OF this(2)]
        show ?thesis unfolding s(1) held_append none clear_spec_def p using False by simp
      qed
    qed
    have "queues_kept L (A @ R @ B) w" unfolding s(1) R_def w_def
      by (rule queues_kept_block [OF release_sleepers release_waiters])
    then show ?thesis using that [of "A @ R @ B" w] eq r rules' held' by simp
  qed
qed

lemma no_conflict_held:
  assumes "\<forall>l \<in> set L. \<not> RangeLock_conflict_with l lock" "\<forall>l \<in> set L. wf_lock l" "wf_lock lock"
    and "x \<in> bytes lock" "q \<noteq> lk_owner lock" "t \<in> held L q x"
  shows "t \<noteq> F_WRLCK" "lk_type lock \<noteq> F_WRLCK"
proof -
  from assms(6) obtain l where l: "l \<in> set L" "lk_owner l = q" "x \<in> bytes l" "lk_type l = t"
    by (auto simp: held_def)
  then have "\<not> RangeLock_conflict_with l lock" "wf_lock l" using assms(1,2) by auto
  then have "\<not> (lk_type l = F_WRLCK \<or> lk_type lock = F_WRLCK)"
    using conflict_iff [OF _ assms(3), of l] l assms(4,5) by auto
  then show "t \<noteq> F_WRLCK" "lk_type lock \<noteq> F_WRLCK" using l(4) by auto
qed

lemma exclusive_set:
  assumes "exclusive L" "\<forall>l \<in> set L. \<not> RangeLock_conflict_with l lock" "\<forall>l \<in> set L. wf_lock l" "wf_lock lock"
    and "held L' = set_spec lock (held L)"
  shows "exclusive L'"
  unfolding exclusive_def
proof (intro allI impI)
  fix p q x assume pq: "p \<noteq> q" and w: "F_WRLCK \<in> held L' p x"
  note nc = no_conflict_held [OF assms(2-4), of x]
  show "held L' q x = {}"
  proof (cases "x \<in> bytes lock \<and> (p = lk_owner lock \<or> q = lk_owner lock)")
    case True
    show ?thesis
    proof (cases "p = lk_owner lock")
      case p: True
      then have "lk_type lock = F_WRLCK" using w True assms(5) by (simp add: set_spec_def)
      then have "held L q x = {}" using nc(2) [of q] p pq True by blast
      then show ?thesis using p pq assms(5) by (simp add: set_spec_def)
    next
      case p: False
      then have "F_WRLCK \<in> held L p x" using w assms(5) by (simp add: set_spec_def)
      then show ?thesis using nc(1) [of p] p True by blast
    qed
  next
    case False
    then have "held L' p x = held L p x" "held L' q x = held L q x" using assms(5) by (auto simp: set_spec_def)
    then show ?thesis using assms(1) pq w by (auto simp: exclusive_def)
  qed
qed

lemma exclusive_clear: "exclusive L \<Longrightarrow> held L' = clear_spec lock (held L) \<Longrightarrow> exclusive L'"
  by (auto simp: exclusive_def clear_spec_def split: if_splits)

lemma enqueue_spec:
  assumes "i < length L" "L' = L[i := RangeLock_enqueue_waiter (L ! i) w]"
  shows "list_rules L' = list_rules L" "held L' = held L" "sleepers L' = insert w (sleepers L)"
proof -
  obtain A l B where s: "L = A @ l # B" "length A = i" using id_take_nth_drop [OF assms(1)] assms(1)
    by (metis length_take min.absorb4 order_less_imp_le)
  have L': "L' = A @ RangeLock_enqueue_waiter l w # B"
    using s assms(2) by (simp add: nth_append list_update_append)
  have f: "lk_owner (RangeLock_enqueue_waiter l w) = lk_owner l" "lk_type (RangeLock_enqueue_waiter l w) = lk_type l"
    "lk_range (RangeLock_enqueue_waiter l w) = lk_range l" "lk_waiters (RangeLock_enqueue_waiter l w) = lk_waiters l @ [w]"
    by (simp_all add: RangeLock_enqueue_waiter_def)
  show "list_rules L' = list_rules L"
    by (simp add: L' s(1) list_rules_def sorted_wrt_append before_def wf_lock_def f)
  show "held L' = held L"
  proof (intro ext set_eqI)
    fix p x t
    show "t \<in> held L' p x \<longleftrightarrow> t \<in> held L p x"
      unfolding L' s(1) held_def by (simp add: bytes_def f image_iff Bex_def conj_disj_distribR ex_disj_distrib)
  qed
  show "sleepers L' = insert w (sleepers L)" by (auto simp: L' s(1) f)
qed

lemma set_lock_spec:
  assumes rules: "list_rules L" and wf: "wf_lock lock"
  shows "(\<exists>i l L'. i < length L \<and> l = L ! i \<and> RangeLock_conflict_with l lock \<and>
        L' = L[i := RangeLock_enqueue_waiter l w] \<and>
        RangeLockList_set_lock L lock nb w = Ok (if nb then Refused EAGAIN else Waiting L')) \<or>
    ((\<forall>l \<in> set L. \<not> RangeLock_conflict_with l lock) \<and>
     (\<exists>L' woken. RangeLockList_set_lock L lock nb w = Ok (Locked L' woken) \<and> list_rules L' \<and>
        held L' = set_spec lock (held L) \<and> queues_kept L L' woken))"
proof (cases "list_position (\<lambda>l. RangeLock_conflict_with l lock) L")
  case None
  obtain L' woken where s: "insert_lock_into_list L lock = Ok (L', woken)" "list_rules L'"
    "held L' = set_spec lock (held L)" "queues_kept L L' woken"
    by (rule insert_spec [OF rules wf])
  have "RangeLockList_set_lock L lock nb w = Ok (Locked L' woken)"
    by (simp add: RangeLockList_set_lock_def None s(1))
  then show ?thesis using s(2-4) None unfolding list_position_None by blast
next
  case (Some i)
  obtain A x B where s: "L = A @ x # B" "length A = i" "RangeLock_conflict_with x lock"
    using list_position_split [OF Some] by blast
  then have "i < length L" "RangeLock_conflict_with (L ! i) lock" by auto
  moreover have "RangeLockList_set_lock L lock nb w =
      Ok (if nb then Refused EAGAIN else Waiting (L[i := RangeLock_enqueue_waiter (L ! i) w]))"
    by (simp add: RangeLockList_set_lock_def Some)
  ultimately show ?thesis by blast
qed

lemma sleepers_blocked_enqueue:
  assumes "sleepers_blocked req L" "i < length L" "RangeLock_conflict_with (L ! i) (req w)"
  shows "sleepers_blocked req (L[i := RangeLock_enqueue_waiter (L ! i) w])"
  unfolding sleepers_blocked_def
proof (intro ballI)
  fix y v assume y: "y \<in> set (L[i := RangeLock_enqueue_waiter (L ! i) w])" "v \<in> set (lk_waiters y)"
  have c: "RangeLock_conflict_with (RangeLock_enqueue_waiter l w) r = RangeLock_conflict_with l r" for l r
    by (simp add: RangeLock_conflict_with_def RangeLock_overlap_with_def RangeLock_enqueue_waiter_def)
  have "y \<in> set L \<or> y = RangeLock_enqueue_waiter (L ! i) w" using y(1) set_update_subset_insert by fastforce
  then show "RangeLock_conflict_with y (req v)"
    using assms y(2) nth_mem [OF assms(2)] c
    by (auto simp: sleepers_blocked_def RangeLock_enqueue_waiter_def)
qed

section \<open>All processes together\<close>

text \<open>
  The lists a file can reach: any process sets and releases locks on non-empty ranges, and a
  thread whose request conflicts goes to sleep with a waiter of its own, \<open>req\<close> telling what it
  asked for.  Woken threads try again, which is another step.
\<close>

inductive lock_reach :: "(waiter \<Rightarrow> RangeLock) \<Rightarrow> RangeLockList \<Rightarrow> bool" for req where
  none: "lock_reach req []"
| locked: "lock_reach req L \<Longrightarrow> wf_lock lock \<Longrightarrow>
    RangeLockList_set_lock L lock nb w = Ok (Locked L' woken) \<Longrightarrow> lock_reach req L'"
| waiting: "lock_reach req L \<Longrightarrow> wf_lock (req w) \<Longrightarrow>
    RangeLockList_set_lock L (req w) nb w = Ok (Waiting L') \<Longrightarrow> lock_reach req L'"
| unlocked: "lock_reach req L \<Longrightarrow> lk_start lock < lk_end lock \<Longrightarrow>
    RangeLockList_unlock L lock = Ok (L', woken) \<Longrightarrow> lock_reach req L'"

inductive_cases lock_reachE: "lock_reach req L"

lemma lock_reach_inv:
  "lock_reach req L \<Longrightarrow> list_rules L \<and> exclusive L \<and> sleepers_blocked req L"
proof (induction rule: lock_reach.induct)
  case none
  then show ?case by (simp add: list_rules_def exclusive_def held_def sleepers_blocked_def)
next
  case (locked L lock nb w L' woken)
  have wfs: "\<forall>l \<in> set L. wf_lock l" using locked.IH by (simp add: list_rules_def)
  have s: "\<forall>l \<in> set L. \<not> RangeLock_conflict_with l lock" "list_rules L'"
    "held L' = set_spec lock (held L)" "queues_kept L L' woken"
    using set_lock_spec [OF conjunct1 [OF locked.IH] locked.hyps(2), of w nb] locked.hyps(3) by (auto split: if_splits)
  have "exclusive L'" using exclusive_set [OF _ s(1) wfs locked.hyps(2) s(3)] locked.IH by blast
  moreover have "sleepers_blocked req L'"
    using sleepers_blocked_covers [of req L L'] locked.IH s(4) by (simp add: queues_kept_def)
  ultimately show ?case using s(2) by blast
next
  case (waiting L w nb L')
  obtain i where i: "i < length L" "RangeLock_conflict_with (L ! i) (req w)"
    "L' = L[i := RangeLock_enqueue_waiter (L ! i) w]"
    using set_lock_spec [OF conjunct1 [OF waiting.IH] waiting.hyps(2), of w nb] waiting.hyps(3) by (auto split: if_splits)
  note e = enqueue_spec [OF i(1,3)]
  have "sleepers_blocked req L'" unfolding i(3) by (rule sleepers_blocked_enqueue) (use waiting.IH i in auto)
  then show ?case using waiting.IH by (simp add: e(1) exclusive_def e(2))
next
  case (unlocked L lock L' woken)
  obtain L2 w2 where u: "RangeLockList_unlock L lock = Ok (L2, w2)" "list_rules L2"
    "held L2 = clear_spec lock (held L)" "queues_kept L L2 w2"
    by (rule unlock_spec [OF conjunct1 [OF unlocked.IH] unlocked.hyps(2)])
  have eq: "L2 = L'" using u(1) unlocked.hyps(3) by simp
  have "sleepers_blocked req L2"
    using sleepers_blocked_covers [of req L L2] unlocked.IH u(4) by (simp add: queues_kept_def)
  then show ?case using u(2) exclusive_clear [OF _ u(3)] unlocked.IH eq by blast
qed

section \<open>Properties\<close>


definition ex_lock :: "pid_t \<Rightarrow> RangeLockType \<Rightarrow> usize \<Rightarrow> usize \<Rightarrow> RangeLock" where
  "ex_lock p t s e = \<lparr>lk_owner = p, lk_type = t, lk_range = \<lparr>fr_start = s, fr_end = e\<rparr>, lk_waiters = []\<rparr>"

lemmas range_lock_eval = ex_lock_def RangeLockList_set_lock_def insert_lock_into_list_def insert_loop.simps
  RangeLockList_unlock_def unlock_loop.simps RangeLock_conflict_with_def RangeLock_overlap_with_def
  FileRange_overlap_with_def RangeLock_enqueue_waiter_def RangeLock_clone_def RangeLock_merge_with_def
  FileRange_merge_def RangeLock_set_start_def RangeLock_set_end_def FileRange_set_start_def
  FileRange_set_end_def dequeue_and_wake_all_waiters_def list_insert_def list_swap_def list_remove_def


text \<open>
  C10: Setting a lock, on every branch.  If some lock conflicts, a non-blocking request is refused
  with \<open>EAGAIN\<close> and a blocking one goes to sleep without changing who holds what.  Otherwise the
  call succeeds without a panic: afterwards the process holds exactly the requested type on every
  byte of the range, whatever it held before, all other bytes and processes are as before, the
  rules of the list are kept, and no sleeping thread is lost.
\<close>

theorem set_lock_correct:
  assumes "list_rules L" "wf_lock lock"
  shows "if \<exists>l \<in> set L. RangeLock_conflict_with l lock
    then (if nb then RangeLockList_set_lock L lock nb w = Ok (Refused EAGAIN)
          else \<exists>L'. RangeLockList_set_lock L lock nb w = Ok (Waiting L') \<and> held L' = held L \<and>
            list_rules L' \<and> sleepers L' = insert w (sleepers L))
    else \<exists>L' woken. RangeLockList_set_lock L lock nb w = Ok (Locked L' woken) \<and> list_rules L' \<and>
      held L' = (\<lambda>p x. if p = lk_owner lock \<and> x \<in> bytes lock then {lk_type lock} else held L p x) \<and>
      set woken \<union> sleepers L' = sleepers L"
proof (cases "\<exists>l \<in> set L. RangeLock_conflict_with l lock")
  case True
  then obtain i where i: "i < length L"
    "RangeLockList_set_lock L lock nb w =
       Ok (if nb then Refused EAGAIN else Waiting (L[i := RangeLock_enqueue_waiter (L ! i) w]))"
    using set_lock_spec [OF assms, of w nb] by blast
  show ?thesis using True i enqueue_spec [OF i(1) refl, of w] assms(1) by (cases nb) simp_all
next
  case False
  then obtain L' woken where "RangeLockList_set_lock L lock nb w = Ok (Locked L' woken)" "list_rules L'"
    "held L' = set_spec lock (held L)" "queues_kept L L' woken"
    using set_lock_spec [OF assms, of w nb] nth_mem by blast
  then have "RangeLockList_set_lock L lock nb w = Ok (Locked L' woken) \<and> list_rules L' \<and>
      held L' = (\<lambda>p x. if p = lk_owner lock \<and> x \<in> bytes lock then {lk_type lock} else held L p x) \<and>
      set woken \<union> sleepers L' = sleepers L"
    by (auto simp: set_spec_def queues_kept_def fun_eq_iff)
  then show ?thesis using False by simp
qed

theorem set_lock_correct_witness:
  "\<exists>L' woken. RangeLockList_set_lock [ex_lock 1 F_RDLCK 0 10] (ex_lock 1 F_WRLCK 2 5) True 0 = Ok (Locked L' woken) \<and>
     held L' 1 3 = {F_WRLCK} \<and> held L' 1 7 = {F_RDLCK}"
proof -
  have "list_rules [ex_lock 1 F_RDLCK 0 10]" "wf_lock (ex_lock 1 F_WRLCK 2 5)"
    by (simp_all add: list_rules_def wf_lock_def ex_lock_def)
  note c = set_lock_correct [OF this, of True 0]
  have "\<not> (\<exists>l \<in> set [ex_lock 1 F_RDLCK 0 10]. RangeLock_conflict_with l (ex_lock 1 F_WRLCK 2 5))"
    by (simp add: RangeLock_conflict_with_def ex_lock_def)
  with c obtain L' woken where s: "RangeLockList_set_lock [ex_lock 1 F_RDLCK 0 10] (ex_lock 1 F_WRLCK 2 5) True 0 = Ok (Locked L' woken)"
    "held L' = (\<lambda>p x. if p = lk_owner (ex_lock 1 F_WRLCK 2 5) \<and> x \<in> bytes (ex_lock 1 F_WRLCK 2 5)
        then {lk_type (ex_lock 1 F_WRLCK 2 5)} else held [ex_lock 1 F_RDLCK 0 10] p x)"
    by auto
  have "held L' 1 3 = {F_WRLCK}" "held L' 1 7 = {F_RDLCK}"
    unfolding s(2) by (auto simp: ex_lock_def bytes_def held_def)
  then show ?thesis using s(1) by blast
qed

text \<open>
  C12: Releasing a range never panics; afterwards the process holds nothing on the bytes of the
  range, its locks are cut or split around it, all other bytes and processes are as before, the
  rules of the list are kept, and no sleeping thread is lost.
\<close>

theorem unlock_correct:
  assumes "list_rules L" "lk_start lock < lk_end lock"
  shows "\<exists>L' woken. RangeLockList_unlock L lock = Ok (L', woken) \<and> list_rules L' \<and>
    held L' = (\<lambda>p x. if p = lk_owner lock \<and> x \<in> bytes lock then {} else held L p x) \<and>
    set woken \<union> sleepers L' = sleepers L"
proof -
  obtain L' woken where "RangeLockList_unlock L lock = Ok (L', woken)" "list_rules L'"
    "held L' = clear_spec lock (held L)" "queues_kept L L' woken"
    by (rule unlock_spec [OF assms])
  then show ?thesis by (auto simp: clear_spec_def queues_kept_def fun_eq_iff)
qed

theorem unlock_correct_witness:
  "\<exists>L' woken. RangeLockList_unlock [(ex_lock 1 F_WRLCK 0 10)\<lparr>lk_waiters := [7]\<rparr>] (ex_lock 1 F_UNLCK 4 6) = Ok (L', woken) \<and>
     held L' 1 5 = {} \<and> held L' 1 8 = {F_WRLCK} \<and> set woken \<union> sleepers L' = {7}"
proof -
  have "list_rules [(ex_lock 1 F_WRLCK 0 10)\<lparr>lk_waiters := [7]\<rparr>]"
    "lk_start (ex_lock 1 F_UNLCK 4 6) < lk_end (ex_lock 1 F_UNLCK 4 6)"
    by (simp_all add: list_rules_def wf_lock_def ex_lock_def)
  from unlock_correct [OF this] obtain L' woken where
    s: "RangeLockList_unlock [(ex_lock 1 F_WRLCK 0 10)\<lparr>lk_waiters := [7]\<rparr>] (ex_lock 1 F_UNLCK 4 6) = Ok (L', woken)"
    "held L' = (\<lambda>p x. if p = lk_owner (ex_lock 1 F_UNLCK 4 6) \<and> x \<in> bytes (ex_lock 1 F_UNLCK 4 6)
       then {} else held [(ex_lock 1 F_WRLCK 0 10)\<lparr>lk_waiters := [7]\<rparr>] p x)"
    "set woken \<union> sleepers L' = sleepers [(ex_lock 1 F_WRLCK 0 10)\<lparr>lk_waiters := [7]\<rparr>]"
    by auto
  have "held L' 1 5 = {}" "held L' 1 8 = {F_WRLCK}"
    unfolding s(2) by (auto simp: ex_lock_def bytes_def held_def)
  then show ?thesis using s(1,3) by (intro exI [of _ L'] exI [of _ woken]) simp
qed

text \<open>
  C29: A range given by the caller in the C structure is turned into a range inside the file
  offsets, or refused: the start is not negative and the end is at most the largest offset; for
  every length but zero the range is not empty.
\<close>

theorem from_c_flock_bounds:
  assumes "from_c_flock_and_file c position file_size = Ok r"
    and "l_len c \<le> int OFFSET_MAX" "l_start c \<le> int OFFSET_MAX"
  shows "fr_start r \<le> fr_end r \<and> fr_end r \<le> OFFSET_MAX \<and> (l_len c \<noteq> 0 \<longrightarrow> fr_start r < fr_end r)"
proof -
  from assms(1) obtain s where
    p: "res_bind (RangeLockWhence_from_u16 (l_whence c)) (\<lambda>whence. case whence of
           SEEK_SET \<Rightarrow> Ok (l_start c)
         | SEEK_CUR \<Rightarrow> res_bind position (\<lambda>p. ok_or (off_t_checked_add p (l_start c)) EOVERFLOW)
         | SEEK_END \<Rightarrow> res_bind file_size (\<lambda>n. ok_or (off_t_checked_add (as_off_t n) (l_start c)) EOVERFLOW)) = Ok s"
    and q: "(if s < 0 then Err EINVAL
         else if l_len c > 0 then
           res_bind (ok_or (off_t_checked_add s (l_len c)) EOVERFLOW) (\<lambda>e.
             Ok \<lparr>fr_start = nat s, fr_end = nat e\<rparr>)
         else if l_len c = 0 then Ok \<lparr>fr_start = nat s, fr_end = OFFSET_MAX\<rparr>
         else let new_start = s + l_len c
           in if new_start < 0 then Err EINVAL else Ok \<lparr>fr_start = nat new_start, fr_end = nat s\<rparr>) = Ok r"
    unfolding from_c_flock_and_file_def by (rule res_bind_OkE)
  have ca: "x \<le> int OFFSET_MAX" if "ok_or (off_t_checked_add a b) EOVERFLOW = Ok x" for a b x
    using that by (simp add: off_t_checked_add_def split: if_splits)
  have s: "s \<le> int OFFSET_MAX"
    using p assms(3) ca by (auto elim!: res_bind_OkE split: RangeLockWhence.splits)
  have pos: "0 \<le> s" using q by (simp split: if_splits)
  show ?thesis
  proof (cases "l_len c > 0")
    case True
    then show ?thesis using q s pos by (auto simp: off_t_checked_add_def split: if_splits)
  next
    case False
    then show ?thesis using q s pos by (auto simp: Let_def split: if_splits)
  qed
qed

theorem from_c_flock_bounds_witness:
  "from_c_flock_and_file \<lparr>l_type = 1, l_whence = 1, l_start = 100, l_len = -20, l_pid = 0\<rparr> (Ok 50) (Ok 0) =
     Ok \<lparr>fr_start = 130, fr_end = 150\<rparr> \<and> (130 :: nat) < 150"
proof -
  let ?c = "\<lparr>l_type = 1, l_whence = 1, l_start = 100, l_len = -20, l_pid = 0\<rparr>"
  have c: "from_c_flock_and_file ?c (Ok 50) (Ok 0) = Ok \<lparr>fr_start = 130, fr_end = 150\<rparr>"
    by (simp add: from_c_flock_and_file_def RangeLockWhence_from_u16_def off_t_checked_add_def Let_def)
  from from_c_flock_bounds [OF c] c show ?thesis by simp
qed

text \<open>
  C28: Round trip of the report of a lock: the C structure that \<open>F_GETLK\<close> fills in for a lock
  describes, when it is read back, exactly the range of the lock, also for a lock to the end of
  the file, and it carries the lock's type and owner.
\<close>

theorem c_flock_roundtrip:
  assumes "lk_start lk < lk_end lk" "lk_end lk \<le> OFFSET_MAX" "lk_type lk \<noteq> F_UNLCK"
  shows "from_c_flock_and_file (copy_from_range_lock c lk) position file_size = Ok (lk_range lk) \<and>
    RangeLockType_from_u16 (l_type (copy_from_range_lock c lk)) = Ok (lk_type lk) \<and>
    l_pid (copy_from_range_lock c lk) = lk_owner lk"
proof -
  have ty: "RangeLockType_from_u16 (RangeLockType_as_u16 t) = Ok t" for t
    by (cases t) (simp_all add: RangeLockType_from_u16_def)
  have len: "FileRange_len (lk_range lk) = lk_end lk - lk_start lk"
    using assms(1) by (simp add: FileRange_len_def usub_no_wrap)
  have "from_c_flock_and_file (copy_from_range_lock c lk) position file_size =
      Ok \<lparr>fr_start = lk_start lk, fr_end = lk_end lk\<rparr>"
    using assms
    by (simp add: copy_from_range_lock_def Let_def from_c_flock_and_file_def RangeLockWhence_from_u16_def
        as_off_t_def len off_t_checked_add_def) linarith
  then show ?thesis using assms(3) ty by (simp add: copy_from_range_lock_def Let_def)
qed

theorem c_flock_roundtrip_witness:
  "from_c_flock_and_file (copy_from_range_lock \<lparr>l_type = 0, l_whence = 2, l_start = 7, l_len = 9, l_pid = 0\<rparr>
     (ex_lock 3 F_WRLCK 10 OFFSET_MAX)) (Ok 0) (Ok 0) = Ok \<lparr>fr_start = 10, fr_end = OFFSET_MAX\<rparr>"
  using c_flock_roundtrip [of "ex_lock 3 F_WRLCK 10 OFFSET_MAX"
      "\<lparr>l_type = 0, l_whence = 2, l_start = 7, l_len = 9, l_pid = 0\<rparr>" "Ok 0" "Ok 0"]
  by (simp add: ex_lock_def)

text \<open>
  Testing for a lock reports \<open>F_UNLCK\<close> exactly when the lock could be set now, and otherwise the
  owner, type and range of a lock of the list that conflicts with it.
\<close>

theorem test_lock_correct:
  assumes "lk_type lock \<noteq> F_UNLCK" "\<forall>l \<in> set L. lk_type l \<noteq> F_UNLCK"
  shows "(lk_type (test_lock L lock) = F_UNLCK \<longleftrightarrow> (\<forall>l \<in> set L. \<not> RangeLock_conflict_with lock l)) \<and>
    (lk_type (test_lock L lock) \<noteq> F_UNLCK \<longrightarrow>
      (\<exists>l \<in> set L. RangeLock_conflict_with lock l \<and> lk_owner (test_lock L lock) = lk_owner l \<and>
        lk_type (test_lock L lock) = lk_type l \<and> lk_range (test_lock L lock) = lk_range l))"
  unfolding test_lock_def using assms(2)
  by (induction L) auto

theorem test_lock_correct_witness:
  "lk_owner (test_lock [ex_lock 1 F_RDLCK 0 4, ex_lock 2 F_WRLCK 8 9] (ex_lock 3 F_RDLCK 0 20)) = 2 \<and>
   \<not> (\<forall>l \<in> set [ex_lock 1 F_RDLCK 0 4, ex_lock 2 F_WRLCK 8 9]. \<not> RangeLock_conflict_with (ex_lock 3 F_RDLCK 0 20) l)"
proof -
  let ?L = "[ex_lock 1 F_RDLCK 0 4, ex_lock 2 F_WRLCK 8 9]" and ?l = "ex_lock 3 F_RDLCK 0 20"
  have t: "test_lock ?L ?l = ex_lock 2 F_WRLCK 8 9" by (simp add: test_lock_def range_lock_eval)
  have "lk_type ?l \<noteq> F_UNLCK" "\<forall>l \<in> set ?L. lk_type l \<noteq> F_UNLCK" by (simp_all add: ex_lock_def)
  from test_lock_correct [OF this] t show ?thesis by (simp add: ex_lock_def)
qed

end
