(* ===== verification/VmPerms.thy ===== *)
theory VmPerms
  imports OcclumPrelude
begin

text \<open>
  Memory permissions (\<^verbatim>\<open>src/libos/src/vm/vm_perms.rs\<close>): a \<open>bitflags\<close> set over 32 bits.
  A value is the word of its bits; \<open>from_bits\<close> refuses words with a bit outside the declared flags.
\<close>

type_synonym VMPerms = "32 word"

definition PERM_NONE :: VMPerms where "PERM_NONE = 0"
definition PERM_READ :: VMPerms where "PERM_READ = 1"
definition PERM_WRITE :: VMPerms where "PERM_WRITE = 2"
definition PERM_EXEC :: VMPerms where "PERM_EXEC = 4"
definition PERM_DEFAULT :: VMPerms where "PERM_DEFAULT = PERM_READ OR PERM_WRITE"
definition PERM_ALL :: VMPerms where "PERM_ALL = PERM_DEFAULT OR PERM_EXEC"
definition PERM_GROWSDOWN :: VMPerms where "PERM_GROWSDOWN = 0x01000000"

lemmas perm_bits = PERM_NONE_def PERM_READ_def PERM_WRITE_def PERM_EXEC_def PERM_DEFAULT_def
  PERM_ALL_def PERM_GROWSDOWN_def

definition perms_contains :: "VMPerms \<Rightarrow> VMPerms \<Rightarrow> bool" where
  "perms_contains p q \<longleftrightarrow> p AND q = q"

definition perms_remove :: "VMPerms \<Rightarrow> VMPerms \<Rightarrow> VMPerms" where
  "perms_remove p q = p AND NOT q"

definition perms_from_bits :: "32 word \<Rightarrow> VMPerms option" where
  "perms_from_bits bits = (if bits AND NOT (PERM_ALL OR PERM_GROWSDOWN) = 0 then Some bits else None)"

definition VMPerms_from_u32 :: "32 word \<Rightarrow> VMPerms res" where
  "VMPerms_from_u32 bits =
     res_bind (ok_or (perms_from_bits bits) EINVAL) (\<lambda>perms.
       Ok (if perms \<noteq> PERM_NONE then perms OR PERM_READ else perms))"

definition can_read :: "VMPerms \<Rightarrow> bool" where
  "can_read p = perms_contains p PERM_READ"

definition can_write :: "VMPerms \<Rightarrow> bool" where
  "can_write p = perms_contains p PERM_WRITE"

definition can_execute :: "VMPerms \<Rightarrow> bool" where
  "can_execute p = perms_contains p PERM_EXEC"

definition perms_is_default :: "VMPerms \<Rightarrow> bool" where
  "perms_is_default p \<longleftrightarrow> p = PERM_DEFAULT"

definition perms_display :: "VMPerms \<Rightarrow> string" where
  "perms_display p =
     (if can_read p then ''r'' else ''-'') @ (if can_write p then ''w'' else ''-'') @
     (if can_execute p then ''x'' else ''-'')"

lemma contains_or: "perms_contains (p OR q) q"
  by (simp add: perms_contains_def bit_eq_iff bit_simps)

text \<open>
  C33: Whatever permission word a system call passes in, an accepted permission set is either empty
  or readable, as the SGX instructions require, keeps exactly the write, execute and grows-down bits
  that were asked for, and contains no undeclared bit.
\<close>

theorem perms_readable:
  assumes "VMPerms_from_u32 bits = Ok p"
  shows "(p = PERM_NONE \<or> can_read p) \<and> (p = PERM_NONE \<longleftrightarrow> bits = PERM_NONE) \<and>
    (can_write p \<longleftrightarrow> can_write bits) \<and> (can_execute p \<longleftrightarrow> can_execute bits) \<and>
    perms_from_bits p = Some p"
proof (cases "bits = PERM_NONE")
  case True
  then show ?thesis using assms by (simp add: VMPerms_from_u32_def perms_from_bits_def perm_bits)
next
  case False
  then have p: "p = bits OR PERM_READ" and b: "bits AND NOT (PERM_ALL OR PERM_GROWSDOWN) = 0"
    using assms by (auto simp: VMPerms_from_u32_def perms_from_bits_def split: if_splits)
  have ne: "p \<noteq> PERM_NONE" unfolding p by (simp add: perm_bits or_eq_0_iff)
  have w: "(bits OR 1) AND 2 = bits AND 2" "(bits OR 1) AND 4 = bits AND 4"
    by (simp_all add: bit.conj_disj_distrib2)
  have "p AND NOT (PERM_ALL OR PERM_GROWSDOWN) = 0"
    using b unfolding p by (simp add: bit.conj_disj_distrib2 perm_bits)
  then show ?thesis
    using ne False w by (auto simp: p can_read_def contains_or can_write_def can_execute_def
        perms_contains_def perms_from_bits_def PERM_WRITE_def PERM_EXEC_def PERM_READ_def)
qed

theorem perms_readable_witness:
  "VMPerms_from_u32 2 = Ok 3 \<and> can_read 3"
proof -
  have "VMPerms_from_u32 2 = Ok 3" by (simp add: VMPerms_from_u32_def perms_from_bits_def perm_bits)
  from perms_readable [OF this] this show ?thesis by (simp add: PERM_NONE_def)
qed

end
