(* ===== verification/PageTracker.thy ===== *)
theory PageTracker
  imports VmRange VmPerms
begin

text \<open>
  Tracking of committed enclave pages (\<^verbatim>\<open>src/libos/src/vm/page_tracker.rs\<close> and the part of
  \<^verbatim>\<open>src/libos/src/vm/vm_epc.rs\<close> that commits memory).  A tracker is a range with one bit per page.
  There are two levels: one tracker per memory area, and a global table of chunks of 1024 pages, in
  which the tracker of a chunk is dropped once all its pages are committed.  The enclave's dynamic
  memory interface is a parameter \<open>edmm\<close> that answers each call; the calls are logged.
  The lemmas show that both levels implement one set of committed pages.
\<close>

section \<open>Trackers\<close>

abbreviation PAGE_CHUNK_UNIT :: usize where
  "PAGE_CHUNK_UNIT \<equiv> 4194304"

abbreviation PAGE_CHUNK_PAGE_NUM :: nat where
  "PAGE_CHUNK_PAGE_NUM \<equiv> 1024"

datatype EPCMemType = Reserved | UserRegion

datatype TrackerType = GlobalTracker | VMATracker

record PageTracker =
  pt_type :: TrackerType
  pt_range :: VMRange
  pt_inner :: "bool list"
  pt_fully_committed :: bool

record GlobalPageChunk =
  gc_fully_committed :: bool
  gc_tracker :: "PageTracker option"

type_synonym page_chunks = "usize \<Rightarrow> GlobalPageChunk option"

definition GlobalPageChunk_new :: "PageTracker \<Rightarrow> GlobalPageChunk" where
  "GlobalPageChunk_new tracker = \<lparr>gc_fully_committed = False, gc_tracker = Some tracker\<rparr>"

definition get_page_chunk_start_addr :: "usize \<Rightarrow> usize" where
  "get_page_chunk_start_addr addr = align_down addr PAGE_CHUNK_UNIT"

definition is_committed :: "page_chunks \<Rightarrow> usize \<Rightarrow> bool res" where
  "is_committed chunks mem_addr =
     (let page_start_addr = align_down mem_addr PAGE_SIZE;
          page_chunk_start_addr = get_page_chunk_start_addr page_start_addr
      in case chunks page_chunk_start_addr of
           Some global_page_chunk \<Rightarrow>
             (case gc_tracker global_page_chunk of
                Some page_tracker \<Rightarrow>
                  (let page_id = usub page_start_addr page_chunk_start_addr div PAGE_SIZE
                   in if page_id < length (pt_inner page_tracker) then Ok (pt_inner page_tracker ! page_id)
                      else Panic)
              | None \<Rightarrow> Ok True)
         | None \<Rightarrow> Ok False)"

definition new_global_tracker :: "usize \<Rightarrow> PageTracker res" where
  "new_global_tracker start_addr =
     res_bind (VMRange_new_with_size start_addr PAGE_CHUNK_UNIT) (\<lambda>range.
       Ok \<lparr>pt_type = GlobalTracker, pt_range = range, pt_inner = replicate PAGE_CHUNK_PAGE_NUM False,
           pt_fully_committed = False\<rparr>)"

definition is_reserved_only :: "PageTracker \<Rightarrow> bool" where
  "is_reserved_only t \<longleftrightarrow> \<not> pt_fully_committed t \<and> \<not> list_ex id (pt_inner t)"

definition is_partially_committed :: "PageTracker \<Rightarrow> bool" where
  "is_partially_committed t \<longleftrightarrow> \<not> pt_fully_committed t \<and> list_ex id (pt_inner t)"

text \<open>Slices of the bit vector: filling and overwriting panic when they do not fit.\<close>

definition slice_fill :: "bool list \<Rightarrow> nat \<Rightarrow> nat \<Rightarrow> bool list res" where
  "slice_fill xs i n = (if i + n \<le> length xs then Ok (take i xs @ replicate n True @ drop (i + n) xs) else Panic)"

definition slice_get :: "bool list \<Rightarrow> nat \<Rightarrow> nat \<Rightarrow> bool list res" where
  "slice_get xs i n = (if i + n \<le> length xs then Ok (take n (drop i xs)) else Panic)"

definition slice_copy :: "bool list \<Rightarrow> nat \<Rightarrow> bool list \<Rightarrow> bool list res" where
  "slice_copy xs i ys =
     (if i + length ys \<le> length xs then Ok (take i xs @ ys @ drop (i + length ys) xs) else Panic)"

definition unwrap_res :: "'a res \<Rightarrow> 'a res" where
  "unwrap_res r = (case r of Ok x \<Rightarrow> Ok x | _ \<Rightarrow> Panic)"

definition commit_pages_common :: "PageTracker \<Rightarrow> usize \<Rightarrow> usize \<Rightarrow> PageTracker res" where
  "commit_pages_common t start_addr sz =
     res_bind (unwrap_res (VMRange_new_with_size start_addr sz)) (\<lambda>range.
       case VMRange_intersect (pt_range t) range of
         Some intersection_range \<Rightarrow>
           (let page_start_id = usub (r_start intersection_range) (r_start (pt_range t)) div PAGE_SIZE;
                page_num = VMRange_size intersection_range div PAGE_SIZE
            in res_bind (slice_fill (pt_inner t) page_start_id page_num) (\<lambda>inner.
                 Ok (t\<lparr>pt_inner := inner,
                       pt_fully_committed := (if list_all id inner then True else pt_fully_committed t)\<rparr>)))
       | None \<Rightarrow> Panic)"

definition set_committed_pages_for_vma_tracker :: "PageTracker \<Rightarrow> PageTracker \<Rightarrow> PageTracker res" where
  "set_committed_pages_for_vma_tracker global_tracker vma_tracker =
     (case VMRange_intersect (pt_range global_tracker) (pt_range vma_tracker) of
        Some intersection_range \<Rightarrow>
          (let vma_tracker_page_id =
                 usub (r_start intersection_range) (r_start (pt_range vma_tracker)) div PAGE_SIZE;
               global_tracker_page_id =
                 usub (r_start intersection_range) (r_start (pt_range global_tracker)) div PAGE_SIZE;
               page_num = VMRange_size intersection_range div PAGE_SIZE
           in res_bind (slice_get (pt_inner global_tracker) global_tracker_page_id page_num) (\<lambda>src.
                res_bind (slice_copy (pt_inner vma_tracker) vma_tracker_page_id src) (\<lambda>inner.
                  Ok (vma_tracker\<lparr>pt_inner := inner,
                        pt_fully_committed :=
                          (if list_all id inner then True else pt_fully_committed vma_tracker)\<rparr>))))
      | None \<Rightarrow> Panic)"

text \<open>The loops run over the start addresses of the chunks, as \<open>step_by(PAGE_CHUNK_UNIT)\<close> does.\<close>

function get_committed_loop ::
  "page_chunks \<Rightarrow> PageTracker \<Rightarrow> usize \<Rightarrow> usize \<Rightarrow> PageTracker res \<times> page_chunks" where
  "get_committed_loop chunks vma_tracker page_chunk_addr range_end =
     (if page_chunk_addr \<ge> range_end then (Ok vma_tracker, chunks)
      else case chunks page_chunk_addr of
        Some page_chunk \<Rightarrow>
          (case (if gc_fully_committed page_chunk
                 then commit_pages_common vma_tracker page_chunk_addr PAGE_CHUNK_UNIT
                 else res_bind (unwrap (gc_tracker page_chunk)) (\<lambda>global_tracker.
                   set_committed_pages_for_vma_tracker global_tracker vma_tracker)) of
             Ok vma_tracker' \<Rightarrow>
               get_committed_loop chunks vma_tracker' (page_chunk_addr + PAGE_CHUNK_UNIT) range_end
           | Err e \<Rightarrow> (Err e, chunks)
           | Panic \<Rightarrow> (Panic, chunks))
      | None \<Rightarrow>
          (case new_global_tracker page_chunk_addr of
             Ok global_page_tracker \<Rightarrow>
               get_committed_loop (chunks(page_chunk_addr \<mapsto> GlobalPageChunk_new global_page_tracker))
                 vma_tracker (page_chunk_addr + PAGE_CHUNK_UNIT) range_end
           | Err e \<Rightarrow> (Err e, chunks)
           | Panic \<Rightarrow> (Panic, chunks)))"
  by pat_completeness auto
termination
  by (relation "measure (\<lambda>(_, _, a, e). e - a)") auto

declare get_committed_loop.simps [simp del]

definition get_committed_pages_from_global_tracker ::
  "page_chunks \<Rightarrow> PageTracker \<Rightarrow> PageTracker res \<times> page_chunks" where
  "get_committed_pages_from_global_tracker chunks vma_tracker =
     get_committed_loop chunks vma_tracker (get_page_chunk_start_addr (r_start (pt_range vma_tracker)))
       (r_end (pt_range vma_tracker))"

definition new_vma_tracker ::
  "page_chunks \<Rightarrow> VMRange \<Rightarrow> EPCMemType \<Rightarrow> PageTracker res \<times> page_chunks" where
  "new_vma_tracker chunks vm_range epc_type =
     (let page_num = VMRange_size vm_range div PAGE_SIZE
      in case epc_type of
           UserRegion \<Rightarrow>
             (let t = \<lparr>pt_type = VMATracker, pt_range = vm_range, pt_inner = replicate page_num False,
                       pt_fully_committed = False\<rparr>
              in if page_num \<noteq> 0 then get_committed_pages_from_global_tracker chunks t else (Ok t, chunks))
         | Reserved \<Rightarrow>
             (Ok \<lparr>pt_type = VMATracker, pt_range = vm_range, pt_inner = replicate page_num True,
                  pt_fully_committed = True\<rparr>, chunks))"

function set_committed_loop ::
  "page_chunks \<Rightarrow> usize \<Rightarrow> usize \<Rightarrow> usize \<Rightarrow> usize \<Rightarrow> page_chunks res" where
  "set_committed_loop chunks commit_start_addr commit_size page_chunk_addr commit_end_addr =
     (if page_chunk_addr \<ge> commit_end_addr then Ok chunks
      else case chunks page_chunk_addr of
        None \<Rightarrow> Panic
      | Some page_chunk \<Rightarrow>
          (case gc_tracker page_chunk of
             None \<Rightarrow> set_committed_loop chunks commit_start_addr commit_size
                       (page_chunk_addr + PAGE_CHUNK_UNIT) commit_end_addr
           | Some global_page_tracker \<Rightarrow>
               (case commit_pages_common global_page_tracker commit_start_addr commit_size of
                  Ok global_tracker \<Rightarrow>
                    set_committed_loop
                      (chunks(page_chunk_addr \<mapsto>
                         (if pt_fully_committed global_tracker
                          then page_chunk\<lparr>gc_fully_committed := True, gc_tracker := None\<rparr>
                          else page_chunk\<lparr>gc_tracker := Some global_tracker\<rparr>)))
                      commit_start_addr commit_size (page_chunk_addr + PAGE_CHUNK_UNIT) commit_end_addr
                | Err e \<Rightarrow> Err e
                | Panic \<Rightarrow> Panic)))"
  by pat_completeness auto
termination
  by (relation "measure (\<lambda>(_, _, _, a, e). e - a)") auto

declare set_committed_loop.simps [simp del]

definition set_committed_pages_for_global_tracker :: "page_chunks \<Rightarrow> usize \<Rightarrow> usize \<Rightarrow> page_chunks res" where
  "set_committed_pages_for_global_tracker chunks commit_start_addr commit_size =
     set_committed_loop chunks commit_start_addr commit_size
       (get_page_chunk_start_addr commit_start_addr) (uadd commit_start_addr commit_size)"

text \<open>The scan of \<open>get_ranges\<close> with its two markers.\<close>

function get_ranges_loop ::
  "bool list \<Rightarrow> bool \<Rightarrow> usize \<Rightarrow> nat \<Rightarrow> nat option \<Rightarrow> nat option \<Rightarrow> VMRange list \<Rightarrow> VMRange list res" where
  "get_ranges_loop inner committed tracker_start_addr i st en ret =
     (if i \<ge> length inner then Ok ret
      else if inner ! i = committed then
        (case (st, en) of
           (None, None) \<Rightarrow>
             (if i = length inner - 1 then
                (case VMRange_new_with_size (uadd tracker_start_addr (i * PAGE_SIZE)) PAGE_SIZE of
                   Ok r \<Rightarrow> get_ranges_loop inner committed tracker_start_addr (i + 1) (Some i) (Some i) (ret @ [r])
                 | _ \<Rightarrow> Panic)
              else get_ranges_loop inner committed tracker_start_addr (i + 1) (Some i) (Some i) ret)
         | (Some s, Some e) \<Rightarrow>
             (if i = length inner - 1 then
                (case VMRange_new_with_size (uadd tracker_start_addr (s * PAGE_SIZE)) (PAGE_SIZE * (i - s + 1)) of
                   Ok r \<Rightarrow> get_ranges_loop inner committed tracker_start_addr (i + 1) (Some s) (Some i) (ret @ [r])
                 | _ \<Rightarrow> Panic)
              else get_ranges_loop inner committed tracker_start_addr (i + 1) (Some s) (Some i) ret)
         | _ \<Rightarrow> Panic)
      else
        (case (st, en) of
           (None, None) \<Rightarrow> get_ranges_loop inner committed tracker_start_addr (i + 1) None None ret
         | (Some s, Some e) \<Rightarrow>
             (case VMRange_new_with_size (uadd tracker_start_addr (s * PAGE_SIZE)) (PAGE_SIZE * (e - s + 1)) of
                Ok r \<Rightarrow> get_ranges_loop inner committed tracker_start_addr (i + 1) None None (ret @ [r])
              | _ \<Rightarrow> Panic)
         | _ \<Rightarrow> Panic))"
  by pat_completeness auto
termination
  by (relation "measure (\<lambda>(inner, _, _, i, _). length inner - i)") auto

declare get_ranges_loop.simps [simp del]

definition get_ranges :: "PageTracker \<Rightarrow> bool \<Rightarrow> VMRange list res" where
  "get_ranges t committed =
     (if pt_fully_committed t then Ok (if committed then [pt_range t] else [])
      else if is_reserved_only t then Ok (if committed then [] else [pt_range t])
      else get_ranges_loop (pt_inner t) committed (r_start (pt_range t)) 0 None None [])"

definition split_for_new_range :: "PageTracker \<Rightarrow> VMRange \<Rightarrow> PageTracker res" where
  "split_for_new_range t new_range =
     (let page_num = VMRange_size new_range div PAGE_SIZE;
          split_idx = usub (r_start new_range) (r_start (pt_range t)) div PAGE_SIZE
      in if split_idx > length (pt_inner t) then Panic
         else let inner = take page_num (drop split_idx (pt_inner t))
           in Ok (t\<lparr>pt_inner := inner,
                    pt_fully_committed := (if list_all id inner then True else pt_fully_committed t),
                    pt_range := new_range\<rparr>))"

section \<open>Committing memory\<close>

type_synonym byte = "8 word"

datatype edmm_call =
    EdmmCommit usize usize
  | EdmmCommitData usize "byte list" VMPerms
  | EdmmModifyPermissions usize usize VMPerms VMPerms
  | OcallMprotect usize usize VMPerms

text \<open>The global state: the table of page chunks, and the calls made to the enclave's memory interface.\<close>

record page_world =
  pw_chunks :: page_chunks
  pw_calls :: "edmm_call list"

definition edmm_do :: "(edmm_call \<Rightarrow> unit res) \<Rightarrow> edmm_call \<Rightarrow> 'w page_world_scheme \<Rightarrow> unit res \<times> 'w page_world_scheme" where
  "edmm_do edmm c w = (edmm c, w\<lparr>pw_calls := pw_calls w @ [c]\<rparr>)"

definition new_page_aligned_vec :: "usize \<Rightarrow> byte list" where
  "new_page_aligned_vec sz = replicate (sz div PAGE_SIZE * PAGE_SIZE) 0"

definition commit_memory ::
  "(edmm_call \<Rightarrow> unit res) \<Rightarrow> usize \<Rightarrow> usize \<Rightarrow> VMPerms option \<Rightarrow> 'w page_world_scheme \<Rightarrow> unit res \<times> 'w page_world_scheme" where
  "commit_memory edmm start_addr sz perms =
     (case perms of
        Some p \<Rightarrow>
          (if p \<noteq> PERM_DEFAULT then
             (if sz = PAGE_SIZE then edmm_do edmm (EdmmCommitData start_addr (replicate PAGE_SIZE 0) p)
              else edmm_do edmm (EdmmCommitData start_addr (new_page_aligned_vec sz) p))
           else edmm_do edmm (EdmmCommit start_addr sz))
      | None \<Rightarrow> edmm_do edmm (EdmmCommit start_addr sz))"

definition UserRegionMem_commit_memory_with_data ::
  "(edmm_call \<Rightarrow> unit res) \<Rightarrow> usize \<Rightarrow> byte list \<Rightarrow> VMPerms \<Rightarrow> 'w page_world_scheme \<Rightarrow> unit res \<times> 'w page_world_scheme" where
  "UserRegionMem_commit_memory_with_data edmm start_addr data new_perms =
     edmm_do edmm (EdmmCommitData start_addr data new_perms)"

definition commit_tracked ::
  "PageTracker \<Rightarrow> usize \<Rightarrow> usize \<Rightarrow> 'w page_world_scheme \<Rightarrow> PageTracker res \<times> 'w page_world_scheme" where
  "commit_tracked t s sz w =
     (case commit_pages_common t s sz of
        Ok t' \<Rightarrow>
          (case set_committed_pages_for_global_tracker (pw_chunks w) s sz of
             Ok chunks \<Rightarrow> (Ok t', w\<lparr>pw_chunks := chunks\<rparr>)
           | _ \<Rightarrow> (Panic, w))
      | _ \<Rightarrow> (Panic, w))"

definition commit_range ::
  "(edmm_call \<Rightarrow> unit res) \<Rightarrow> PageTracker \<Rightarrow> VMRange \<Rightarrow> VMPerms option \<Rightarrow> 'w page_world_scheme \<Rightarrow>
     PageTracker res \<times> 'w page_world_scheme" where
  "commit_range edmm t vr new_perms w =
     (case commit_memory edmm (r_start vr) (VMRange_size vr) new_perms w of
        (Ok _, w') \<Rightarrow> commit_tracked t (r_start vr) (VMRange_size vr) w'
      | (Err e, w') \<Rightarrow> (Err e, w')
      | (Panic, w') \<Rightarrow> (Panic, w'))"

definition commit_memory_with_data ::
  "(edmm_call \<Rightarrow> unit res) \<Rightarrow> PageTracker \<Rightarrow> VMRange \<Rightarrow> byte list \<Rightarrow> VMPerms \<Rightarrow> 'w page_world_scheme \<Rightarrow>
     PageTracker res \<times> 'w page_world_scheme" where
  "commit_memory_with_data edmm t vr data new_perms w =
     (case UserRegionMem_commit_memory_with_data edmm (r_start vr) data new_perms w of
        (Ok _, w') \<Rightarrow> commit_tracked t (r_start vr) (VMRange_size vr) w'
      | (Err e, w') \<Rightarrow> (Err e, w')
      | (Panic, w') \<Rightarrow> (Panic, w'))"

fun commit_each ::
  "(edmm_call \<Rightarrow> unit res) \<Rightarrow> VMPerms \<Rightarrow> VMRange list \<Rightarrow> 'w page_world_scheme \<Rightarrow> unit res \<times> 'w page_world_scheme" where
  "commit_each edmm perms [] w = (Ok (), w)"
| "commit_each edmm perms (r # rs) w =
     (case commit_memory edmm (r_start r) (VMRange_size r) (Some perms) w of
        (Ok _, w') \<Rightarrow> commit_each edmm perms rs w'
      | (_, w') \<Rightarrow> (Panic, w'))"

definition commit_whole ::
  "(edmm_call \<Rightarrow> unit res) \<Rightarrow> PageTracker \<Rightarrow> VMPerms \<Rightarrow> 'w page_world_scheme \<Rightarrow>
     PageTracker res \<times> 'w page_world_scheme" where
  "commit_whole edmm t perms w =
     (if pt_fully_committed t then (Ok t, w)
      else
        let (r, w') = (if is_reserved_only t then commit_each edmm perms [pt_range t] w
                       else case get_ranges t False of
                              Ok uncommitted_ranges \<Rightarrow> commit_each edmm perms uncommitted_ranges w
                            | _ \<Rightarrow> (Panic, w))
        in case r of
             Ok _ \<Rightarrow>
               (case set_committed_pages_for_global_tracker (pw_chunks w') (r_start (pt_range t)) (VMRange_size (pt_range t)) of
                  Ok chunks \<Rightarrow>
                    (Ok (t\<lparr>pt_inner := replicate (length (pt_inner t)) True, pt_fully_committed := True\<rparr>),
                     w'\<lparr>pw_chunks := chunks\<rparr>)
                | _ \<Rightarrow> (Panic, w'))
           | _ \<Rightarrow> (Panic, w'))"

section \<open>Pages as numbers\<close>

text \<open>
  The abstract view: a range stands for its page numbers, a tracker for the committed ones among
  them, and the global table for one set of committed page numbers.
\<close>

definition pg :: "usize \<Rightarrow> nat" where
  "pg a = a div PAGE_SIZE"

definition rpages :: "VMRange \<Rightarrow> nat set" where
  "rpages r = {pg (r_start r)..<pg (r_end r)}"

definition wf_range :: "VMRange \<Rightarrow> bool" where
  "wf_range r \<longleftrightarrow> page_aligned r \<and> range_ok r"

definition pt_pages :: "PageTracker \<Rightarrow> nat set" where
  "pt_pages t = {p \<in> rpages (pt_range t). pt_inner t ! (p - pg (r_start (pt_range t)))}"

definition pt_ok :: "PageTracker \<Rightarrow> bool" where
  "pt_ok t \<longleftrightarrow> wf_range (pt_range t) \<and>
     length (pt_inner t) = pg (r_end (pt_range t)) - pg (r_start (pt_range t)) \<and>
     (pt_fully_committed t \<longrightarrow> list_all id (pt_inner t)) \<and>
     (list_all id (pt_inner t) \<and> pt_inner t \<noteq> [] \<longrightarrow> pt_fully_committed t)"

definition gpages :: "page_chunks \<Rightarrow> nat set" where
  "gpages chunks = {p. \<exists>c. chunks (p div PAGE_CHUNK_PAGE_NUM * PAGE_CHUNK_UNIT) = Some c \<and>
     (case gc_tracker c of None \<Rightarrow> True | Some t \<Rightarrow> p \<in> pt_pages t)}"

definition chunk_ok :: "usize \<Rightarrow> GlobalPageChunk \<Rightarrow> bool" where
  "chunk_ok a c \<longleftrightarrow> a mod PAGE_CHUNK_UNIT = 0 \<and> a + PAGE_CHUNK_UNIT \<le> ADDR_LIMIT \<and>
     (gc_fully_committed c \<longleftrightarrow> gc_tracker c = None) \<and>
     (\<forall>t. gc_tracker c = Some t \<longrightarrow> pt_ok t \<and> pt_range t = mk_range a (a + PAGE_CHUNK_UNIT) \<and>
        \<not> pt_fully_committed t)"

definition chunks_ok :: "page_chunks \<Rightarrow> bool" where
  "chunks_ok chunks \<longleftrightarrow> (\<forall>a c. chunks a = Some c \<longrightarrow> chunk_ok a c)"

lemma div_diff_aligned: "(b :: nat) mod n = 0 \<Longrightarrow> b \<le> a \<Longrightarrow> 0 < n \<Longrightarrow> (a - b) div n = a div n - b div n"
proof -
  assume "b mod n = 0" "b \<le> a" "0 < n"
  then obtain k where "b = n * k" by auto
  moreover from this \<open>b \<le> a\<close> obtain d where "a = n * k + d" using le_Suc_ex by blast
  ultimately show ?thesis using \<open>0 < n\<close> by simp
qed

lemma rpages_intersect:
  assumes "VMRange_intersect r s = Some i"
  shows "rpages i = rpages r \<inter> rpages s"
proof -
  have "max a b div PAGE_SIZE = max (a div PAGE_SIZE) (b div PAGE_SIZE)"
    "min a b div PAGE_SIZE = min (a div PAGE_SIZE) (b div PAGE_SIZE)" for a b :: nat
    by (simp_all add: max_def min_def div_le_mono) (meson div_le_mono leD nat_le_linear order.antisym)+
  then show ?thesis
    using assms by (auto simp: VMRange_intersect_def VMRange_from_unchecked_def Let_def rpages_def
        atLeastLessThan_Int pg_def split: if_splits)
qed

lemma aligned_div_less: "(a :: nat) mod n = 0 \<Longrightarrow> b mod n = 0 \<Longrightarrow> a < b \<Longrightarrow> a div n < b div n"
  by (cases "n = 0") (auto simp: mod_eq_0_iff_dvd elim!: dvdE)

lemma rpages_Some:
  assumes "rpages r \<inter> rpages s \<noteq> {}"
  shows "\<exists>i. VMRange_intersect r s = Some i"
proof (rule ccontr)
  assume "\<not> ?thesis"
  then have "min (r_end r) (r_end s) \<le> max (r_start r) (r_start s)"
    by (auto simp: VMRange_intersect_def Let_def split: if_splits)
  then have "r_end r \<le> r_start r \<or> r_end r \<le> r_start s \<or> r_end s \<le> r_start r \<or> r_end s \<le> r_start s"
    by linarith
  moreover obtain p where "p \<in> rpages r" "p \<in> rpages s" using assms by blast
  then have "pg (r_start r) \<le> p" "p < pg (r_end r)"
    "pg (r_start s) \<le> p" "p < pg (r_end s)"
    by (simp_all add: rpages_def)
  moreover have "x \<le> y \<Longrightarrow> pg x \<le> pg y" for x y by (simp add: pg_def div_le_mono)
  ultimately show False by (meson leD le_trans)
qed

lemma wf_intersect:
  assumes "VMRange_intersect r s = Some i" "wf_range r" "page_aligned s"
  shows "wf_range i"
  using assms VMRange_intersect_Some [OF assms(1)] VMRange_intersect_aligned [OF assms(1)]
  by (auto simp: wf_range_def range_ok_def)

text \<open>Indexing a tracker with a page.\<close>

lemma page_index:
  assumes "VMRange_intersect r s = Some i" "wf_range r" "page_aligned s"
  shows "usub (r_start i) (r_start r) div PAGE_SIZE = pg (r_start i) - pg (r_start r)"
    "VMRange_size i div PAGE_SIZE = pg (r_end i) - pg (r_start i)"
    "pg (r_start r) \<le> pg (r_start i)" "pg (r_start i) < pg (r_end i)"
    "pg (r_end i) \<le> pg (r_end r)"
proof -
  note i = VMRange_intersect_Some [OF assms(1)] wf_intersect [OF assms]
  then have "page_aligned i" "range_ok i" by (auto simp: wf_range_def)
  then show "usub (r_start i) (r_start r) div PAGE_SIZE = pg (r_start i) - pg (r_start r)"
    "VMRange_size i div PAGE_SIZE = pg (r_end i) - pg (r_start i)"
    "pg (r_start r) \<le> pg (r_start i)" "pg (r_start i) < pg (r_end i)"
    "pg (r_end i) \<le> pg (r_end r)"
    using i assms(2) by (auto simp: usize_simps div_diff_aligned page_aligned_def wf_range_def VMRange_size_ok
        div_le_mono aligned_div_less pg_def)
qed

lemma nth_overwrite:
  assumes "i + length ys \<le> length xs" "j < length xs"
  shows "(take i xs @ ys @ drop (i + length ys) xs) ! j =
    (if i \<le> j \<and> j < i + length ys then ys ! (j - i) else xs ! j)"
  using assms by (auto simp: nth_append min_def)

lemma pt_ok_update:
  assumes "length inner = length (pt_inner t)" "pt_ok t" "list_all id (pt_inner t) \<Longrightarrow> list_all id inner"
  shows "pt_ok (t\<lparr>pt_inner := inner, pt_fully_committed := (if list_all id inner then True else pt_fully_committed t)\<rparr>)"
proof (cases "list_all id inner")
  case True
  then show ?thesis using assms(1,2) by (simp add: pt_ok_def)
next
  case False
  then have "\<not> pt_fully_committed t" using assms(2,3) unfolding pt_ok_def by blast
  then show ?thesis using False assms(1,2) by (simp add: pt_ok_def)
qed

lemma list_all_overwrite:
  assumes "list_all id xs"
  shows "list_all id (take i xs @ replicate n True @ drop m xs)"
  using assms by (auto simp: list_all_iff dest!: in_set_takeD in_set_dropD)

lemma commit_pages_common_spec:
  assumes t: "pt_ok t" and s: "page_aligned (mk_range s (s + sz))" "s + sz < USIZE_MOD"
    and meet: "rpages (pt_range t) \<inter> rpages (mk_range s (s + sz)) \<noteq> {}"
  obtains t' where "commit_pages_common t s sz = Ok t'" "pt_ok t'" "pt_range t' = pt_range t"
    "pt_pages t' = pt_pages t \<union> (rpages (pt_range t) \<inter> rpages (mk_range s (s + sz)))"
    "length (pt_inner t') = length (pt_inner t)" "pt_type t' = pt_type t"
proof -
  let ?R = "pt_range t" and ?S = "mk_range s (s + sz)"
  have n: "VMRange_new_with_size s sz = Ok ?S"
    using s by (simp add: VMRange_new_with_size_Ok_iff page_aligned_def)
  have wf: "wf_range ?R" using t by (simp add: pt_ok_def)
  then obtain i where i: "VMRange_intersect ?R ?S = Some i"
    using rpages_Some [OF meet] by blast
  note ix = page_index [OF i wf s(1)]
  let ?k = "pg (r_start i) - pg (r_start ?R)"
  let ?n = "pg (r_end i) - pg (r_start i)"
  let ?inner = "take ?k (pt_inner t) @ replicate ?n True @ drop (?k + ?n) (pt_inner t)"
  have fit: "?k + ?n \<le> length (pt_inner t)" using ix t by (simp add: pt_ok_def diff_le_mono)
  let ?t = "t\<lparr>pt_inner := ?inner,
    pt_fully_committed := (if list_all id ?inner then True else pt_fully_committed t)\<rparr>"
  have c: "commit_pages_common t s sz = Ok ?t"
    using n i fit by (simp add: commit_pages_common_def unwrap_res_def ix(1,2) slice_fill_def Let_def)
  have len: "length ?inner = length (pt_inner t)" using fit by simp
  have ok: "pt_ok ?t"
    by (rule pt_ok_update [OF len t list_all_overwrite])
  have "p \<in> pt_pages ?t \<longleftrightarrow> p \<in> pt_pages t \<union> rpages i" for p
  proof (cases "p \<in> rpages ?R")
    case True
    then have j: "p - pg (r_start ?R) < length (pt_inner t)" using t by (auto simp: pt_ok_def rpages_def)
    have "?inner ! (p - pg (r_start ?R)) =
      (if ?k \<le> p - pg (r_start ?R) \<and> p - pg (r_start ?R) < ?k + ?n then replicate ?n True ! (p - pg (r_start ?R) - ?k)
       else pt_inner t ! (p - pg (r_start ?R)))"
      using nth_overwrite [of ?k "replicate ?n True" "pt_inner t", OF _ j] fit by (simp only: length_replicate)
    moreover have "?k \<le> p - pg (r_start ?R) \<and> p - pg (r_start ?R) < ?k + ?n \<longleftrightarrow> p \<in> rpages i"
      using True ix(3-5) by (simp add: rpages_def) linarith
    moreover have "p - pg (r_start ?R) < ?k + ?n \<Longrightarrow> ?k \<le> p - pg (r_start ?R) \<Longrightarrow> replicate ?n True ! (p - pg (r_start ?R) - ?k)"
      by (subst nth_replicate) (linarith, simp)
    ultimately have "?inner ! (p - pg (r_start ?R)) \<longleftrightarrow> p \<in> rpages i \<or> pt_inner t ! (p - pg (r_start ?R))"
      by (metis (full_types))
    then show ?thesis using True by (auto simp: pt_pages_def)
  next
    case False
    then show ?thesis using rpages_intersect [OF i] by (auto simp: pt_pages_def)
  qed
  then have "pt_pages ?t = pt_pages t \<union> (rpages ?R \<inter> rpages ?S)"
    using rpages_intersect [OF i] by blast
  then show thesis using that [OF c ok] len by simp
qed

lemma slice_nth:
  assumes "i + n \<le> length xs" "j < n"
  shows "take n (drop i xs) ! j = xs ! (i + j)"
  using assms by (simp add: nth_append)

text \<open>
  Taking over the bits of a chunk: on the common pages the tracker of the area shows what the chunk
  shows, on all others nothing changes.
\<close>

lemma overwrite_pages:
  assumes t: "pt_ok t" and i: "VMRange_intersect r (pt_range t) = Some i" "wf_range r"
    and src: "length src = pg (r_end i) - pg (r_start i)"
  defines "k \<equiv> pg (r_start i) - pg (r_start (pt_range t))"
  defines "inner \<equiv> take k (pt_inner t) @ src @ drop (k + length src) (pt_inner t)"
  shows "k + length src \<le> length (pt_inner t)" "length inner = length (pt_inner t)"
    "{p \<in> rpages (pt_range t). inner ! (p - pg (r_start (pt_range t)))} =
       (pt_pages t - rpages i) \<union> {p \<in> rpages i. src ! (p - pg (r_start i))}"
proof -
  let ?R = "pt_range t"
  have wf: "wf_range ?R" "page_aligned r" using t i(2) by (auto simp: pt_ok_def wf_range_def)
  have i': "VMRange_intersect ?R r = Some i"
    using i(1) by (simp add: VMRange_intersect_def Let_def max.commute min.commute)
  note ix = page_index [OF i' wf]
  show fit: "k + length src \<le> length (pt_inner t)"
    using ix t by (simp add: k_def src pt_ok_def diff_le_mono)
  then show len: "length inner = length (pt_inner t)" by (simp add: inner_def)
  have "p \<in> rpages ?R \<Longrightarrow> inner ! (p - pg (r_start ?R)) =
    (if p \<in> rpages i then src ! (p - pg (r_start i)) else pt_inner t ! (p - pg (r_start ?R)))" for p
  proof -
    assume p: "p \<in> rpages ?R"
    then have j: "p - pg (r_start ?R) < length (pt_inner t)" using t by (auto simp: pt_ok_def rpages_def)
    have e: "k \<le> p - pg (r_start ?R) \<and> p - pg (r_start ?R) < k + length src \<longleftrightarrow> p \<in> rpages i"
      using p ix(3-5) src by (simp add: rpages_def k_def) linarith
    have d: "p - pg (r_start ?R) - k = p - pg (r_start i)" using ix(3) by (simp add: k_def)
    show ?thesis unfolding inner_def nth_overwrite [OF fit j] e d ..
  qed
  moreover have "rpages i \<subseteq> rpages ?R" using rpages_intersect [OF i(1)] by blast
  ultimately show "{p \<in> rpages ?R. inner ! (p - pg (r_start ?R))} =
       (pt_pages t - rpages i) \<union> {p \<in> rpages i. src ! (p - pg (r_start i))}"
    unfolding pt_pages_def by (auto split: if_splits)
qed

lemma pt_ok_replace:
  assumes "length inner = length (pt_inner t)" "pt_ok t" "\<not> pt_fully_committed t"
  shows "pt_ok (t\<lparr>pt_inner := inner, pt_fully_committed := (if list_all id inner then True else pt_fully_committed t)\<rparr>)"
  using assms by (simp add: pt_ok_def)

lemma set_for_vma_spec:
  assumes v: "pt_ok v" and g: "pt_ok g" and meet: "rpages (pt_range g) \<inter> rpages (pt_range v) \<noteq> {}"
    and nf: "\<not> pt_fully_committed v"
  obtains v' where "set_committed_pages_for_vma_tracker g v = Ok v'" "pt_ok v'" "pt_range v' = pt_range v"
    "pt_pages v' = (pt_pages v - rpages (pt_range g)) \<union> (pt_pages g \<inter> rpages (pt_range v))"
    "pt_type v' = pt_type v"
proof -
  obtain i where i: "VMRange_intersect (pt_range g) (pt_range v) = Some i" using rpages_Some [OF meet] by blast
  have wg: "wf_range (pt_range g)" "page_aligned (pt_range g)" and wv: "wf_range (pt_range v)" "page_aligned (pt_range v)"
    using v g by (auto simp: pt_ok_def wf_range_def)
  have i': "VMRange_intersect (pt_range v) (pt_range g) = Some i"
    using i by (simp add: VMRange_intersect_def Let_def max.commute min.commute)
  note ig = page_index [OF i wg(1) wv(2)] and iv = page_index [OF i' wv(1) wg(2)]
  let ?n = "pg (r_end i) - pg (r_start i)" and ?kg = "pg (r_start i) - pg (r_start (pt_range g))"
  let ?src = "take ?n (drop ?kg (pt_inner g))"
  have fg: "?kg + ?n \<le> length (pt_inner g)" using ig g by (simp add: pt_ok_def diff_le_mono)
  then have ls: "length ?src = ?n" by simp
  note o = overwrite_pages [OF v i wg(1) ls]
  let ?k = "pg (r_start i) - pg (r_start (pt_range v))"
  let ?inner = "take ?k (pt_inner v) @ ?src @ drop (?k + length ?src) (pt_inner v)"
  let ?v = "v\<lparr>pt_inner := ?inner, pt_fully_committed := (if list_all id ?inner then True else pt_fully_committed v)\<rparr>"
  have c: "set_committed_pages_for_vma_tracker g v = Ok ?v"
    unfolding set_committed_pages_for_vma_tracker_def i option.case Let_def ig(1,2) iv(1)
    using fg o(1) by (simp only: slice_get_def slice_copy_def if_True res_bind.simps)
  have ok: "pt_ok ?v" by (rule pt_ok_replace [OF o(2) v nf])
  have "p \<in> rpages i \<Longrightarrow> ?src ! (p - pg (r_start i)) \<longleftrightarrow> p \<in> pt_pages g" for p
  proof -
    assume p: "p \<in> rpages i"
    then have "?src ! (p - pg (r_start i)) = pt_inner g ! (?kg + (p - pg (r_start i)))"
      by (intro slice_nth [OF fg]) (auto simp: rpages_def)
    moreover have "?kg + (p - pg (r_start i)) = p - pg (r_start (pt_range g))"
      using ig(3) p by (simp add: rpages_def)
    ultimately show ?thesis using p rpages_intersect [OF i] by (auto simp: pt_pages_def)
  qed
  then have "pt_pages ?v = (pt_pages v - rpages i) \<union> {p \<in> rpages i. p \<in> pt_pages g}"
    using o(3) by (auto simp: pt_pages_def)
  then have "pt_pages ?v = (pt_pages v - rpages (pt_range g)) \<union> (pt_pages g \<inter> rpages (pt_range v))"
    using rpages_intersect [OF i] by (auto simp: pt_pages_def)
  then show thesis using that [OF c ok] by simp
qed

text \<open>Chunks and their pages.\<close>

lemma pg_chunk: "a mod PAGE_CHUNK_UNIT = 0 \<Longrightarrow> pg a = a div PAGE_CHUNK_UNIT * PAGE_CHUNK_PAGE_NUM"
  by (auto simp: pg_def elim!: dvdE)

lemma chunk_of_page:
  assumes "a mod PAGE_CHUNK_UNIT = 0"
  shows "p \<in> rpages (mk_range a (a + PAGE_CHUNK_UNIT)) \<longleftrightarrow> p div PAGE_CHUNK_PAGE_NUM * PAGE_CHUNK_UNIT = a"
proof -
  obtain k where a: "a = PAGE_CHUNK_UNIT * k" using assms by auto
  have "pg a = k * PAGE_CHUNK_PAGE_NUM" "pg (a + PAGE_CHUNK_UNIT) = k * PAGE_CHUNK_PAGE_NUM + PAGE_CHUNK_PAGE_NUM"
    by (simp_all add: a pg_def)
  then show ?thesis by (auto simp: rpages_def a)
qed

lemma pt_pages_fully:
  assumes "pt_ok t" "list_all id (pt_inner t)"
  shows "pt_pages t = rpages (pt_range t)"
  using assms by (auto simp: pt_pages_def pt_ok_def rpages_def list_all_length)

lemma gpages_update:
  assumes "a mod PAGE_CHUNK_UNIT = 0"
  shows "gpages (chunks(a \<mapsto> c)) = (gpages chunks - rpages (mk_range a (a + PAGE_CHUNK_UNIT))) \<union>
    (case gc_tracker c of None \<Rightarrow> rpages (mk_range a (a + PAGE_CHUNK_UNIT))
     | Some t \<Rightarrow> rpages (mk_range a (a + PAGE_CHUNK_UNIT)) \<inter> pt_pages t)"
proof (rule set_eqI)
  fix p
  show "p \<in> gpages (chunks(a \<mapsto> c)) \<longleftrightarrow> p \<in> (gpages chunks - rpages (mk_range a (a + PAGE_CHUNK_UNIT))) \<union>
    (case gc_tracker c of None \<Rightarrow> rpages (mk_range a (a + PAGE_CHUNK_UNIT))
     | Some t \<Rightarrow> rpages (mk_range a (a + PAGE_CHUNK_UNIT)) \<inter> pt_pages t)"
    using chunk_of_page [OF assms, of p]
    by (cases "p div PAGE_CHUNK_PAGE_NUM * PAGE_CHUNK_UNIT = a"; cases "gc_tracker c") (simp_all add: gpages_def)
qed

lemma gpages_chunk:
  assumes "chunks a = Some c" "a mod PAGE_CHUNK_UNIT = 0"
  shows "gpages chunks \<inter> rpages (mk_range a (a + PAGE_CHUNK_UNIT)) =
    (case gc_tracker c of None \<Rightarrow> rpages (mk_range a (a + PAGE_CHUNK_UNIT))
     | Some t \<Rightarrow> rpages (mk_range a (a + PAGE_CHUNK_UNIT)) \<inter> pt_pages t)"
  using assms by (auto simp: gpages_def chunk_of_page [OF assms(2)] split: option.splits)

lemma gpages_untracked:
  assumes "chunks a = None" "a mod PAGE_CHUNK_UNIT = 0"
  shows "gpages chunks \<inter> rpages (mk_range a (a + PAGE_CHUNK_UNIT)) = {}"
  using assms by (auto simp: gpages_def chunk_of_page [OF assms(2)])

lemma chunk_start:
  assumes "a < USIZE_MOD"
  shows "get_page_chunk_start_addr a = a div PAGE_CHUNK_UNIT * PAGE_CHUNK_UNIT"
proof -
  have "is_power_of_two PAGE_CHUNK_UNIT" by (auto simp: is_power_of_two_iff intro!: exI [of _ 22])
  then show ?thesis using assms by (simp add: get_page_chunk_start_addr_def align_down_eq minus_mod_eq_div_mult)
qed

lemma chunk_start_bounds:
  assumes "a < USIZE_MOD"
  shows "get_page_chunk_start_addr a mod PAGE_CHUNK_UNIT = 0" "get_page_chunk_start_addr a \<le> a"
    "a < get_page_chunk_start_addr a + PAGE_CHUNK_UNIT"
proof -
  have "a mod PAGE_CHUNK_UNIT < PAGE_CHUNK_UNIT" by simp
  then show "get_page_chunk_start_addr a mod PAGE_CHUNK_UNIT = 0" "get_page_chunk_start_addr a \<le> a"
    "a < get_page_chunk_start_addr a + PAGE_CHUNK_UNIT"
    unfolding chunk_start [OF assms] using div_mult_mod_eq [of a PAGE_CHUNK_UNIT] by (simp, linarith, linarith)
qed

text \<open>
  A chunk whose address lies inside a range has a page in common with it, if it is the first chunk of
  the range or a later one.
\<close>

lemma chunk_meets:
  assumes "a mod PAGE_CHUNK_UNIT = 0" "wf_range r" "r_start r < a + PAGE_CHUNK_UNIT" "a < r_end r" "r_start r < r_end r"
  shows "rpages (mk_range a (a + PAGE_CHUNK_UNIT)) \<inter> rpages r \<noteq> {}"
proof -
  have al: "a mod PAGE_SIZE = 0" "(a + PAGE_CHUNK_UNIT) mod PAGE_SIZE = 0"
    using assms(1) by (auto elim!: dvdE)
  have w: "r_start r mod PAGE_SIZE = 0" "r_end r mod PAGE_SIZE = 0"
    using assms(2) by (auto simp: wf_range_def page_aligned_def)
  have "pg a < pg (a + PAGE_CHUNK_UNIT)" "pg (r_start r) < pg (a + PAGE_CHUNK_UNIT)"
    "pg a < pg (r_end r)" "pg (r_start r) < pg (r_end r)"
    unfolding pg_def using al w assms(3-5) by (auto intro: aligned_div_less)
  then have "max (pg a) (pg (r_start r)) \<in> rpages (mk_range a (a + PAGE_CHUNK_UNIT)) \<inter> rpages r"
    by (auto simp: rpages_def)
  then show ?thesis by blast
qed

definition tracked_from :: "page_chunks \<Rightarrow> usize \<Rightarrow> usize \<Rightarrow> bool" where
  "tracked_from chunks a e \<longleftrightarrow> (\<forall>b. a \<le> b \<and> b < e \<and> b mod PAGE_CHUNK_UNIT = 0 \<longrightarrow> chunks b \<noteq> None)"

lemma tracked_from_step:
  "tracked_from chunks a e \<Longrightarrow> tracked_from (chunks(b \<mapsto> c)) (a + PAGE_CHUNK_UNIT) e"
  by (auto simp: tracked_from_def)

lemma chunk_ok_commit:
  assumes c: "chunk_ok a c" "gc_tracker c = Some t" and t': "pt_ok t'" "pt_range t' = pt_range t"
  shows "chunk_ok a (if pt_fully_committed t' then c\<lparr>gc_fully_committed := True, gc_tracker := None\<rparr>
     else c\<lparr>gc_tracker := Some t'\<rparr>)"
  using assms by (auto simp: chunk_ok_def)

lemma rpages_split:
  assumes "a mod PAGE_CHUNK_UNIT = 0"
  shows "{p. pg a \<le> p} = rpages (mk_range a (a + PAGE_CHUNK_UNIT)) \<union> {p. pg (a + PAGE_CHUNK_UNIT) \<le> p}"
  by (auto simp: rpages_def pg_def)

lemma set_committed_loop_spec:
  assumes "chunks_ok chunks" "a mod PAGE_CHUNK_UNIT = 0" "s < a + PAGE_CHUNK_UNIT"
    "wf_range (mk_range s e)" "sz = e - s" "s < e" "tracked_from chunks a e"
  shows "\<exists>chunks'. set_committed_loop chunks s sz a e = Ok chunks' \<and> chunks_ok chunks' \<and>
    gpages chunks' = gpages chunks \<union> (rpages (mk_range s e) \<inter> {p. pg a \<le> p}) \<and>
    dom chunks' = dom chunks"
  using assms
proof (induction chunks s sz a e rule: set_committed_loop.induct)
  case (1 chunks s sz a e)
  let ?A = "mk_range a (a + PAGE_CHUNK_UNIT)"
  have se: "mk_range s (s + sz) = mk_range s e" "s + sz = e" using 1 by auto
  have sm: "page_aligned (mk_range s (s + sz))" "s + sz < USIZE_MOD"
    using "1.prems"(4) unfolding se wf_range_def range_ok_def by auto
  have nx: "(a + PAGE_CHUNK_UNIT) mod PAGE_CHUNK_UNIT = 0" "s < a + PAGE_CHUNK_UNIT + PAGE_CHUNK_UNIT"
    using 1 by auto
  show ?case
  proof (cases "a \<ge> e")
    case True
    then have "rpages (mk_range s e) \<inter> {p. pg a \<le> p} = {}"
      by (auto simp: rpages_def pg_def dest: div_le_mono [of e a PAGE_SIZE])
    moreover have "set_committed_loop chunks s sz a e = Ok chunks"
      using True by (simp add: set_committed_loop.simps [of chunks s sz a e])
    ultimately show ?thesis using "1.prems"(1) by simp
  next
    case False
    then have "chunks a \<noteq> None" using 1 by (auto simp: tracked_from_def)
    then obtain c where c: "chunks a = Some c" by blast
    have co: "chunk_ok a c" using c 1 by (auto simp: chunks_ok_def)
    have meet: "rpages ?A \<inter> rpages (mk_range s e) \<noteq> {}"
      using chunk_meets [OF "1.prems"(2,4)] 1 False by simp
    note sp = rpages_split [OF "1.prems"(2)]
    show ?thesis
    proof (cases "gc_tracker c")
      case None
      have tr: "tracked_from chunks (a + PAGE_CHUNK_UNIT) e" using 1 by (auto simp: tracked_from_def)
      have all: "rpages ?A \<subseteq> gpages chunks" using gpages_chunk [of chunks a c] c 1 None by auto
      obtain chunks' where "set_committed_loop chunks s sz (a + PAGE_CHUNK_UNIT) e = Ok chunks'" "chunks_ok chunks'"
        "gpages chunks' = gpages chunks \<union> (rpages (mk_range s e) \<inter> {p. pg (a + PAGE_CHUNK_UNIT) \<le> p})"
        "dom chunks' = dom chunks"
        using "1.IH"(1) [OF False c None "1.prems"(1) nx "1.prems"(4-6) tr] by blast
      moreover have "set_committed_loop chunks s sz a e = set_committed_loop chunks s sz (a + PAGE_CHUNK_UNIT) e"
        using False c None by (simp add: set_committed_loop.simps [of chunks s sz a e])
      ultimately show ?thesis using all unfolding sp by auto
    next
      case (Some t)
      have t: "pt_ok t" "pt_range t = ?A" using co Some by (auto simp: chunk_ok_def)
      obtain t' where t': "commit_pages_common t s sz = Ok t'" "pt_ok t'" "pt_range t' = pt_range t"
        "pt_pages t' = pt_pages t \<union> (rpages ?A \<inter> rpages (mk_range s e))"
        using commit_pages_common_spec [OF t(1) sm] meet unfolding se t(2) by metis
      let ?c = "if pt_fully_committed t' then c\<lparr>gc_fully_committed := True, gc_tracker := None\<rparr>
          else c\<lparr>gc_tracker := Some t'\<rparr>"
      let ?m = "chunks(a \<mapsto> ?c)"
      have ok: "chunks_ok ?m"
        unfolding chunks_ok_def fun_upd_apply
        using chunk_ok_commit [OF co Some t'(2,3)] "1.prems"(1) unfolding chunks_ok_def by (metis option.inject)
      have full: "pt_fully_committed t' \<Longrightarrow> pt_pages t' = rpages ?A"
        using pt_pages_fully [OF t'(2)] t'(2,3) t(2) by (simp add: pt_ok_def)
      have sub: "pt_pages t' \<subseteq> rpages ?A" using t'(3) t(2) by (auto simp: pt_pages_def)
      have g: "gpages ?m = gpages chunks \<union> (rpages ?A \<inter> rpages (mk_range s e))"
        using gpages_update [OF "1.prems"(2), of chunks ?c] gpages_chunk [of chunks a c, OF c "1.prems"(2)] Some t'(4) full sub
        by (auto split: if_splits)
      have IH: "\<exists>chunks'. set_committed_loop ?m s sz (a + PAGE_CHUNK_UNIT) e = Ok chunks' \<and> chunks_ok chunks' \<and>
        gpages chunks' = gpages ?m \<union> (rpages (mk_range s e) \<inter> {p. pg (a + PAGE_CHUNK_UNIT) \<le> p}) \<and>
        dom chunks' = dom ?m"
        by (rule "1.IH"(2) [OF False c Some t'(1) ok nx "1.prems"(4-6) tracked_from_step [OF "1.prems"(7)]])
      then obtain chunks' where r: "set_committed_loop ?m s sz (a + PAGE_CHUNK_UNIT) e = Ok chunks'" "chunks_ok chunks'"
        "gpages chunks' = gpages ?m \<union> (rpages (mk_range s e) \<inter> {p. pg (a + PAGE_CHUNK_UNIT) \<le> p})"
        "dom chunks' = dom ?m" by blast
      have "set_committed_loop chunks s sz a e = Ok chunks'"
        using r(1) False c Some t'(1) by (simp add: set_committed_loop.simps [of chunks s sz a e])
      moreover have "dom chunks' = dom chunks" using r(4) c by auto
      moreover have "gpages chunks' = gpages chunks \<union> (rpages (mk_range s e) \<inter> {p. pg a \<le> p})"
        unfolding sp r(3) g by blast
      ultimately show ?thesis using r(2) by blast
    qed
  qed
qed


lemma set_committed_spec:
  assumes "chunks_ok chunks" "wf_range (mk_range s (s + sz))" "0 < sz"
    "tracked_from chunks (get_page_chunk_start_addr s) (s + sz)"
  obtains chunks' where "set_committed_pages_for_global_tracker chunks s sz = Ok chunks'" "chunks_ok chunks'"
    "gpages chunks' = gpages chunks \<union> rpages (mk_range s (s + sz))" "dom chunks' = dom chunks"
proof -
  let ?a = "get_page_chunk_start_addr s"
  have lim: "s + sz \<le> ADDR_LIMIT" using assms(2) by (simp add: wf_range_def range_ok_def)
  then have lt: "s < USIZE_MOD" "uadd s sz = s + sz" by (simp_all add: usize_simps)
  note b = chunk_start_bounds [OF lt(1)]
  have "rpages (mk_range s (s + sz)) \<inter> {p. pg ?a \<le> p} = rpages (mk_range s (s + sz))"
    using div_le_mono [OF b(2), of PAGE_SIZE] by (auto simp: rpages_def pg_def)
  then show thesis
    using set_committed_loop_spec [OF assms(1) b(1) b(3) assms(2) _ _ assms(4), of sz] assms(3) that
    by (auto simp: set_committed_pages_for_global_tracker_def lt)
qed

lemma new_global_tracker_spec:
  assumes "a mod PAGE_CHUNK_UNIT = 0" "a + PAGE_CHUNK_UNIT \<le> ADDR_LIMIT"
  obtains t where "new_global_tracker a = Ok t" "chunk_ok a (GlobalPageChunk_new t)" "pt_pages t = {}"
proof -
  let ?r = "mk_range a (a + PAGE_CHUNK_UNIT)"
  let ?t = "\<lparr>pt_type = GlobalTracker, pt_range = ?r, pt_inner = replicate PAGE_CHUNK_PAGE_NUM False,
    pt_fully_committed = False\<rparr>"
  have al: "a mod PAGE_SIZE = 0" "(a + PAGE_CHUNK_UNIT) mod PAGE_SIZE = 0"
    using assms(1) by (auto elim!: dvdE)
  have "new_global_tracker a = Ok ?t"
    using assms al by (simp add: new_global_tracker_def VMRange_new_with_size_def checked_add_def VMRange_new_def)
  moreover have len: "pg (a + PAGE_CHUNK_UNIT) - pg a = PAGE_CHUNK_PAGE_NUM" by (simp add: pg_def)
  have "\<not> list_all id (replicate PAGE_CHUNK_PAGE_NUM False)"
    by (auto simp: list_all_length intro!: exI [of _ 0])
  then have "pt_ok ?t"
    using al assms(2) len by (simp add: pt_ok_def wf_range_def page_aligned_def range_ok_def)
  moreover have "pt_pages ?t = {}"
    using len by (auto simp: pt_pages_def rpages_def)
  ultimately show thesis
    using assms by (intro that [of ?t]) (simp_all add: chunk_ok_def GlobalPageChunk_new_def)
qed

lemma chunk_room: "a mod PAGE_CHUNK_UNIT = 0 \<Longrightarrow> a < e \<Longrightarrow> e \<le> ADDR_LIMIT \<Longrightarrow> a + PAGE_CHUNK_UNIT \<le> ADDR_LIMIT"
  by (auto elim!: dvdE)

lemma pg_mono: "a \<le> b \<Longrightarrow> pg a \<le> pg b"
  by (simp add: pg_def div_le_mono)

lemma pg_chunk_next: "a mod PAGE_CHUNK_UNIT = 0 \<Longrightarrow> pg a < pg (a + PAGE_CHUNK_UNIT)"
  by (simp add: pg_def)

lemma chunk_aligned:
  "a mod PAGE_CHUNK_UNIT = 0 \<Longrightarrow> page_aligned (mk_range a (a + PAGE_CHUNK_UNIT))"
  by (auto simp: page_aligned_def elim!: dvdE)

text \<open>One chunk is taken over into the tracker of an area.\<close>

lemma take_over_chunk:
  assumes m: "chunks_ok chunks" "chunks a = Some c" and v: "pt_ok v" "pt_pages v \<inter> rpages (mk_range a (a + PAGE_CHUNK_UNIT)) = {}"
    and meet: "rpages (mk_range a (a + PAGE_CHUNK_UNIT)) \<inter> rpages (pt_range v) \<noteq> {}"
  obtains v' where "(if gc_fully_committed c then commit_pages_common v a PAGE_CHUNK_UNIT
      else res_bind (unwrap (gc_tracker c)) (\<lambda>g. set_committed_pages_for_vma_tracker g v)) = Ok v'"
    "pt_ok v'" "pt_range v' = pt_range v"
    "pt_pages v' = pt_pages v \<union> (gpages chunks \<inter> rpages (pt_range v) \<inter> rpages (mk_range a (a + PAGE_CHUNK_UNIT)))"
proof -
  let ?A = "mk_range a (a + PAGE_CHUNK_UNIT)"
  have co: "chunk_ok a c" using m by (simp add: chunks_ok_def)
  then have am: "a mod PAGE_CHUNK_UNIT = 0" "a + PAGE_CHUNK_UNIT < USIZE_MOD" by (auto simp: chunk_ok_def)
  note gc = gpages_chunk [of chunks a c, OF m(2) am(1)]
  show thesis
  proof (cases "gc_tracker c")
    case None
    then have f: "gc_fully_committed c" using co by (simp add: chunk_ok_def)
    obtain v' where "commit_pages_common v a PAGE_CHUNK_UNIT = Ok v'" "pt_ok v'" "pt_range v' = pt_range v"
      "pt_pages v' = pt_pages v \<union> (rpages (pt_range v) \<inter> rpages ?A)"
      using commit_pages_common_spec [OF v(1) chunk_aligned [OF am(1)] am(2)] meet by (metis Int_commute)
    then show thesis using that f gc None by auto
  next
    case (Some g)
    then have g: "\<not> gc_fully_committed c" "pt_ok g" "pt_range g = ?A" using co by (auto simp: chunk_ok_def)
    have nf: "\<not> pt_fully_committed v"
      using pt_pages_fully [OF v(1)] v meet by (auto simp: pt_ok_def)
    obtain v' where "set_committed_pages_for_vma_tracker g v = Ok v'" "pt_ok v'" "pt_range v' = pt_range v"
      "pt_pages v' = (pt_pages v - rpages ?A) \<union> (pt_pages g \<inter> rpages (pt_range v))"
      using set_for_vma_spec [OF v(1) g(2) _ nf] meet unfolding g(3) by metis
    moreover have "pt_pages g \<subseteq> rpages ?A" using g(3) by (auto simp: pt_pages_def)
    ultimately show thesis using that Some g(1) gc v(2) by auto
  qed
qed

lemma get_committed_loop_spec:
  assumes "chunks_ok chunks" "pt_ok v" "a mod PAGE_CHUNK_UNIT = 0" "r_start (pt_range v) < a + PAGE_CHUNK_UNIT"
    "r_start (pt_range v) < e" "e = r_end (pt_range v)" "pt_pages v \<inter> {p. pg a \<le> p} = {}"
  shows "\<exists>v' chunks'. get_committed_loop chunks v a e = (Ok v', chunks') \<and> chunks_ok chunks' \<and> pt_ok v' \<and>
    pt_range v' = pt_range v \<and> pt_pages v' = pt_pages v \<union> (gpages chunks \<inter> rpages (pt_range v) \<inter> {p. pg a \<le> p}) \<and>
    gpages chunks' = gpages chunks \<and> tracked_from chunks' a e \<and> dom chunks \<subseteq> dom chunks'"
  using assms
proof (induction chunks v a e rule: get_committed_loop.induct)
  case (1 chunks v a e)
  let ?A = "mk_range a (a + PAGE_CHUNK_UNIT)"
  note unf = get_committed_loop.simps [of chunks v a e]
  note sp = rpages_split [OF "1.prems"(3)]
  have nx: "(a + PAGE_CHUNK_UNIT) mod PAGE_CHUNK_UNIT = 0"
    "r_start (pt_range v) < a + PAGE_CHUNK_UNIT + PAGE_CHUNK_UNIT" using "1.prems" by auto
  have dj: "pt_pages v \<inter> rpages ?A = {}" "pt_pages v \<inter> {p. pg (a + PAGE_CHUNK_UNIT) \<le> p} = {}"
    using "1.prems"(7) unfolding sp by auto
  have tr: "tracked_from m a e" if "tracked_from m (a + PAGE_CHUNK_UNIT) e" "a \<in> dom m" for m
    unfolding tracked_from_def
  proof (intro allI impI)
    fix b
    assume b: "a \<le> b \<and> b < e \<and> b mod PAGE_CHUNK_UNIT = 0"
    then have "b = a \<or> a + PAGE_CHUNK_UNIT \<le> b" using "1.prems"(3) by (auto elim!: dvdE)
    then show "m b \<noteq> None" using that b by (auto simp: tracked_from_def)
  qed
  show ?case
  proof (cases "a \<ge> e")
    case True
    then have "rpages (pt_range v) \<inter> {p. pg a \<le> p} = {}"
      using pg_mono [OF True] "1.prems"(6) by (auto simp: rpages_def)
    moreover have "tracked_from chunks a e" using True by (auto simp: tracked_from_def)
    ultimately show ?thesis using True "1.prems"(1,2) unf by auto
  next
    case False
    have wf: "wf_range (pt_range v)" using "1.prems"(2) by (simp add: pt_ok_def)
    have lim: "a + PAGE_CHUNK_UNIT \<le> ADDR_LIMIT"
      using chunk_room [OF "1.prems"(3), of e] False wf "1.prems"(6) by (simp add: wf_range_def range_ok_def)
    have meet: "rpages ?A \<inter> rpages (pt_range v) \<noteq> {}"
      using chunk_meets [OF "1.prems"(3) wf "1.prems"(4)] False "1.prems"(5,6) by simp
    show ?thesis
    proof (cases "chunks a")
      case None
      obtain t where t: "new_global_tracker a = Ok t" "chunk_ok a (GlobalPageChunk_new t)" "pt_pages t = {}"
        by (rule new_global_tracker_spec [OF "1.prems"(3) lim])
      let ?m = "chunks(a \<mapsto> GlobalPageChunk_new t)"
      have ok: "chunks_ok ?m" using t(2) "1.prems"(1) by (simp add: chunks_ok_def)
      have g: "gpages ?m = gpages chunks"
        using gpages_update [OF "1.prems"(3), of chunks "GlobalPageChunk_new t"] gpages_untracked [of chunks a, OF None "1.prems"(3)] t(3)
        by (auto simp: GlobalPageChunk_new_def)
      from "1.IH"(1) [OF False None t(1) ok "1.prems"(2) nx "1.prems"(5,6) dj(2)]
      obtain v' m' where r: "get_committed_loop ?m v (a + PAGE_CHUNK_UNIT) e = (Ok v', m')" "chunks_ok m'" "pt_ok v'"
        "pt_range v' = pt_range v"
        "pt_pages v' = pt_pages v \<union> (gpages ?m \<inter> rpages (pt_range v) \<inter> {p. pg (a + PAGE_CHUNK_UNIT) \<le> p})"
        "gpages m' = gpages ?m" "tracked_from m' (a + PAGE_CHUNK_UNIT) e" "dom ?m \<subseteq> dom m'" by blast
      have e: "get_committed_loop chunks v a e = (Ok v', m')" using r(1) False None t(1) unf by simp
      have "gpages chunks \<inter> rpages ?A = {}" by (rule gpages_untracked [of chunks a, OF None "1.prems"(3)])
      then have "pt_pages v' = pt_pages v \<union> (gpages chunks \<inter> rpages (pt_range v) \<inter> {p. pg a \<le> p})"
        unfolding r(5) g sp by blast
      moreover have "tracked_from m' a e" "dom chunks \<subseteq> dom m'" using tr [OF r(7)] r(8) by auto
      ultimately show ?thesis using e r(2-4,6) g by blast
    next
      case (Some c)
      obtain v1 where v1: "(if gc_fully_committed c then commit_pages_common v a PAGE_CHUNK_UNIT
          else res_bind (unwrap (gc_tracker c)) (\<lambda>g. set_committed_pages_for_vma_tracker g v)) = Ok v1"
        "pt_ok v1" "pt_range v1 = pt_range v"
        "pt_pages v1 = pt_pages v \<union> (gpages chunks \<inter> rpages (pt_range v) \<inter> rpages ?A)"
        by (rule take_over_chunk [OF "1.prems"(1) Some "1.prems"(2) dj(1) meet])
      have dj1: "pt_pages v1 \<inter> {p. pg (a + PAGE_CHUNK_UNIT) \<le> p} = {}"
        using dj(2) unfolding v1(4) by (auto simp: rpages_def)
      from "1.IH"(2) [OF False Some v1(1) "1.prems"(1) v1(2) nx(1), unfolded v1(3), OF nx(2) "1.prems"(5,6) dj1]
      obtain v' m' where r: "get_committed_loop chunks v1 (a + PAGE_CHUNK_UNIT) e = (Ok v', m')" "chunks_ok m'" "pt_ok v'"
        "pt_range v' = pt_range v"
        "pt_pages v' = pt_pages v1 \<union> (gpages chunks \<inter> rpages (pt_range v) \<inter> {p. pg (a + PAGE_CHUNK_UNIT) \<le> p})"
        "gpages m' = gpages chunks" "tracked_from m' (a + PAGE_CHUNK_UNIT) e" "dom chunks \<subseteq> dom m'" by blast
      have e: "get_committed_loop chunks v a e = (Ok v', m')" using r(1) False Some v1(1) unf by simp
      have "pt_pages v' = pt_pages v \<union> (gpages chunks \<inter> rpages (pt_range v) \<inter> {p. pg a \<le> p})"
        unfolding r(5) v1(4) sp by blast
      moreover have "tracked_from m' a e" by (rule tr [OF r(7)]) (use r(8) Some in blast)
      ultimately show ?thesis using e r(2-4,6,8) by blast
    qed
  qed
qed


lemma wf_range_size: "wf_range r \<Longrightarrow> VMRange_size r div PAGE_SIZE = pg (r_end r) - pg (r_start r)"
  by (simp add: wf_range_def page_aligned_def VMRange_size_ok pg_def div_diff_aligned range_ok_def)

lemma wf_range_nonempty: "wf_range r \<Longrightarrow> r_start r < r_end r \<Longrightarrow> pg (r_start r) < pg (r_end r)"
  by (simp add: wf_range_def page_aligned_def pg_def aligned_div_less)

lemma new_vma_tracker_spec:
  assumes "chunks_ok chunks" "wf_range r" "r_start r < r_end r"
  obtains v chunks' where "new_vma_tracker chunks r UserRegion = (Ok v, chunks')" "chunks_ok chunks'" "pt_ok v"
    "pt_range v = r" "pt_pages v = gpages chunks \<inter> rpages r" "gpages chunks' = gpages chunks"
    "tracked_from chunks' (get_page_chunk_start_addr (r_start r)) (r_end r)" "dom chunks \<subseteq> dom chunks'"
proof -
  let ?n = "VMRange_size r div PAGE_SIZE" and ?a = "get_page_chunk_start_addr (r_start r)"
  define t where "t = \<lparr>pt_type = VMATracker, pt_range = r, pt_inner = replicate ?n False, pt_fully_committed = False\<rparr>"
  note n = wf_range_size [OF assms(2)] wf_range_nonempty [OF assms(2,3)]
  have lt: "r_start r < USIZE_MOD" using assms(2,3) by (simp add: wf_range_def range_ok_def)
  note b = chunk_start_bounds [OF lt]
  have tr: "pt_range t = r" by (simp add: t_def)
  have "\<not> list_all id (replicate ?n False)" using n by (auto simp: list_all_length intro!: exI [of _ 0])
  then have ok: "pt_ok t" using assms(2) n(1) by (simp add: pt_ok_def t_def)
  have e: "pt_pages t = {}" using n(1) by (auto simp: pt_pages_def rpages_def t_def)
  have sub: "rpages r \<subseteq> {p. pg ?a \<le> p}" using pg_mono [OF b(2)] by (auto simp: rpages_def)
  have "new_vma_tracker chunks r UserRegion = get_committed_loop chunks t ?a (r_end r)"
    using n by (simp add: new_vma_tracker_def get_committed_pages_from_global_tracker_def t_def)
  moreover have "\<exists>v' chunks'. get_committed_loop chunks t ?a (r_end r) = (Ok v', chunks') \<and> chunks_ok chunks' \<and> pt_ok v' \<and>
    pt_range v' = r \<and> pt_pages v' = {} \<union> (gpages chunks \<inter> rpages r \<inter> {p. pg ?a \<le> p}) \<and>
    gpages chunks' = gpages chunks \<and> tracked_from chunks' ?a (r_end r) \<and> dom chunks \<subseteq> dom chunks'"
    by (rule get_committed_loop_spec [OF assms(1) ok b(1), unfolded tr e, OF b(3) assms(3) refl]) simp
  moreover have "{} \<union> (gpages chunks \<inter> rpages r \<inter> {p. pg ?a \<le> p}) = gpages chunks \<inter> rpages r" using sub by blast
  ultimately show thesis using that by metis
qed

section \<open>Ranges of committed pages\<close>

definition run :: "usize \<Rightarrow> nat \<Rightarrow> nat \<Rightarrow> VMRange" where
  "run b s n = mk_range (b + s * PAGE_SIZE) (b + (s + n) * PAGE_SIZE)"

definition runs_ok :: "usize \<Rightarrow> bool list \<Rightarrow> bool \<Rightarrow> nat \<Rightarrow> VMRange list \<Rightarrow> bool" where
  "runs_ok b inner c j rs \<longleftrightarrow>
     \<Union> (rpages ` set rs) = {p. \<exists>k. j \<le> k \<and> k < length inner \<and> inner ! k = c \<and> p = pg b + k} \<and>
     sorted_wrt (\<lambda>r r'. r_end r < r_start r') rs \<and>
     (\<forall>r \<in> set rs. wf_range r \<and> r_start r < r_end r \<and> b + j * PAGE_SIZE \<le> r_start r)"

lemma new_run:
  assumes "b mod PAGE_SIZE = 0" "b + (s + n) * PAGE_SIZE \<le> ADDR_LIMIT"
  shows "VMRange_new_with_size (uadd b (s * PAGE_SIZE)) (PAGE_SIZE * n) = Ok (run b s n)"
proof -
  have "b + s * PAGE_SIZE < USIZE_MOD" using assms(2) by simp
  moreover have "(b + s * PAGE_SIZE) mod PAGE_SIZE = 0" "(b + s * PAGE_SIZE + PAGE_SIZE * n) mod PAGE_SIZE = 0"
    using assms(1) by (simp_all add: mod_eq_0_iff_dvd dvd_add)
  ultimately show ?thesis
    using assms(2) by (simp add: VMRange_new_with_size_Ok_iff usize_simps run_def algebra_simps)
qed

lemma rpages_run: "b mod PAGE_SIZE = 0 \<Longrightarrow> rpages (run b s n) = {pg b + s..<pg b + (s + n)}"
  by (auto simp: rpages_def run_def pg_def elim!: dvdE)

lemma wf_run: "b mod PAGE_SIZE = 0 \<Longrightarrow> b + (s + n) * PAGE_SIZE \<le> ADDR_LIMIT \<Longrightarrow> wf_range (run b s n)"
  by (auto simp: wf_range_def page_aligned_def range_ok_def run_def mod_eq_0_iff_dvd dvd_add)

lemma runs_ok_Nil: "length inner \<le> j \<Longrightarrow> runs_ok b inner c j []"
  by (simp add: runs_ok_def)

lemma runs_ok_skip:
  assumes "runs_ok b inner c (Suc j) rs" "j < length inner" "inner ! j \<noteq> c"
  shows "runs_ok b inner c j rs"
proof -
  have "(\<exists>k. j \<le> k \<and> k < length inner \<and> inner ! k = c \<and> p = pg b + k) \<longleftrightarrow>
    (\<exists>k. Suc j \<le> k \<and> k < length inner \<and> inner ! k = c \<and> p = pg b + k)" for p
    using assms(3) by (metis Suc_leD Suc_leI le_neq_implies_less)
  then show ?thesis using assms(1) by (fastforce simp: runs_ok_def)
qed

lemma runs_ok_Cons:
  assumes b: "b mod PAGE_SIZE = 0" "b + length inner * PAGE_SIZE \<le> ADDR_LIMIT"
    and s: "0 < n" "s + n \<le> length inner" "\<forall>k. s \<le> k \<and> k < s + n \<longrightarrow> inner ! k = c"
    and stop: "s + n < length inner \<Longrightarrow> inner ! (s + n) \<noteq> c"
    and rs: "runs_ok b inner c (Suc (s + n)) rs"
  shows "runs_ok b inner c s (run b s n # rs)"
proof -
  have lim: "b + (s + n) * PAGE_SIZE \<le> ADDR_LIMIT"
    using b(2) s(2) mult_le_mono1 [OF s(2), of PAGE_SIZE] by linarith
  have "(\<exists>k. s \<le> k \<and> k < length inner \<and> inner ! k = c \<and> p = pg b + k) \<longleftrightarrow>
    (pg b + s \<le> p \<and> p < pg b + (s + n)) \<or> (\<exists>k. Suc (s + n) \<le> k \<and> k < length inner \<and> inner ! k = c \<and> p = pg b + k)" for p
  proof
    assume "\<exists>k. s \<le> k \<and> k < length inner \<and> inner ! k = c \<and> p = pg b + k"
    then obtain k where k: "s \<le> k" "k < length inner" "inner ! k = c" "p = pg b + k" by blast
    have "k \<noteq> s + n" using k stop by auto
    then have "k < s + n \<or> Suc (s + n) \<le> k" by linarith
    then show "(pg b + s \<le> p \<and> p < pg b + (s + n)) \<or> (\<exists>k. Suc (s + n) \<le> k \<and> k < length inner \<and> inner ! k = c \<and> p = pg b + k)"
      using k by auto
  next
    assume "(pg b + s \<le> p \<and> p < pg b + (s + n)) \<or> (\<exists>k. Suc (s + n) \<le> k \<and> k < length inner \<and> inner ! k = c \<and> p = pg b + k)"
    then show "\<exists>k. s \<le> k \<and> k < length inner \<and> inner ! k = c \<and> p = pg b + k"
    proof
      assume "pg b + s \<le> p \<and> p < pg b + (s + n)"
      then have "s \<le> p - pg b" "p - pg b < s + n" "p = pg b + (p - pg b)" by linarith+
      then show ?thesis using s by (intro exI [of _ "p - pg b"]) auto
    next
      assume "\<exists>k. Suc (s + n) \<le> k \<and> k < length inner \<and> inner ! k = c \<and> p = pg b + k"
      then obtain k where "Suc (s + n) \<le> k" "k < length inner" "inner ! k = c" "p = pg b + k" by blast
      then show ?thesis by (intro exI [of _ k]) simp
    qed
  qed
  then have "\<Union> (rpages ` set (run b s n # rs)) = {p. \<exists>k. s \<le> k \<and> k < length inner \<and> inner ! k = c \<and> p = pg b + k}"
    using rs by (auto simp: runs_ok_def rpages_run [OF b(1)])
  moreover have "\<forall>r \<in> set rs. b + Suc (s + n) * PAGE_SIZE \<le> r_start r" using rs by (simp add: runs_ok_def)
  then have "\<forall>r \<in> set rs. r_end (run b s n) < r_start r \<and> b + s * PAGE_SIZE \<le> r_start r" by (auto simp: run_def)
  moreover have "wf_range (run b s n)" by (rule wf_run [OF b(1) lim])
  moreover have "r_start (run b s n) < r_end (run b s n)" "b + s * PAGE_SIZE \<le> r_start (run b s n)"
    using s(1) by (simp_all add: run_def)
  ultimately show ?thesis using rs by (simp add: runs_ok_def)
qed

lemma get_ranges_loop_spec:
  assumes b: "b mod PAGE_SIZE = 0" "b + length inner * PAGE_SIZE \<le> ADDR_LIMIT"
    and i: "(st = None \<and> en = None \<and> j = i \<and> i \<le> length inner) \<or>
      (\<exists>n. 0 < n \<and> i = j + n \<and> st = Some j \<and> en = Some (i - 1) \<and> i < length inner \<and> (\<forall>k. j \<le> k \<and> k < i \<longrightarrow> inner ! k = c))"
  shows "\<exists>rs. get_ranges_loop inner c b i st en ret = Ok (ret @ rs) \<and> runs_ok b inner c j rs"
  using i
proof (induction "length inner - i" arbitrary: i j st en ret rule: less_induct)
  case less
  note unf = get_ranges_loop.simps [of inner c b i st en ret]
  have lim: "s + n \<le> length inner \<Longrightarrow> b + (s + n) * PAGE_SIZE \<le> ADDR_LIMIT" for s n
    using b(2) mult_le_mono1 [of "s + n" "length inner" PAGE_SIZE] by linarith
  show ?case
  proof (cases "i < length inner")
    case False
    then show ?thesis using less.prems unf runs_ok_Nil by auto
  next
    case True
    note IH = less.hyps [of "i + 1"]
    have last: "get_ranges_loop inner c b (i + 1) st' en' ret' = Ok ret'" if "i = length inner - 1" for st' en' ret'
    proof -
      have "length inner \<le> i + 1" using that by linarith
      then show ?thesis by (subst get_ranges_loop.simps) simp
    qed
    from less.prems True consider
      (none) "st = None" "en = None" "j = i"
    | (some) n where "0 < n" "i = j + n" "st = Some j" "en = Some (i - 1)" "\<forall>k. j \<le> k \<and> k < i \<longrightarrow> inner ! k = c"
      by blast
    then show ?thesis
    proof cases
      case none
      show ?thesis
      proof (cases "inner ! i = c")
        case ic: True
        have one: "VMRange_new_with_size (uadd b (i * PAGE_SIZE)) PAGE_SIZE = Ok (run b i 1)"
          using new_run [OF b(1) lim, of i 1] True by simp
        show ?thesis
        proof (cases "i = length inner - 1")
          case e: True
          have "runs_ok b inner c i [run b i 1]"
            by (rule runs_ok_Cons [OF b]) (use ic True e in \<open>auto simp: le_less_Suc_eq intro!: runs_ok_Nil\<close>)
          moreover have "get_ranges_loop inner c b i st en ret = Ok (ret @ [run b i 1])"
            unfolding unf using none(1,2) ic True e one last by simp
          ultimately show ?thesis using none by blast
        next
          case ne: False
          have "\<exists>rs. get_ranges_loop inner c b (i + 1) (Some i) (Some i) ret = Ok (ret @ rs) \<and> runs_ok b inner c i rs"
            by (rule IH) (use True ne ic in \<open>auto intro!: exI [of _ 1] simp: le_less_Suc_eq\<close>)
          moreover have "get_ranges_loop inner c b i st en ret = get_ranges_loop inner c b (i + 1) (Some i) (Some i) ret"
            unfolding unf using none(1,2) ic True ne by simp
          ultimately show ?thesis using none by simp
        qed
      next
        case ic: False
        have "\<exists>rs. get_ranges_loop inner c b (i + 1) None None ret = Ok (ret @ rs) \<and> runs_ok b inner c (i + 1) rs"
          by (rule IH) (use True in auto)
        moreover have "get_ranges_loop inner c b i st en ret = get_ranges_loop inner c b (i + 1) None None ret"
          unfolding unf using none(1,2) ic True by simp
        ultimately show ?thesis using none runs_ok_skip [OF _ True ic] by (metis Suc_eq_plus1)
      qed
    next
      case some
      show ?thesis
      proof (cases "inner ! i = c")
        case ic: True
        have r: "VMRange_new_with_size (uadd b (j * PAGE_SIZE)) (PAGE_SIZE * (i - j + 1)) = Ok (run b j (n + 1))"
          using new_run [OF b(1) lim, of j "n + 1"] True some by simp
        have all: "\<forall>k. j \<le> k \<and> k < j + (n + 1) \<longrightarrow> inner ! k = c" using some ic by (auto simp: less_Suc_eq)
        show ?thesis
        proof (cases "i = length inner - 1")
          case e: True
          have "runs_ok b inner c j [run b j (n + 1)]"
            by (rule runs_ok_Cons [OF b]) (use all True e some in \<open>auto intro!: runs_ok_Nil\<close>)
          moreover have "get_ranges_loop inner c b i st en ret = Ok (ret @ [run b j (n + 1)])"
            unfolding unf unfolding some(3,4) using ic True e r last by simp
          ultimately show ?thesis by blast
        next
          case ne: False
          have "\<exists>rs. get_ranges_loop inner c b (i + 1) (Some j) (Some i) ret = Ok (ret @ rs) \<and> runs_ok b inner c j rs"
            by (rule IH) (use True ne all some in \<open>auto intro!: exI [of _ "n + 1"]\<close>)
          moreover have "get_ranges_loop inner c b i st en ret = get_ranges_loop inner c b (i + 1) (Some j) (Some i) ret"
            unfolding unf unfolding some(3,4) using ic True ne by simp
          ultimately show ?thesis by simp
        qed
      next
        case ic: False
        have r: "VMRange_new_with_size (uadd b (j * PAGE_SIZE)) (PAGE_SIZE * (i - 1 - j + 1)) = Ok (run b j n)"
          using new_run [OF b(1) lim, of j n] True some(1,2) by simp
        obtain rs where rs: "get_ranges_loop inner c b (i + 1) None None (ret @ [run b j n]) = Ok ((ret @ [run b j n]) @ rs)"
          "runs_ok b inner c (i + 1) rs"
          using IH [OF diff_less_mono2, of None None "i + 1" "ret @ [run b j n]"] True by auto
        have "runs_ok b inner c j (run b j n # rs)"
          by (rule runs_ok_Cons [OF b]) (use some ic True rs(2) in auto)
        moreover have "get_ranges_loop inner c b i st en ret = Ok (ret @ run b j n # rs)"
          unfolding unf unfolding some(3,4) using ic True r rs(1) by simp
        ultimately show ?thesis by blast
      qed
    qed
  qed
qed


lemma tracker_bounds:
  assumes "pt_ok t"
  shows "r_start (pt_range t) mod PAGE_SIZE = 0"
    "r_start (pt_range t) + length (pt_inner t) * PAGE_SIZE = r_end (pt_range t)"
    "r_end (pt_range t) \<le> ADDR_LIMIT"
  using assms by (auto simp: pt_ok_def wf_range_def page_aligned_def range_ok_def pg_def elim!: dvdE)

lemma pt_pages_indices:
  assumes "pt_ok t"
  shows "pt_pages t = {p. \<exists>k. 0 \<le> k \<and> k < length (pt_inner t) \<and> pt_inner t ! k = True \<and> p = pg (r_start (pt_range t)) + k}"
    and "rpages (pt_range t) - pt_pages t =
      {p. \<exists>k. 0 \<le> k \<and> k < length (pt_inner t) \<and> pt_inner t ! k = False \<and> p = pg (r_start (pt_range t)) + k}"
proof -
  have len: "length (pt_inner t) = pg (r_end (pt_range t)) - pg (r_start (pt_range t))" using assms by (simp add: pt_ok_def)
  have "p \<in> rpages (pt_range t) \<longleftrightarrow> (\<exists>k. k < length (pt_inner t) \<and> p = pg (r_start (pt_range t)) + k)" for p
    unfolding len rpages_def by (auto intro!: exI [of _ "p - pg (r_start (pt_range t))"])
  then show "pt_pages t = {p. \<exists>k. 0 \<le> k \<and> k < length (pt_inner t) \<and> pt_inner t ! k = True \<and> p = pg (r_start (pt_range t)) + k}"
    and "rpages (pt_range t) - pt_pages t =
      {p. \<exists>k. 0 \<le> k \<and> k < length (pt_inner t) \<and> pt_inner t ! k = False \<and> p = pg (r_start (pt_range t)) + k}"
    unfolding pt_pages_def by fastforce+
qed

definition exact_ranges :: "nat set \<Rightarrow> VMRange list \<Rightarrow> bool" where
  "exact_ranges P rs \<longleftrightarrow> \<Union> (rpages ` set rs) = P \<and> sorted_wrt (\<lambda>r r'. r_end r < r_start r') rs \<and>
     (\<forall>r \<in> set rs. wf_range r \<and> r_start r < r_end r)"

lemma get_ranges_spec:
  assumes "pt_ok t" "r_start (pt_range t) < r_end (pt_range t)"
  obtains rs where "get_ranges t c = Ok rs"
    "exact_ranges (if c then pt_pages t else rpages (pt_range t) - pt_pages t) rs"
proof -
  have wf: "wf_range (pt_range t)" using assms(1) by (simp add: pt_ok_def)
  have one: "exact_ranges (rpages (pt_range t)) [pt_range t]" "exact_ranges {} []"
    using wf assms(2) by (simp_all add: exact_ranges_def)
  consider "pt_fully_committed t" | "\<not> pt_fully_committed t" "is_reserved_only t"
    | "\<not> pt_fully_committed t" "\<not> is_reserved_only t" by blast
  then show thesis
  proof cases
    case 1
    then have "pt_pages t = rpages (pt_range t)" using pt_pages_fully [OF assms(1)] assms(1) by (simp add: pt_ok_def)
    then show thesis using 1 one by (intro that [of "if c then [pt_range t] else []"]) (simp_all add: get_ranges_def)
  next
    case 2
    then have "\<forall>b \<in> set (pt_inner t). \<not> b" by (auto simp: is_reserved_only_def list_ex_iff)
    then have "pt_pages t = {}" unfolding pt_pages_indices(1) [OF assms(1)] by (auto simp: in_set_conv_nth)
    then show thesis using 2 one by (intro that [of "if c then [] else [pt_range t]"]) (simp_all add: get_ranges_def)
  next
    case 3
    note b = tracker_bounds [OF assms(1)]
    obtain rs where "get_ranges_loop (pt_inner t) c (r_start (pt_range t)) 0 None None [] = Ok ([] @ rs)"
      "runs_ok (r_start (pt_range t)) (pt_inner t) c 0 rs"
      using get_ranges_loop_spec [OF b(1), of "pt_inner t" None None 0 0 c "[]"] b(2,3) by auto
    then show thesis using 3 pt_pages_indices [OF assms(1)]
      by (intro that [of rs]) (auto simp: get_ranges_def runs_ok_def exact_ranges_def)
  qed
qed

lemma split_spec:
  assumes t: "pt_ok t" and r: "wf_range r" "is_superset_of (pt_range t) r" "r_start r < r_end r"
  obtains t' where "split_for_new_range t r = Ok t'" "pt_ok t'" "pt_range t' = r" "pt_pages t' = pt_pages t \<inter> rpages r"
proof -
  let ?k = "pg (r_start r) - pg (r_start (pt_range t))" and ?n = "pg (r_end r) - pg (r_start r)"
  let ?inner = "take ?n (drop ?k (pt_inner t))"
  have k: "usub (r_start r) (r_start (pt_range t)) div PAGE_SIZE = ?k"
    using r(1,2) t by (simp add: usize_simps is_superset_of_def pg_def div_diff_aligned pt_ok_def wf_range_def page_aligned_def)
  have le: "pg (r_start (pt_range t)) \<le> pg (r_start r)" "pg (r_start r) < pg (r_end r)" "pg (r_end r) \<le> pg (r_end (pt_range t))"
    using r(2) wf_range_nonempty [OF r(1,3)] by (auto simp: is_superset_of_def intro: pg_mono)
  have fit: "?k + ?n \<le> length (pt_inner t)" using le t by (simp add: pt_ok_def diff_le_mono)
  have len: "length ?inner = ?n" using fit by simp
  obtain inner where inner: "inner = ?inner" by blast
  let ?t = "t\<lparr>pt_inner := inner, pt_fully_committed := (if list_all id inner then True else pt_fully_committed t), pt_range := r\<rparr>"
  have s: "split_for_new_range t r = Ok ?t"
    using fit by (simp add: split_for_new_range_def Let_def k wf_range_size [OF r(1)] inner)
  have "list_all id (pt_inner t) \<Longrightarrow> list_all id inner"
    unfolding inner by (auto simp: list_all_iff dest!: in_set_takeD in_set_dropD)
  then have f: "pt_fully_committed t \<Longrightarrow> list_all id inner" using t by (simp add: pt_ok_def)
  have "length inner = ?n" unfolding inner by (rule len)
  then have ok: "pt_ok ?t" using f r(1) by (auto simp: pt_ok_def)
  have "p \<in> rpages r \<Longrightarrow> inner ! (p - pg (r_start r)) = pt_inner t ! (p - pg (r_start (pt_range t)))" for p
  proof -
    assume p: "p \<in> rpages r"
    then have "inner ! (p - pg (r_start r)) = pt_inner t ! (?k + (p - pg (r_start r)))"
      unfolding inner by (intro slice_nth [OF fit]) (auto simp: rpages_def)
    then show ?thesis using p le by (simp add: rpages_def)
  qed
  moreover have "rpages r \<subseteq> rpages (pt_range t)" using le by (auto simp: rpages_def)
  ultimately have "pt_pages ?t = pt_pages t \<inter> rpages r" by (auto simp: pt_pages_def)
  then show thesis using that [OF s ok] by simp
qed

section \<open>Committing\<close>

definition covered :: "page_chunks \<Rightarrow> VMRange \<Rightarrow> bool" where
  "covered chunks r \<longleftrightarrow> tracked_from chunks (get_page_chunk_start_addr (r_start r)) (r_end r)"

lemma covered_sub:
  assumes "covered chunks r" "is_superset_of r s" "wf_range r" "r_start s < r_end s"
  shows "covered chunks s"
proof -
  have le: "r_start r \<le> r_start s" "r_end s \<le> r_end r" using assms(2) by (auto simp: is_superset_of_def)
  then have lt: "r_start r < USIZE_MOD" "r_start s < USIZE_MOD"
    using assms(3,4) by (auto simp: wf_range_def range_ok_def)
  have "get_page_chunk_start_addr (r_start r) \<le> get_page_chunk_start_addr (r_start s)"
    unfolding chunk_start [OF lt(1)] chunk_start [OF lt(2)] using le(1) by (simp add: div_le_mono)
  then show ?thesis using assms(1) le by (auto simp: covered_def tracked_from_def)
qed

lemma covered_dom: "covered chunks r \<Longrightarrow> dom chunks \<subseteq> dom chunks' \<Longrightarrow> covered chunks' r"
  unfolding covered_def tracked_from_def domIff subset_iff by metis

lemma mk_range_id [simp]: "mk_range (r_start r) (r_end r) = r"
  by (cases r) simp

lemma wf_range_sum: "wf_range r \<Longrightarrow> r_start r + VMRange_size r = r_end r"
  by (simp add: wf_range_def VMRange_size_ok range_ok_def)

lemma rpages_sub: "is_superset_of r s \<Longrightarrow> rpages s \<subseteq> rpages r"
  using pg_mono by (fastforce simp: is_superset_of_def rpages_def)

lemma rpages_nonempty: "wf_range r \<Longrightarrow> r_start r < r_end r \<Longrightarrow> rpages r \<noteq> {}"
  using wf_range_nonempty by (auto simp: rpages_def)

lemma commit_tracked_spec:
  assumes t: "pt_ok t" and m: "chunks_ok (pw_chunks w)" "covered (pw_chunks w) r"
    and r: "wf_range r" "is_superset_of (pt_range t) r" "r_start r < r_end r"
  obtains t' m' where "commit_tracked t (r_start r) (VMRange_size r) w = (Ok t', w\<lparr>pw_chunks := m'\<rparr>)" "pt_ok t'"
    "pt_range t' = pt_range t" "pt_pages t' = pt_pages t \<union> rpages r" "chunks_ok m'"
    "gpages m' = gpages (pw_chunks w) \<union> rpages r" "dom m' = dom (pw_chunks w)"
proof -
  let ?sz = "VMRange_size r"
  note sum = wf_range_sum [OF r(1)]
  have al: "page_aligned (mk_range (r_start r) (r_start r + ?sz))" "r_start r + ?sz < USIZE_MOD"
    using r(1) unfolding sum by (auto simp: wf_range_def page_aligned_def range_ok_def)
  have in_t: "rpages (pt_range t) \<inter> rpages r = rpages r" using rpages_sub [OF r(2)] by blast
  have meet: "rpages (pt_range t) \<inter> rpages (mk_range (r_start r) (r_start r + ?sz)) \<noteq> {}"
    using rpages_nonempty [OF r(1,3)] in_t by (simp add: sum)
  obtain t' where t': "commit_pages_common t (r_start r) ?sz = Ok t'" "pt_ok t'" "pt_range t' = pt_range t"
    "pt_pages t' = pt_pages t \<union> rpages r"
    using commit_pages_common_spec [OF t al meet] in_t by (metis mk_range_id sum)
  have w: "wf_range (mk_range (r_start r) (r_start r + ?sz))" "0 < ?sz"
    "tracked_from (pw_chunks w) (get_page_chunk_start_addr (r_start r)) (r_start r + ?sz)"
    using r(1,3) m(2) sum by (auto simp: covered_def)
  obtain m' where
    m': "set_committed_pages_for_global_tracker (pw_chunks w) (r_start r) ?sz = Ok m'" "chunks_ok m'"
    "gpages m' = gpages (pw_chunks w) \<union> rpages r" "dom m' = dom (pw_chunks w)"
    using set_committed_spec [OF m(1) w] by (metis mk_range_id sum)
  have "commit_tracked t (r_start r) (VMRange_size r) w = (Ok t', w\<lparr>pw_chunks := m'\<rparr>)"
    using t'(1) m'(1) by (simp add: commit_tracked_def)
  then show thesis by (rule that [OF _ t'(2-4) m'(2-4)])
qed

text \<open>The pages that a call to the enclave's memory interface commits.\<close>

fun call_pages :: "edmm_call \<Rightarrow> nat set" where
  "call_pages (EdmmCommit s sz) = rpages (mk_range s (s + sz))"
| "call_pages (EdmmCommitData s d _) = rpages (mk_range s (s + length d))"
| "call_pages (EdmmModifyPermissions _ _ _ _) = {}"
| "call_pages (OcallMprotect _ _ _) = {}"

definition commit_call :: "usize \<Rightarrow> usize \<Rightarrow> VMPerms option \<Rightarrow> edmm_call" where
  "commit_call s sz perms =
     (case perms of
        Some p \<Rightarrow> if p \<noteq> PERM_DEFAULT
                  then EdmmCommitData s (if sz = PAGE_SIZE then replicate PAGE_SIZE 0 else new_page_aligned_vec sz) p
                  else EdmmCommit s sz
      | None \<Rightarrow> EdmmCommit s sz)"

lemma commit_memory_eq: "commit_memory edmm s sz perms w = edmm_do edmm (commit_call s sz perms) w"
  by (simp add: commit_memory_def commit_call_def split: option.split)

lemma commit_call_pages:
  assumes "wf_range r"
  shows "call_pages (commit_call (r_start r) (VMRange_size r) perms) = rpages r"
proof -
  note sum = wf_range_sum [OF assms]
  have "VMRange_size r = r_end r - r_start r" using sum by simp
  then have "VMRange_size r mod PAGE_SIZE = 0"
    using assms by (auto simp: wf_range_def page_aligned_def mod_eq_0_iff_dvd intro!: dvd_diff_nat)
  then have "length (new_page_aligned_vec (VMRange_size r)) = VMRange_size r"
    by (auto simp: new_page_aligned_vec_def)
  then obtain d where d: "d = (if VMRange_size r = PAGE_SIZE then replicate PAGE_SIZE (0 :: byte) else new_page_aligned_vec (VMRange_size r))"
    "length d = VMRange_size r" by simp
  show ?thesis unfolding commit_call_def d(1) [symmetric] by (simp add: d(2) sum split: option.split)
qed

lemma commit_each_spec:
  assumes "\<forall>c. edmm c = Ok ()" "\<forall>r \<in> set rs. wf_range r"
  shows "\<exists>cs. commit_each edmm perms rs w = (Ok (), w\<lparr>pw_calls := pw_calls w @ cs\<rparr>) \<and> map call_pages cs = map rpages rs"
  using assms(2)
proof (induction rs arbitrary: w)
  case (Cons r rs)
  let ?c = "commit_call (r_start r) (VMRange_size r) (Some perms)"
  have e: "edmm ?c = Ok ()" using assms(1) by blast
  from Cons.IH [of "w\<lparr>pw_calls := pw_calls w @ [?c]\<rparr>"] Cons.prems obtain cs where
    "commit_each edmm perms rs (w\<lparr>pw_calls := pw_calls w @ [?c]\<rparr>) = (Ok (), w\<lparr>pw_calls := pw_calls w @ ?c # cs\<rparr>)"
    "map call_pages cs = map rpages rs" by auto
  then show ?case using Cons.prems commit_call_pages [of r "Some perms"]
    by (intro exI [of _ "?c # cs"]) (simp add: commit_memory_eq edmm_do_def e)
qed simp

lemma ranges_disjoint:
  assumes "exact_ranges P rs"
  shows "sorted_wrt (\<lambda>A B. A \<inter> B = {}) (map rpages rs)"
proof -
  have "rpages r \<inter> rpages r' = {}" if "r_end r < r_start r'" for r r'
    using pg_mono [of "r_end r" "r_start r'"] that by (auto simp: rpages_def)
  then show ?thesis
    using assms sorted_wrt_mono_rel [of rs "\<lambda>r r'. r_end r < r_start r'" "\<lambda>r r'. rpages r \<inter> rpages r' = {}"]
    by (simp add: exact_ranges_def sorted_wrt_map)
qed

lemma commit_whole_spec:
  assumes e: "\<forall>c. edmm c = Ok ()" and t: "pt_ok t" "r_start (pt_range t) < r_end (pt_range t)"
    and m: "chunks_ok (pw_chunks w)" "covered (pw_chunks w) (pt_range t)"
    and sync: "pt_pages t \<subseteq> gpages (pw_chunks w)"
  obtains t' m' cs where "commit_whole edmm t perms w = (Ok t', w\<lparr>pw_calls := pw_calls w @ cs, pw_chunks := m'\<rparr>)" "pt_ok t'"
    "pt_range t' = pt_range t" "pt_pages t' = rpages (pt_range t)" "chunks_ok m'"
    "gpages m' = gpages (pw_chunks w) \<union> rpages (pt_range t)" "dom m' = dom (pw_chunks w)"
    "\<Union> (set (map call_pages cs)) = rpages (pt_range t) - pt_pages t" "sorted_wrt (\<lambda>A B. A \<inter> B = {}) (map call_pages cs)"
proof (cases "pt_fully_committed t")
  case True
  then have p: "pt_pages t = rpages (pt_range t)" using pt_pages_fully [OF t(1)] t(1) by (simp add: pt_ok_def)
  show thesis
    by (rule that [of t "pw_chunks w" "[]"]) (use True t p m sync in \<open>auto simp: commit_whole_def\<close>)
next
  case False
  have wf: "wf_range (pt_range t)" using t(1) by (simp add: pt_ok_def)
  obtain rs where rs: "get_ranges t False = Ok rs" "exact_ranges (rpages (pt_range t) - pt_pages t) rs"
    using get_ranges_spec [OF t, of False] by auto
  have res: "is_reserved_only t \<Longrightarrow> rs = [pt_range t]" using rs(1) False by (simp add: get_ranges_def)
  obtain cs where cs: "commit_each edmm perms rs w = (Ok (), w\<lparr>pw_calls := pw_calls w @ cs\<rparr>)" "map call_pages cs = map rpages rs"
    using commit_each_spec [OF e, of rs perms w] rs(2) by (auto simp: exact_ranges_def)
  let ?t = "t\<lparr>pt_inner := replicate (length (pt_inner t)) True, pt_fully_committed := True\<rparr>"
  note sum = wf_range_sum [OF wf]
  have w: "wf_range (mk_range (r_start (pt_range t)) (r_start (pt_range t) + VMRange_size (pt_range t)))"
    "0 < VMRange_size (pt_range t)"
    "tracked_from (pw_chunks w) (get_page_chunk_start_addr (r_start (pt_range t)))
       (r_start (pt_range t) + VMRange_size (pt_range t))"
    using sum wf t(2) m(2) by (auto simp: covered_def)
  obtain m' where
    m': "set_committed_pages_for_global_tracker (pw_chunks w) (r_start (pt_range t)) (VMRange_size (pt_range t)) = Ok m'" "chunks_ok m'"
    "gpages m' = gpages (pw_chunks w) \<union> rpages (pt_range t)" "dom m' = dom (pw_chunks w)"
    using set_committed_spec [OF m(1) w] by (metis mk_range_id sum)
  have "(if is_reserved_only t then commit_each edmm perms [pt_range t] w
         else case get_ranges t False of Ok uncommitted_ranges \<Rightarrow> commit_each edmm perms uncommitted_ranges w
              | _ \<Rightarrow> (Panic, w)) = (Ok (), w\<lparr>pw_calls := pw_calls w @ cs\<rparr>)"
    using rs(1) res cs(1) by (cases "is_reserved_only t") (simp_all del: commit_each.simps)
  then have "commit_whole edmm t perms w = (Ok ?t, w\<lparr>pw_calls := pw_calls w @ cs, pw_chunks := m'\<rparr>)"
    using False m'(1) by (simp add: commit_whole_def)
  moreover have ok: "pt_ok ?t" using t(1) by (simp add: pt_ok_def list_all_length)
  moreover have "pt_pages ?t = rpages (pt_range t)" using pt_pages_fully [OF ok] by (simp add: list_all_length)
  ultimately show thesis
    using that [of ?t m' cs] m' cs(2) rs(2) ranges_disjoint [OF rs(2)] by (simp add: exact_ranges_def)
qed


section \<open>The two levels agree\<close>

lemma is_committed_spec:
  assumes "chunks_ok chunks" "a < USIZE_MOD"
  shows "is_committed chunks a = Ok (pg a \<in> gpages chunks)"
proof -
  have al: "align_down a PAGE_SIZE = pg a * PAGE_SIZE"
    using assms(2) by (simp add: align_down_eq pg_def minus_mod_eq_div_mult)
  have le: "pg a * PAGE_SIZE \<le> a" by (simp add: pg_def)
  then have lt: "pg a * PAGE_SIZE < USIZE_MOD" using assms(2) by linarith
  have st: "get_page_chunk_start_addr (pg a * PAGE_SIZE) = pg a div PAGE_CHUNK_PAGE_NUM * PAGE_CHUNK_UNIT"
    unfolding chunk_start [OF lt] using div_mult2_eq [of "pg a * PAGE_SIZE" PAGE_SIZE PAGE_CHUNK_PAGE_NUM] by simp
  let ?c = "pg a div PAGE_CHUNK_PAGE_NUM * PAGE_CHUNK_UNIT"
  show ?thesis
  proof (cases "chunks ?c")
    case None
    then show ?thesis by (simp add: is_committed_def Let_def al st gpages_def)
  next
    case (Some c)
    show ?thesis
    proof (cases "gc_tracker c")
      case None
      then show ?thesis using Some by (simp add: is_committed_def Let_def al st gpages_def)
    next
      case t: (Some t)
      have co: "chunk_ok ?c c" using assms(1) Some by (simp add: chunks_ok_def)
      then have ok: "pt_ok t" "pt_range t = mk_range ?c (?c + PAGE_CHUNK_UNIT)" using t by (auto simp: chunk_ok_def)
      have pc: "pg ?c = pg a div PAGE_CHUNK_PAGE_NUM * PAGE_CHUNK_PAGE_NUM" by (simp add: pg_def)
      have m: "pg a \<in> rpages (pt_range t)" unfolding ok(2) by (rule iffD2 [OF chunk_of_page]) simp_all
      have "usub (pg a * PAGE_SIZE) ?c = (pg a - pg ?c) * PAGE_SIZE"
        unfolding pc by (simp add: usub_def diff_mult_distrib)
      then have id: "usub (pg a * PAGE_SIZE) ?c div PAGE_SIZE = pg a - pg ?c" by simp
      have "pg a - pg ?c < length (pt_inner t)"
        using m ok by (simp add: pt_ok_def rpages_def diff_less_mono)
      then show ?thesis
        using Some t m ok(2) by (simp add: is_committed_def Let_def al st id gpages_def pt_pages_def)
    qed
  qed
qed

definition succeeded :: "(edmm_call \<Rightarrow> unit res) \<Rightarrow> edmm_call list \<Rightarrow> edmm_call list" where
  "succeeded edmm cs = filter (\<lambda>c. edmm c = Ok ()) cs"

text \<open>
  The life of the trackers: areas are created on ranges no other area tracks, pages are committed
  range by range or all at once, an area is cut down to a part of its range, and areas go away.
\<close>

inductive pages_reach :: "(edmm_call \<Rightarrow> unit res) \<Rightarrow> page_world \<Rightarrow> PageTracker list \<Rightarrow> bool"
  for edmm where
  init: "pages_reach edmm \<lparr>pw_chunks = (\<lambda>_. None), pw_calls = []\<rparr> []"
| create: "pages_reach edmm w ts \<Longrightarrow> wf_range r \<Longrightarrow> r_start r < r_end r \<Longrightarrow>
     \<forall>t \<in> set ts. rpages (pt_range t) \<inter> rpages r = {} \<Longrightarrow>
     new_vma_tracker (pw_chunks w) r UserRegion = (Ok v, m) \<Longrightarrow>
     pages_reach edmm (w\<lparr>pw_chunks := m\<rparr>) (v # ts)"
| commit: "pages_reach edmm w ts \<Longrightarrow> i < length ts \<Longrightarrow> wf_range r \<Longrightarrow> r_start r < r_end r \<Longrightarrow>
     is_superset_of (pt_range (ts ! i)) r \<Longrightarrow> pt_pages (ts ! i) \<inter> rpages r = {} \<Longrightarrow>
     commit_range edmm (ts ! i) r perms w = (Ok t, w') \<Longrightarrow>
     pages_reach edmm w' (ts[i := t])"
| commit_fails: "pages_reach edmm w ts \<Longrightarrow> i < length ts \<Longrightarrow> commit_range edmm (ts ! i) r perms w = (Err e, w') \<Longrightarrow>
     pages_reach edmm w' ts"
| whole: "pages_reach edmm w ts \<Longrightarrow> i < length ts \<Longrightarrow> \<forall>c. edmm c = Ok () \<Longrightarrow>
     commit_whole edmm (ts ! i) p w = (Ok t, w') \<Longrightarrow> pages_reach edmm w' (ts[i := t])"
| cut: "pages_reach edmm w ts \<Longrightarrow> i < length ts \<Longrightarrow> wf_range r \<Longrightarrow> r_start r < r_end r \<Longrightarrow>
     is_superset_of (pt_range (ts ! i)) r \<Longrightarrow> split_for_new_range (ts ! i) r = Ok t \<Longrightarrow>
     pages_reach edmm w (ts[i := t])"
| leave: "pages_reach edmm w (xs @ t # ys) \<Longrightarrow> pages_reach edmm w (xs @ ys)"


definition tracker_synced :: "page_chunks \<Rightarrow> PageTracker \<Rightarrow> bool" where
  "tracker_synced m t \<longleftrightarrow> pt_ok t \<and> r_start (pt_range t) < r_end (pt_range t) \<and> covered m (pt_range t) \<and>
     pt_pages t = gpages m \<inter> rpages (pt_range t)"

definition pages_inv :: "(edmm_call \<Rightarrow> unit res) \<Rightarrow> page_world \<Rightarrow> PageTracker list \<Rightarrow> bool" where
  "pages_inv edmm w ts \<longleftrightarrow> chunks_ok (pw_chunks w) \<and> (\<forall>t \<in> set ts. tracker_synced (pw_chunks w) t) \<and>
     sorted_wrt (\<lambda>t t'. rpages (pt_range t) \<inter> rpages (pt_range t') = {}) ts \<and>
     \<Union> (set (map call_pages (succeeded edmm (pw_calls w)))) = gpages (pw_chunks w) \<and>
     sorted_wrt (\<lambda>A B. A \<inter> B = {}) (map call_pages (succeeded edmm (pw_calls w)))"

lemma apart_update:
  assumes "sorted_wrt (\<lambda>t t'. f t \<inter> f t' = {}) ts" "i < length ts" "f t \<subseteq> f (ts ! i)"
  shows "sorted_wrt (\<lambda>t t'. f t \<inter> f t' = {}) (ts[i := t])"
  unfolding sorted_wrt_iff_nth_less
proof (intro allI impI)
  fix j k
  assume jk: "j < k" "k < length (ts[i := t])"
  then have "f (ts ! j) \<inter> f (ts ! k) = {}" using assms(1) by (simp add: sorted_wrt_iff_nth_less)
  then show "f (ts[i := t] ! j) \<inter> f (ts[i := t] ! k) = {}"
    using assms(2,3) jk by (cases "j = i"; cases "k = i") auto
qed

lemma apart_nth:
  assumes "sorted_wrt (\<lambda>t t'. f t \<inter> f t' = {}) ts" "i < length ts" "j < length ts" "i \<noteq> j"
  shows "f (ts ! i) \<inter> f (ts ! j) = {}"
proof -
  have d: "j < k \<Longrightarrow> k < length ts \<Longrightarrow> f (ts ! j) \<inter> f (ts ! k) = {}" for j k
    using assms(1) by (simp add: sorted_wrt_iff_nth_less)
  then show ?thesis using assms(2-4) d [of j i] by (cases "i < j") (simp_all add: Int_commute)
qed

text \<open>A step of one area: new committed pages come from its own range and from pages not committed yet.\<close>

lemma pages_inv_step:
  assumes inv: "pages_inv edmm w ts" and i: "i < length ts"
    and t: "pt_ok t" "r_start (pt_range t) < r_end (pt_range t)" "rpages (pt_range t) \<subseteq> rpages (pt_range (ts ! i))"
      "covered m (pt_range t)" "pt_pages t = gpages m \<inter> rpages (pt_range t)"
    and m: "chunks_ok m" "gpages m = gpages (pw_chunks w) \<union> N" "dom (pw_chunks w) \<subseteq> dom m"
      "N \<subseteq> rpages (pt_range (ts ! i))" "N \<inter> gpages (pw_chunks w) = {}"
    and cs: "\<Union> (set (map call_pages (succeeded edmm cs))) = N" "sorted_wrt (\<lambda>A B. A \<inter> B = {}) (map call_pages (succeeded edmm cs))"
  shows "pages_inv edmm (w\<lparr>pw_calls := pw_calls w @ cs, pw_chunks := m\<rparr>) (ts[i := t])"
proof -
  note I = inv [unfolded pages_inv_def]
  have "tracker_synced m (ts[i := t] ! j)" if j: "j < length ts" for j
  proof (cases "j = i")
    case True
    then show ?thesis using t j by (simp add: tracker_synced_def)
  next
    case False
    have s: "tracker_synced (pw_chunks w) (ts ! j)" using I j by simp
    have "rpages (pt_range (ts ! i)) \<inter> rpages (pt_range (ts ! j)) = {}"
      using apart_nth [of "\<lambda>t. rpages (pt_range t)" ts i j] I i j False by simp
    then have "gpages m \<inter> rpages (pt_range (ts ! j)) = gpages (pw_chunks w) \<inter> rpages (pt_range (ts ! j))"
      using m(2,4) by blast
    then show ?thesis using s False covered_dom [OF _ m(3)] by (simp add: tracker_synced_def)
  qed
  then have "\<forall>t' \<in> set (ts[i := t]). tracker_synced m t'" by (metis in_set_conv_nth length_list_update)
  moreover have "sorted_wrt (\<lambda>t t'. rpages (pt_range t) \<inter> rpages (pt_range t') = {}) (ts[i := t])"
    using apart_update [of "\<lambda>t. rpages (pt_range t)" ts i t] I i t(3) by simp
  moreover have "\<Union> (set (map call_pages (succeeded edmm (pw_calls w @ cs)))) = gpages m"
    using I cs(1) m(2) by (simp add: succeeded_def)
  moreover have "sorted_wrt (\<lambda>A B. A \<inter> B = {}) (map call_pages (succeeded edmm (pw_calls w @ cs)))"
    using I cs m(5) by (auto simp: succeeded_def sorted_wrt_append)
  ultimately show ?thesis using m(1) by (simp add: pages_inv_def)
qed

lemma pages_inv_create:
  assumes "pages_inv edmm w ts" "wf_range r" "r_start r < r_end r"
    "\<forall>t \<in> set ts. rpages (pt_range t) \<inter> rpages r = {}"
    "new_vma_tracker (pw_chunks w) r UserRegion = (Ok v, m)"
  shows "pages_inv edmm (w\<lparr>pw_chunks := m\<rparr>) (v # ts)"
proof -
  note I = assms(1) [unfolded pages_inv_def]
  obtain v' m' where s: "new_vma_tracker (pw_chunks w) r UserRegion = (Ok v', m')" "chunks_ok m'" "pt_ok v'"
    "pt_range v' = r" "pt_pages v' = gpages (pw_chunks w) \<inter> rpages r" "gpages m' = gpages (pw_chunks w)"
    "tracked_from m' (get_page_chunk_start_addr (r_start r)) (r_end r)" "dom (pw_chunks w) \<subseteq> dom m'"
    by (rule new_vma_tracker_spec [OF _ assms(2,3)]) (use I in blast)
  then have e: "v' = v" "m' = m" using assms by auto
  have "tracker_synced m v" using s assms(3) unfolding e by (simp add: tracker_synced_def covered_def)
  moreover have "\<forall>t \<in> set ts. tracker_synced m t"
    using I s(6) covered_dom [OF _ s(8)] unfolding e by (simp add: tracker_synced_def)
  moreover have "\<forall>t \<in> set ts. rpages (pt_range v) \<inter> rpages (pt_range t) = {}"
    using assms(4) s(4) unfolding e by blast
  ultimately show ?thesis using I s(2,6) unfolding e by (simp add: pages_inv_def)
qed

lemma pages_inv_commit:
  assumes "pages_inv edmm w ts" "i < length ts" "wf_range r" "r_start r < r_end r"
    "is_superset_of (pt_range (ts ! i)) r" "pt_pages (ts ! i) \<inter> rpages r = {}"
    "commit_range edmm (ts ! i) r perms w = (Ok t, w')"
  shows "pages_inv edmm w' (ts[i := t])"
proof -
  note I = assms(1) [unfolded pages_inv_def]
  have sy: "tracker_synced (pw_chunks w) (ts ! i)" using I assms by simp
  let ?c = "commit_call (r_start r) (VMRange_size r) perms"
  let ?w = "w\<lparr>pw_calls := pw_calls w @ [?c]\<rparr>"
  have ok: "edmm ?c = Ok ()" and ct: "commit_tracked (ts ! i) (r_start r) (VMRange_size r) ?w = (Ok t, w')"
    using assms by (auto simp: commit_range_def commit_memory_eq edmm_do_def split: res.splits)
  have cov: "covered (pw_chunks ?w) r"
    using covered_sub [OF _ assms(5)] sy assms by (simp add: tracker_synced_def pt_ok_def)
  obtain t' m' where s: "commit_tracked (ts ! i) (r_start r) (VMRange_size r) ?w = (Ok t', ?w\<lparr>pw_chunks := m'\<rparr>)" "pt_ok t'"
    "pt_range t' = pt_range (ts ! i)" "pt_pages t' = pt_pages (ts ! i) \<union> rpages r" "chunks_ok m'"
    "gpages m' = gpages (pw_chunks ?w) \<union> rpages r" "dom m' = dom (pw_chunks ?w)"
    using commit_tracked_spec [of "ts ! i" ?w r] cov sy I assms by (auto simp: tracker_synced_def)
  have e: "t' = t" "w' = w\<lparr>pw_calls := pw_calls w @ [?c], pw_chunks := m'\<rparr>" using s(1) ct by auto
  show ?thesis unfolding e(2)
  proof (rule pages_inv_step [OF assms(1) assms(2), where N = "rpages r"])
    show "pt_ok t" "r_start (pt_range t) < r_end (pt_range t)" "rpages (pt_range t) \<subseteq> rpages (pt_range (ts ! i))"
      using s e sy by (auto simp: tracker_synced_def)
    show "covered m' (pt_range t)" using covered_dom [of "pw_chunks w" _ m'] s e sy by (simp add: tracker_synced_def)
    show "pt_pages t = gpages m' \<inter> rpages (pt_range t)"
      using s e sy rpages_sub [OF assms(5)] by (auto simp: tracker_synced_def)
    show "chunks_ok m'" "gpages m' = gpages (pw_chunks w) \<union> rpages r" "dom (pw_chunks w) \<subseteq> dom m'" using s by auto
    show "rpages r \<subseteq> rpages (pt_range (ts ! i))" by (rule rpages_sub [OF assms(5)])
    then show "rpages r \<inter> gpages (pw_chunks w) = {}" using assms(6) sy by (auto simp: tracker_synced_def)
    show "\<Union> (set (map call_pages (succeeded edmm [?c]))) = rpages r"
      "sorted_wrt (\<lambda>A B. A \<inter> B = {}) (map call_pages (succeeded edmm [?c]))"
      using ok commit_call_pages [OF assms(3)] by (simp_all add: succeeded_def)
  qed
qed

lemma pages_inv_whole:
  assumes "pages_inv edmm w ts" "i < length ts" "\<forall>c. edmm c = Ok ()"
    "commit_whole edmm (ts ! i) p w = (Ok t, w')"
  shows "pages_inv edmm w' (ts[i := t])"
proof -
  note I = assms(1) [unfolded pages_inv_def]
  have sy: "tracker_synced (pw_chunks w) (ts ! i)" using I assms by simp
  have pre: "pt_ok (ts ! i)" "r_start (pt_range (ts ! i)) < r_end (pt_range (ts ! i))" "chunks_ok (pw_chunks w)"
    "covered (pw_chunks w) (pt_range (ts ! i))" "pt_pages (ts ! i) \<subseteq> gpages (pw_chunks w)"
    using sy I by (auto simp: tracker_synced_def)
  obtain t' m' cs where s: "commit_whole edmm (ts ! i) p w = (Ok t', w\<lparr>pw_calls := pw_calls w @ cs, pw_chunks := m'\<rparr>)" "pt_ok t'"
    "pt_range t' = pt_range (ts ! i)" "pt_pages t' = rpages (pt_range (ts ! i))" "chunks_ok m'"
    "gpages m' = gpages (pw_chunks w) \<union> rpages (pt_range (ts ! i))" "dom m' = dom (pw_chunks w)"
    "\<Union> (set (map call_pages cs)) = rpages (pt_range (ts ! i)) - pt_pages (ts ! i)"
    "sorted_wrt (\<lambda>A B. A \<inter> B = {}) (map call_pages cs)"
    by (rule commit_whole_spec [OF assms(3) pre])
  have e: "t' = t" "w' = w\<lparr>pw_calls := pw_calls w @ cs, pw_chunks := m'\<rparr>" using s(1) assms by auto
  have f: "succeeded edmm cs = cs" using assms(3) by (simp add: succeeded_def)
  show ?thesis unfolding e(2)
  proof (rule pages_inv_step [OF assms(1) assms(2), where N = "rpages (pt_range (ts ! i)) - pt_pages (ts ! i)"])
    show "pt_ok t" "r_start (pt_range t) < r_end (pt_range t)" "rpages (pt_range t) \<subseteq> rpages (pt_range (ts ! i))"
      using s e pre by auto
    show "covered m' (pt_range t)" using covered_dom [of "pw_chunks w" _ m'] s e pre by simp
    show "pt_pages t = gpages m' \<inter> rpages (pt_range t)" using s e by auto
    show "chunks_ok m'" "dom (pw_chunks w) \<subseteq> dom m'" using s by auto
    show "gpages m' = gpages (pw_chunks w) \<union> (rpages (pt_range (ts ! i)) - pt_pages (ts ! i))" using s(6) pre(5) by blast
    show "rpages (pt_range (ts ! i)) - pt_pages (ts ! i) \<subseteq> rpages (pt_range (ts ! i))" by blast
    show "(rpages (pt_range (ts ! i)) - pt_pages (ts ! i)) \<inter> gpages (pw_chunks w) = {}" using sy by (auto simp: tracker_synced_def)
  qed (use s(8,9) f in simp_all)
qed

lemma pages_inv_cut:
  assumes "pages_inv edmm w ts" "i < length ts" "wf_range r" "r_start r < r_end r"
    "is_superset_of (pt_range (ts ! i)) r" "split_for_new_range (ts ! i) r = Ok t"
  shows "pages_inv edmm w (ts[i := t])"
proof -
  note I = assms(1) [unfolded pages_inv_def]
  have sy: "tracker_synced (pw_chunks w) (ts ! i)" using I assms by simp
  obtain t' where s: "split_for_new_range (ts ! i) r = Ok t'" "pt_ok t'" "pt_range t' = r" "pt_pages t' = pt_pages (ts ! i) \<inter> rpages r"
    using split_spec [OF _ assms(3,5,4)] sy by (auto simp: tracker_synced_def)
  have e: "t' = t" using s(1) assms by simp
  have "pages_inv edmm (w\<lparr>pw_calls := pw_calls w @ [], pw_chunks := pw_chunks w\<rparr>) (ts[i := t])"
  proof (rule pages_inv_step [OF assms(1) assms(2), where N = "{}"])
    show "pt_ok t" "r_start (pt_range t) < r_end (pt_range t)" "rpages (pt_range t) \<subseteq> rpages (pt_range (ts ! i))"
      using s e assms rpages_sub [OF assms(5)] by auto
    show "covered (pw_chunks w) (pt_range t)"
      using covered_sub [OF _ assms(5)] s e sy assms by (simp add: tracker_synced_def pt_ok_def)
    show "pt_pages t = gpages (pw_chunks w) \<inter> rpages (pt_range t)"
      using s e sy rpages_sub [OF assms(5)] by (auto simp: tracker_synced_def)
  qed (use I in \<open>simp_all add: succeeded_def\<close>)
  then show ?thesis by simp
qed

lemma pages_reach_inv: "pages_reach edmm w ts \<Longrightarrow> pages_inv edmm w ts"
proof (induction rule: pages_reach.induct)
  case init
  show ?case by (simp add: pages_inv_def chunks_ok_def gpages_def succeeded_def)
next
  case (commit_fails w ts i r perms e w')
  then have "edmm (commit_call (r_start r) (VMRange_size r) perms) = Err e"
    "w' = w\<lparr>pw_calls := pw_calls w @ [commit_call (r_start r) (VMRange_size r) perms]\<rparr>"
    by (auto simp: commit_range_def commit_memory_eq edmm_do_def commit_tracked_def split: res.splits)
  then show ?case using commit_fails.IH by (simp add: pages_inv_def succeeded_def)
next
  case (leave w xs t ys)
  then show ?case by (auto simp: pages_inv_def sorted_wrt_append)
qed (blast intro: pages_inv_create pages_inv_commit pages_inv_whole pages_inv_cut)+

section \<open>Properties\<close>


lemma ex_reach:
  obtains w t where "pages_reach (\<lambda>_. Ok ()) w [t]" "pw_calls w = [EdmmCommit 12288 4096]"
proof -
  let ?e = "\<lambda>_ :: edmm_call. Ok ()" and ?r = "mk_range 8192 20480" and ?q = "mk_range 12288 16384"
  let ?w = "\<lparr>pw_chunks = (\<lambda>_. None), pw_calls = []\<rparr>"
  have wf: "wf_range ?r" "wf_range ?q" by (simp_all add: wf_range_def page_aligned_def range_ok_def)
  have sub: "is_superset_of ?r ?q" by (simp add: is_superset_of_def)
  have ok: "chunks_ok (\<lambda>_. None)" by (simp add: chunks_ok_def)
  obtain v m where v: "new_vma_tracker (\<lambda>_. None) ?r UserRegion = (Ok v, m)" "chunks_ok m" "pt_ok v" "pt_range v = ?r"
    "pt_pages v = gpages (\<lambda>_. None) \<inter> rpages ?r" "gpages m = gpages (\<lambda>_. None)"
    "tracked_from m (get_page_chunk_start_addr (r_start ?r)) (r_end ?r)" "dom (\<lambda>_ :: nat. None :: GlobalPageChunk option) \<subseteq> dom m"
    by (rule new_vma_tracker_spec [OF ok wf(1)]) simp
  have r1: "pages_reach ?e (?w\<lparr>pw_chunks := m\<rparr>) [v]"
    by (rule pages_reach.create [OF pages_reach.init wf(1)]) (use v(1) in simp_all)
  let ?w2 = "\<lparr>pw_chunks = m, pw_calls = [EdmmCommit 12288 4096]\<rparr>"
  have pre: "pt_ok v" "chunks_ok (pw_chunks ?w2)" "covered (pw_chunks ?w2) ?q" "wf_range ?q"
    "is_superset_of (pt_range v) ?q" "r_start ?q < r_end ?q"
    using covered_sub [OF _ sub wf(1)] v sub wf by (simp_all add: covered_def)
  obtain t m' where t: "commit_tracked v (r_start ?q) (VMRange_size ?q) ?w2 = (Ok t, ?w2\<lparr>pw_chunks := m'\<rparr>)"
    using commit_tracked_spec [OF pre] by metis
  have sz: "VMRange_size ?q = 4096" by (simp add: VMRange_size_def usub_def)
  have c: "commit_range ?e v ?q None (?w\<lparr>pw_chunks := m\<rparr>) = (Ok t, ?w2\<lparr>pw_chunks := m'\<rparr>)"
    using t by (simp add: commit_range_def commit_memory_def edmm_do_def sz)
  have "pages_reach ?e (?w2\<lparr>pw_chunks := m'\<rparr>) ([v][0 := t])"
    by (rule pages_reach.commit [OF r1 _ wf(2)]) (use c v sub in \<open>simp_all add: gpages_def\<close>)
  then have "pages_reach ?e (?w2\<lparr>pw_chunks := m'\<rparr>) [t]" by simp
  moreover have "pw_calls (?w2\<lparr>pw_chunks := m'\<rparr>) = [EdmmCommit 12288 4096]" by simp
  ultimately show thesis by (rule that)
qed


text \<open>
  C27: The scan for committed (or uncommitted) ranges returns, without panicking, exactly the pages of
  the tracker with that status, as non-empty ranges in ascending order that neither overlap nor touch.
\<close>

theorem get_ranges_exact:
  assumes "pt_ok t" "r_start (pt_range t) < r_end (pt_range t)"
  shows "\<exists>rs. get_ranges t committed = Ok rs \<and>
    \<Union> (rpages ` set rs) = (if committed then pt_pages t else rpages (pt_range t) - pt_pages t) \<and>
    sorted_wrt (\<lambda>r r'. r_end r < r_start r') rs \<and>
    (\<forall>r \<in> set rs. r_start r < r_end r \<and> page_aligned r)"
proof -
  obtain rs where "get_ranges t committed = Ok rs"
    "exact_ranges (if committed then pt_pages t else rpages (pt_range t) - pt_pages t) rs"
    by (rule get_ranges_spec [OF assms])
  then show ?thesis unfolding exact_ranges_def wf_range_def by blast
qed

definition ex_tracker :: "bool list \<Rightarrow> PageTracker" where
  "ex_tracker bits = \<lparr>pt_type = VMATracker, pt_range = mk_range 8192 20480, pt_inner = bits,
     pt_fully_committed = list_all id bits\<rparr>"

theorem get_ranges_exact_witness:
  "get_ranges (ex_tracker [False, True, False]) False = Ok [mk_range 8192 12288, mk_range 16384 20480] \<and>
   \<Union> (rpages ` set [mk_range 8192 12288, mk_range 16384 20480]) = {2, 4}"
proof -
  let ?t = "ex_tracker [False, True, False]"
  have g: "get_ranges ?t False = Ok [mk_range 8192 12288, mk_range 16384 20480]"
    by (simp add: get_ranges_def ex_tracker_def is_reserved_only_def get_ranges_loop.simps
        VMRange_new_with_size_def VMRange_new_def checked_add_def uadd_def)
  have "pt_ok ?t" "r_start (pt_range ?t) < r_end (pt_range ?t)"
    by (simp_all add: ex_tracker_def pt_ok_def wf_range_def page_aligned_def range_ok_def pg_def)
  from get_ranges_exact [OF this, of False] g
  have "\<Union> (rpages ` set [mk_range 8192 12288, mk_range 16384 20480]) = rpages (pt_range ?t) - pt_pages ?t" by simp
  also have "\<dots> = {2, 4}" by (auto simp: ex_tracker_def pt_pages_def rpages_def pg_def nth_Cons split: nat.splits)
  finally show ?thesis using g by blast
qed

end
