(* ===== verification/VmUtil.thy ===== *)
theory VmUtil
  imports PageTracker FreeSpace
begin

text \<open>
  Requests of the memory system (\<^verbatim>\<open>src/libos/src/vm/vm_util.rs\<close> and the remap flags of
  \<^verbatim>\<open>src/libos/src/vm/process_vm.rs\<close>): what to fill new memory with, the checked options of
  \<open>mmap\<close> and \<open>mremap\<close>.  Files are references; reading, writing, size and access mode are
  those of a parameter \<open>file_ops\<close> over an abstract state of the files, and memory is a function
  from addresses to bytes.
\<close>

section \<open>Effects\<close>

text \<open>
  A function with effects takes the state and returns its outcome with the new state; an early
  return with \<open>?\<close> and a panic keep the state reached so far.
\<close>

type_synonym ('w, 'a) act = "'w \<Rightarrow> 'a res \<times> 'w"

definition act_return :: "'a \<Rightarrow> ('w, 'a) act" where
  "act_return x w = (Ok x, w)"

definition act_lift :: "'a res \<Rightarrow> ('w, 'a) act" where
  "act_lift r w = (r, w)"

definition act_bind :: "('w, 'a) act \<Rightarrow> ('a \<Rightarrow> ('w, 'b) act) \<Rightarrow> ('w, 'b) act" where
  "act_bind a f w = (case a w of (Ok x, w') \<Rightarrow> f x w' | (Err e, w') \<Rightarrow> (Err e, w') | (Panic, w') \<Rightarrow> (Panic, w'))"

definition act_unwrap :: "('w, 'a) act \<Rightarrow> ('w, 'a) act" where
  "act_unwrap a w = (case a w of (Ok x, w') \<Rightarrow> (Ok x, w') | (_, w') \<Rightarrow> (Panic, w'))"

fun act_for :: "('a \<Rightarrow> ('w, unit) act) \<Rightarrow> 'a list \<Rightarrow> ('w, unit) act" where
  "act_for f [] = act_return ()"
| "act_for f (x # xs) = act_bind (f x) (\<lambda>_. act_for f xs)"

section \<open>Files and memory\<close>

type_synonym FileRef = nat

record 's file_ops =
  fo_read_at :: "'s \<Rightarrow> FileRef \<Rightarrow> usize \<Rightarrow> nat \<Rightarrow> byte list res"
  fo_write_at :: "'s \<Rightarrow> FileRef \<Rightarrow> usize \<Rightarrow> byte list \<Rightarrow> nat res \<times> 's"
  fo_size :: "'s \<Rightarrow> FileRef \<Rightarrow> usize"
  fo_readable :: "FileRef \<Rightarrow> bool"
  fo_writable :: "FileRef \<Rightarrow> bool"

record 's vm_world = page_world +
  vw_mem :: "usize \<Rightarrow> byte"
  vw_files :: 's

definition as_slice :: "(usize \<Rightarrow> byte) \<Rightarrow> VMRange \<Rightarrow> byte list" where
  "as_slice mem r = map mem [r_start r..<r_end r]"

definition write_mem :: "usize \<Rightarrow> byte list \<Rightarrow> (usize \<Rightarrow> byte) \<Rightarrow> usize \<Rightarrow> byte" where
  "write_mem s bs mem = (\<lambda>a. if s \<le> a \<and> a < s + length bs then bs ! (a - s) else mem a)"

record FileBacked =
  fb_file :: FileRef
  fb_offset :: usize
  fb_write_back :: bool

definition FileBacked_new :: "FileRef \<Rightarrow> usize \<Rightarrow> bool \<Rightarrow> FileBacked" where
  "FileBacked_new file off write_back = \<lparr>fb_file = file, fb_offset = off, fb_write_back = write_back\<rparr>"

definition FileBacked_writeback_file :: "FileBacked \<Rightarrow> (FileRef \<times> usize) option" where
  "FileBacked_writeback_file fb = (if fb_write_back fb then Some (fb_file fb, fb_offset fb) else None)"

section \<open>Initializers\<close>

datatype VMInitializer =
    DoNothing
  | FillZeros
  | CopyFrom VMRange
  | InitFileBacked FileBacked
  | ElfSpecific FileRef
  | CopyOldAndReadNew VMRange FileRef usize FileBacked

definition cause_err :: "errno \<Rightarrow> 'a res \<Rightarrow> 'a res" where
  "cause_err e r = (case r of Err _ \<Rightarrow> Err e | _ \<Rightarrow> r)"

text \<open>Fills a buffer with the bytes read so far and zeros behind them; more bytes than room is a panic.\<close>

definition zero_rest :: "nat \<Rightarrow> byte list \<Rightarrow> byte list res" where
  "zero_rest n bs = (if length bs \<le> n then Ok (bs @ replicate (n - length bs) 0) else Panic)"

fun init_slice :: "'s file_ops \<Rightarrow> 's \<Rightarrow> (usize \<Rightarrow> byte) \<Rightarrow> VMInitializer \<Rightarrow> byte list \<Rightarrow> byte list res" where
  "init_slice F fs mem DoNothing buf = Ok buf"
| "init_slice F fs mem (ElfSpecific _) buf = Ok buf"
| "init_slice F fs mem FillZeros buf = Ok (replicate (length buf) 0)"
| "init_slice F fs mem (CopyFrom src_range) buf =
     (let src_slice = as_slice mem src_range;
          copy_len = min (length buf) (length src_slice)
      in zero_rest (length buf) (take copy_len src_slice))"
| "init_slice F fs mem (InitFileBacked file) buf =
     res_bind (cause_err EACCES (fo_read_at F fs (fb_file file) (fb_offset file) (length buf))) (\<lambda>bs.
       zero_rest (length buf) bs)"
| "init_slice F fs mem (CopyOldAndReadNew old_range file off new_writeback_file) buf =
     (let src_slice = as_slice mem old_range;
          copy_len = length src_slice
      in if copy_len > length buf then Panic
         else res_bind (cause_err EACCES (fo_read_at F fs file off (length buf - copy_len))) (\<lambda>bs.
           map_res (\<lambda>rest. src_slice @ rest) (zero_rest (length buf - copy_len) bs)))"

fun VMInitializer_backed_file :: "VMInitializer \<Rightarrow> FileBacked option" where
  "VMInitializer_backed_file (ElfSpecific elf_file) = Some (FileBacked_new elf_file 0 False)"
| "VMInitializer_backed_file (InitFileBacked file) = Some file"
| "VMInitializer_backed_file (CopyOldAndReadNew _ _ _ new_writeback_file) = Some new_writeback_file"
| "VMInitializer_backed_file _ = None"

section \<open>Options of mmap\<close>

datatype PagePolicy = ReserveOnly | CommitNow | CommitOnDemand

record VMMapOptions =
  mo_size :: usize
  mo_align :: usize
  mo_perms :: VMPerms
  mo_addr :: VMMapAddr
  mo_initializer :: VMInitializer
  mo_page_policy :: PagePolicy

record VMMapOptionsBuilder =
  mb_size :: "usize option"
  mb_align :: "usize option"
  mb_perms :: "VMPerms option"
  mb_addr :: "VMMapAddr option"
  mb_initializer :: "VMInitializer option"
  mb_page_policy :: "PagePolicy option"

definition VMMapOptionsBuilder_default :: VMMapOptionsBuilder where
  "VMMapOptionsBuilder_default =
     \<lparr>mb_size = None, mb_align = None, mb_perms = None, mb_addr = None, mb_initializer = None, mb_page_policy = None\<rparr>"

definition VMMapOptionsBuilder_build :: "VMMapOptionsBuilder \<Rightarrow> VMMapOptions res" where
  "VMMapOptionsBuilder_build b =
     res_bind (res_bind (ok_or (mb_size b) EINVAL) (\<lambda>sz.
         if sz = 0 then Err EINVAL else Ok (align_up sz PAGE_SIZE))) (\<lambda>sz.
     res_bind (let al = case_option PAGE_SIZE id (mb_align b)
               in if al = 0 \<or> \<not> is_power_of_two al then Err EINVAL else Ok al) (\<lambda>al.
     res_bind (ok_or (mb_perms b) EINVAL) (\<lambda>perms.
     res_bind (case case_option Any id (mb_addr b) of
                 Any \<Rightarrow> Ok Any
               | Hint addr \<Rightarrow> Ok (Hint (align_down addr PAGE_SIZE))
               | Need addr \<Rightarrow> if addr mod al \<noteq> 0 then Err EINVAL else Ok (Need addr)
               | Force addr \<Rightarrow> if addr mod al \<noteq> 0 then Err EINVAL else Ok (Force addr)) (\<lambda>addr.
     let initializer = case_option DoNothing id (mb_initializer b);
         page_policy = (case initializer of
             CopyFrom _ \<Rightarrow> CommitNow
           | CopyOldAndReadNew _ _ _ _ \<Rightarrow> CommitNow
           | _ \<Rightarrow> case_option CommitOnDemand id (mb_page_policy b))
     in Ok \<lparr>mo_size = sz, mo_align = al, mo_perms = perms, mo_addr = addr, mo_initializer = initializer,
            mo_page_policy = page_policy\<rparr>))))"

definition VMMapOptions_is_shared :: "VMMapOptions \<Rightarrow> bool" where
  "VMMapOptions_is_shared opts =
     (case VMInitializer_backed_file (mo_initializer opts) of
        Some backed_file \<Rightarrow> fb_write_back backed_file
      | None \<Rightarrow> False)"

section \<open>Options of mremap\<close>

datatype MRemapFlags = RemapNone | MayMove | FixedAddr usize

definition MRemapFlags_from_raw :: "32 word \<Rightarrow> usize \<Rightarrow> MRemapFlags res" where
  "MRemapFlags_from_raw raw_flags addr =
     (if raw_flags = 0 then Ok RemapNone
      else if raw_flags = 1 then Ok MayMove
      else if raw_flags = 3 then Ok (FixedAddr addr)
      else Err EINVAL)"

fun MRemapFlags_new_addr :: "MRemapFlags \<Rightarrow> usize option" where
  "MRemapFlags_new_addr (FixedAddr addr) = Some addr"
| "MRemapFlags_new_addr _ = None"

datatype VMRemapSizeType = SameSize | Shrinking | Growing

definition VMRemapSizeType_new :: "usize \<Rightarrow> usize \<Rightarrow> VMRemapSizeType" where
  "VMRemapSizeType_new old_size new_size =
     (if new_size = old_size then SameSize else if new_size < old_size then Shrinking else Growing)"

record VMRemapOptions =
  ro_old_addr :: usize
  ro_old_size :: usize
  ro_new_size :: usize
  ro_flags :: MRemapFlags

definition VMRemapOptions_new :: "usize \<Rightarrow> usize \<Rightarrow> usize \<Rightarrow> MRemapFlags \<Rightarrow> VMRemapOptions res" where
  "VMRemapOptions_new old_addr old_size new_size flags =
     (if old_addr mod PAGE_SIZE \<noteq> 0 then Err EINVAL
      else if old_size = 0 then Err EINVAL
      else if (case MRemapFlags_new_addr flags of Some addr \<Rightarrow> addr mod PAGE_SIZE \<noteq> 0 | None \<Rightarrow> False) then Err EINVAL
      else if new_size = 0 then Err EINVAL
      else Ok \<lparr>ro_old_addr = old_addr, ro_old_size = align_up old_size PAGE_SIZE,
               ro_new_size = align_up new_size PAGE_SIZE, ro_flags = flags\<rparr>)"

record VMRemapResult =
  rr_mmap_options :: "VMMapOptions option"
  rr_mmap_result_addr :: "usize option"
  rr_munmap_args :: "(usize \<times> usize) option"
  rr_may_move :: bool

end
