(* ===== verification/VmArea.thy ===== *)
theory VmArea
  imports VmUtil
begin

text \<open>
  Memory areas (\<^verbatim>\<open>src/libos/src/vm/vm_area.rs\<close>, with \<open>EPCMemType::new\<close> and
  \<open>modify_permission\<close> of \<^verbatim>\<open>src/libos/src/vm/vm_epc.rs\<close>): a range with permissions, an
  optional backing file, its owners, and the state of its pages.  The environment gives the memory
  layout of the enclave, the enclave's memory interface and the files.
\<close>

section \<open>The environment\<close>

record 's vm_env =
  ve_edmm :: "edmm_call \<Rightarrow> unit res"
  ve_supports_edmm :: bool
  ve_gap_range :: "VMRange option"
  ve_files :: "'s file_ops"

definition EPCMemType_new :: "'s vm_env \<Rightarrow> VMRange \<Rightarrow> EPCMemType" where
  "EPCMemType_new env r =
     (if ve_supports_edmm env then
        (case ve_gap_range env of
           Some gap_range \<Rightarrow> if r_end r \<le> r_start gap_range then Reserved else UserRegion
         | None \<Rightarrow> Reserved)
      else Reserved)"

definition modify_permission ::
  "'s vm_env \<Rightarrow> EPCMemType \<Rightarrow> usize \<Rightarrow> usize \<Rightarrow> VMPerms \<Rightarrow> VMPerms \<Rightarrow> ('s vm_world, unit) act" where
  "modify_permission env epc_type addr len curr_perms new_perms =
     (let new_perms = perms_remove new_perms PERM_GROWSDOWN
      in case epc_type of
           Reserved \<Rightarrow>
             (if ve_supports_edmm env
              then act_unwrap (edmm_do (ve_edmm env) (EdmmModifyPermissions addr len curr_perms new_perms))
              else (\<lambda>w. case edmm_do (ve_edmm env) (OcallMprotect addr len new_perms) w of
                     (Ok _, w') \<Rightarrow> (Ok (), w')
                   | (_, w') \<Rightarrow> (Err ENOMEM, w')))
         | UserRegion \<Rightarrow> edmm_do (ve_edmm env) (EdmmModifyPermissions addr len curr_perms new_perms))"

section \<open>Areas\<close>

datatype VMAccess = PrivateTo pid_t | SharedBy "pid_t \<Rightarrow> nat option"

record VMArea =
  va_range :: VMRange
  va_perms :: VMPerms
  va_file_backed :: "FileBacked option"
  va_access :: VMAccess
  va_pages :: "PageTracker option"
  va_epc_type :: EPCMemType
  va_pf_count :: nat

abbreviation va_start :: "VMArea \<Rightarrow> usize" where "va_start vma \<equiv> r_start (va_range vma)"
abbreviation va_end :: "VMArea \<Rightarrow> usize" where "va_end vma \<equiv> r_end (va_range vma)"
abbreviation va_size :: "VMArea \<Rightarrow> usize" where "va_size vma \<equiv> VMRange_size (va_range vma)"

abbreviation (input) COMMIT_SIZE_UNIT :: usize where "COMMIT_SIZE_UNIT \<equiv> 4096"
abbreviation (input) PF_NUM_THRESHOLD :: nat where "PF_NUM_THRESHOLD \<equiv> 3"

text \<open>A page tracker for a range, dropped when all pages are committed.\<close>

definition tracker_for :: "VMRange \<Rightarrow> EPCMemType \<Rightarrow> ('s vm_world, PageTracker option) act" where
  "tracker_for r epc_type w =
     (case new_vma_tracker (pw_chunks w) r epc_type of
        (Ok pages, chunks) \<Rightarrow>
          (Ok (if pt_fully_committed pages then None else Some pages), w\<lparr>pw_chunks := chunks\<rparr>)
      | (_, chunks) \<Rightarrow> (Panic, w\<lparr>pw_chunks := chunks\<rparr>))"

definition VMArea_new ::
  "'s vm_env \<Rightarrow> VMRange \<Rightarrow> VMPerms \<Rightarrow> FileBacked option \<Rightarrow> pid_t \<Rightarrow> ('s vm_world, VMArea) act" where
  "VMArea_new env r perms file_backed pid =
     (let epc_type = EPCMemType_new env r
      in act_bind (case epc_type of
                     Reserved \<Rightarrow> act_return None
                   | UserRegion \<Rightarrow> tracker_for r UserRegion) (\<lambda>pages.
           act_return \<lparr>va_range = r, va_perms = perms, va_file_backed = file_backed,
             va_access = PrivateTo pid, va_pages = pages, va_epc_type = epc_type, va_pf_count = 0\<rparr>))"

definition new_with_page_tracker ::
  "'s vm_env \<Rightarrow> VMRange \<Rightarrow> VMPerms \<Rightarrow> FileBacked option \<Rightarrow> VMAccess \<Rightarrow> PageTracker option \<Rightarrow> VMArea" where
  "new_with_page_tracker env r perms file_backed access pages =
     \<lparr>va_range = r, va_perms = perms, va_file_backed = file_backed, va_access = access, va_pages = pages,
      va_epc_type = EPCMemType_new env r, va_pf_count = 0\<rparr>"

definition split_pages :: "PageTracker option \<Rightarrow> VMRange \<Rightarrow> PageTracker option res" where
  "split_pages pages r =
     (case pages of
        Some p \<Rightarrow> map_res (\<lambda>p'. if pt_fully_committed p' then None else Some p') (split_for_new_range p r)
      | None \<Rightarrow> Ok None)"

definition inherits_file_from ::
  "'s vm_env \<Rightarrow> VMArea \<Rightarrow> VMRange \<Rightarrow> VMPerms \<Rightarrow> VMAccess \<Rightarrow> VMArea res" where
  "inherits_file_from env vma new_range new_perms access =
     (let new_backed_file =
            map_option (\<lambda>file. file\<lparr>fb_offset := uadd (fb_offset file) (usub (r_start new_range) (va_start vma))\<rparr>)
              (va_file_backed vma)
      in map_res (new_with_page_tracker env new_range new_perms new_backed_file access)
           (split_pages (va_pages vma) new_range))"

fun get_private_pid :: "VMAccess \<Rightarrow> pid_t option" where
  "get_private_pid (PrivateTo pid) = Some pid"
| "get_private_pid (SharedBy _) = None"

fun access_of :: "VMAccess \<Rightarrow> pid_t \<Rightarrow> bool" where
  "access_of (PrivateTo pid) target_pid = (pid = target_pid)"
| "access_of (SharedBy pid_table) target_pid = (pid_table target_pid \<noteq> None)"

definition belong_to :: "VMArea \<Rightarrow> pid_t \<Rightarrow> bool" where
  "belong_to vma target_pid = access_of (va_access vma) target_pid"

definition exclusive_by :: "VMArea \<Rightarrow> pid_t \<Rightarrow> bool" where
  "exclusive_by vma target_pid =
     (case va_access vma of
        PrivateTo pid \<Rightarrow> pid = target_pid
      | SharedBy pid_table \<Rightarrow> dom pid_table = {target_pid} \<and> pid_table target_pid = Some 1)"

definition VMArea_pid :: "VMArea \<Rightarrow> pid_t res" where
  "VMArea_pid vma = (case va_access vma of PrivateTo pid \<Rightarrow> Ok pid | SharedBy _ \<Rightarrow> Panic)"

definition VMArea_is_reserved_only :: "VMArea \<Rightarrow> bool" where
  "VMArea_is_reserved_only vma = (case va_pages vma of Some pages \<Rightarrow> is_reserved_only pages | None \<Rightarrow> False)"

definition VMArea_is_fully_committed :: "VMArea \<Rightarrow> bool" where
  "VMArea_is_fully_committed vma \<longleftrightarrow> va_pages vma = None"

definition VMArea_is_partially_committed :: "VMArea \<Rightarrow> bool" where
  "VMArea_is_partially_committed vma =
     (case va_pages vma of Some pages \<Rightarrow> is_partially_committed pages | None \<Rightarrow> False)"

definition VMArea_writeback_file :: "VMArea \<Rightarrow> (FileRef \<times> usize) option" where
  "VMArea_writeback_file vma =
     (case va_file_backed vma of Some file \<Rightarrow> FileBacked_writeback_file file | None \<Rightarrow> None)"

definition VMArea_backed_file :: "VMArea \<Rightarrow> (FileRef \<times> usize) option" where
  "VMArea_backed_file vma = map_option (\<lambda>file. (fb_file file, fb_offset file)) (va_file_backed vma)"

definition VMArea_subtract :: "'s vm_env \<Rightarrow> VMArea \<Rightarrow> VMRange \<Rightarrow> VMArea res list" where
  "VMArea_subtract env vma other =
     map (\<lambda>r. inherits_file_from env vma r (va_perms vma) (va_access vma)) (VMRange_subtract (va_range vma) other)"

definition VMArea_intersect :: "'s vm_env \<Rightarrow> VMArea \<Rightarrow> VMRange \<Rightarrow> VMArea option res" where
  "VMArea_intersect env vma other =
     (case VMRange_intersect (va_range vma) other of
        None \<Rightarrow> Ok None
      | Some new_range \<Rightarrow> map_res Some (inherits_file_from env vma new_range (va_perms vma) (va_access vma)))"

definition set_file_offset :: "FileBacked \<Rightarrow> usize \<Rightarrow> usize \<Rightarrow> FileBacked" where
  "set_file_offset file new_start_offset old_start_offset =
     (if old_start_offset < new_start_offset
      then file\<lparr>fb_offset := uadd (fb_offset file) (usub new_start_offset old_start_offset)\<rparr>
      else file\<lparr>fb_offset := usub (fb_offset file) (usub old_start_offset new_start_offset)\<rparr>)"

definition VMArea_set_start :: "VMArea \<Rightarrow> usize \<Rightarrow> ('s vm_world, VMArea) act" where
  "VMArea_set_start vma new_start =
     (let old_start = va_start vma
      in if new_start = old_start then act_return vma
         else let r = VMRange_set_start (va_range vma) new_start
           in act_bind (if new_start < old_start then tracker_for r (va_epc_type vma)
                        else act_lift (split_pages (va_pages vma) r)) (\<lambda>pages.
                act_return (vma\<lparr>va_range := r, va_pages := pages,
                  va_file_backed := map_option (\<lambda>file. set_file_offset file new_start old_start) (va_file_backed vma)\<rparr>)))"

definition VMArea_set_end :: "VMArea \<Rightarrow> usize \<Rightarrow> ('s vm_world, VMArea) act" where
  "VMArea_set_end vma new_end =
     (let r = VMRange_set_end (va_range vma) new_end
      in act_bind (if VMRange_size r > 0 then tracker_for r (va_epc_type vma) else act_return None) (\<lambda>pages.
           act_return (vma\<lparr>va_range := r, va_pages := pages\<rparr>)))"

text \<open>Comparing write-back files: the same file object, and a relation of the offsets.\<close>

definition is_the_same_to :: "VMArea \<Rightarrow> VMArea \<Rightarrow> bool" where
  "is_the_same_to vma other \<longleftrightarrow>
     va_range vma = va_range other \<and> va_perms vma = va_perms other \<and> va_access vma = va_access other \<and>
     (case (VMArea_writeback_file vma, VMArea_writeback_file other) of
        (None, None) \<Rightarrow> True
      | (Some (f, off), Some (f', off')) \<Rightarrow> f = f' \<and> off = off'
      | _ \<Rightarrow> False)"

definition can_merge_vmas :: "VMArea \<Rightarrow> VMArea \<Rightarrow> bool" where
  "can_merge_vmas left right \<longleftrightarrow>
     \<not> (va_size left = 0 \<or> va_size right = 0) \<and>
     va_end left = va_start right \<and>
     va_perms left = va_perms right \<and>
     (case (get_private_pid (va_access left), get_private_pid (va_access right)) of
        (Some left_pid, Some right_pid) \<Rightarrow> left_pid = right_pid
      | _ \<Rightarrow> False) \<and>
     (case (VMArea_writeback_file left, VMArea_writeback_file right) of
        (None, None) \<Rightarrow> True
      | (Some (left_file, left_offset), Some (right_file, right_offset)) \<Rightarrow>
          left_file = right_file \<and> right_offset > left_offset \<and> usub right_offset left_offset = va_size left
      | _ \<Rightarrow> False)"

section \<open>Sharing\<close>

definition VMArea_is_shared :: "VMArea \<Rightarrow> bool" where
  "VMArea_is_shared vma = (case va_access vma of PrivateTo _ \<Rightarrow> False | SharedBy _ \<Rightarrow> True)"

definition mark_shared :: "VMArea \<Rightarrow> VMArea" where
  "mark_shared vma =
     (case va_access vma of
        PrivateTo pid \<Rightarrow> vma\<lparr>va_access := SharedBy [pid \<mapsto> 1]\<rparr>
      | SharedBy _ \<Rightarrow> vma)"

definition attach_shared_process :: "VMArea \<Rightarrow> pid_t \<Rightarrow> VMArea res" where
  "attach_shared_process vma pid =
     (case va_access vma of
        PrivateTo _ \<Rightarrow> Err EINVAL
      | SharedBy pid_table \<Rightarrow>
          Ok (vma\<lparr>va_access := SharedBy
            (case pid_table pid of
               Some ref_ctr \<Rightarrow> pid_table(pid \<mapsto> (ref_ctr + 1) mod 4294967296)
             | None \<Rightarrow> pid_table(pid \<mapsto> 1))\<rparr>))"

definition detach_shared_process :: "VMArea \<Rightarrow> pid_t \<Rightarrow> bool \<Rightarrow> (VMArea \<times> bool) res" where
  "detach_shared_process vma pid force_detach =
     (case va_access vma of
        PrivateTo _ \<Rightarrow> Err EINVAL
      | SharedBy pid_table \<Rightarrow>
          (let pid_table' =
             (case pid_table pid of
                Some ref_ctr \<Rightarrow>
                  (let ref_ctr' = (ref_ctr + 4294967295) mod 4294967296
                   in if ref_ctr' = 0 \<or> force_detach then pid_table(pid := None)
                      else pid_table(pid \<mapsto> ref_ctr'))
              | None \<Rightarrow> pid_table)
           in Ok (vma\<lparr>va_access := SharedBy pid_table'\<rparr>, dom pid_table' = {})))"

definition inherits_access_from :: "VMArea \<Rightarrow> VMArea \<Rightarrow> VMArea" where
  "inherits_access_from vma other = vma\<lparr>va_access := va_access other\<rparr>"

end
