(* ===== verification/VmAreaMem.thy ===== *)
theory VmAreaMem
  imports VmArea
begin

text \<open>
  The operations of a memory area that touch memory, files and permissions
  (\<^verbatim>\<open>src/libos/src/vm/vm_area.rs\<close>): initialization, page faults, write-back and cleaning.
\<close>

section \<open>Permissions\<close>

definition modify_permission_force ::
  "'s vm_env \<Rightarrow> VMArea \<Rightarrow> VMRange option \<Rightarrow> VMPerms \<Rightarrow> VMPerms \<Rightarrow> ('s vm_world, unit) act" where
  "modify_permission_force env vma protect_range current_perms new_perms =
     (let r = (case protect_range of Some r \<Rightarrow> r | None \<Rightarrow> va_range vma)
      in act_unwrap (modify_permission env (va_epc_type vma) (r_start r) (VMRange_size r) current_perms new_perms))"

text \<open>\<open>pages()\<close> unwraps the tracker, and \<open>get_ranges\<close> may panic.\<close>

definition VMArea_get_ranges :: "VMArea \<Rightarrow> bool \<Rightarrow> VMRange list res" where
  "VMArea_get_ranges vma committed = res_bind (unwrap (va_pages vma)) (\<lambda>pages. get_ranges pages committed)"

definition modify_permissions_for_committed_pages ::
  "'s vm_env \<Rightarrow> VMArea \<Rightarrow> VMPerms \<Rightarrow> VMPerms \<Rightarrow> ('s vm_world, unit) act" where
  "modify_permissions_for_committed_pages env vma curr_perms new_perms =
     (if VMArea_is_fully_committed vma then modify_permission_force env vma None curr_perms new_perms
      else if VMArea_is_partially_committed vma then
        act_bind (act_lift (VMArea_get_ranges vma True)) (\<lambda>ranges.
          act_for (\<lambda>r. modify_permission_force env vma (Some r) curr_perms new_perms) ranges)
      else act_return ())"

section \<open>Initialization\<close>

definition write_range :: "VMRange \<Rightarrow> byte list \<Rightarrow> ('s vm_world, unit) act" where
  "write_range r bs w = (Ok (), w\<lparr>vw_mem := write_mem (r_start r) bs (vw_mem w)\<rparr>)"

definition clear_range :: "VMRange \<Rightarrow> ('s vm_world, unit) act" where
  "clear_range r = write_range r (replicate (r_end r - r_start r) 0)"

definition init_file_backed_mem ::
  "'s vm_env \<Rightarrow> VMArea \<Rightarrow> VMRange \<Rightarrow> FileRef \<Rightarrow> usize \<Rightarrow> VMPerms \<Rightarrow> ('s vm_world, unit) act" where
  "init_file_backed_mem env vma target_range file file_offset new_perm =
     (if \<not> fo_readable (ve_files env) file then act_lift (Err EBADF)
      else act_bind (\<lambda>w. case cause_err EACCES (fo_read_at (ve_files env) (vw_files w) file file_offset
                              (VMRange_size target_range)) of
                      Ok bs \<Rightarrow> write_range target_range bs w
                    | Err e \<Rightarrow> (Err e, w)
                    | Panic \<Rightarrow> (Panic, w)) (\<lambda>_.
        if \<not> perms_is_default new_perm
        then modify_permission_force env vma (Some target_range) PERM_DEFAULT new_perm
        else act_return ()))"

definition init_memory_for_page_fault ::
  "'s vm_env \<Rightarrow> VMArea \<Rightarrow> VMRange \<Rightarrow> ('s vm_world, VMArea) act" where
  "init_memory_for_page_fault env vma target_range w =
     (case VMArea_backed_file vma of
        Some (file, off) \<Rightarrow>
          (let init_file_offset = uadd off (usub (r_start target_range) (va_start vma));
               zero_page = new_page_aligned_vec (VMRange_size target_range)
           in case cause_err EACCES (fo_read_at (ve_files env) (vw_files w) file init_file_offset (length zero_page)) of
                Err e \<Rightarrow> (Err e, w)
              | Panic \<Rightarrow> (Panic, w)
              | Ok bs \<Rightarrow>
                  (let page_data = bs @ drop (length bs) zero_page
                   in case va_pages vma of
                        None \<Rightarrow> (Panic, w)
                      | Some pages \<Rightarrow>
                          (case commit_memory_with_data (ve_edmm env) pages target_range page_data (va_perms vma) w of
                             (Ok pages', w') \<Rightarrow>
                               (Ok (vma\<lparr>va_pages := Some pages'\<rparr>),
                                w'\<lparr>vw_mem := write_mem (r_start target_range) page_data (vw_mem w')\<rparr>)
                           | (Err e, w') \<Rightarrow> (Err e, w')
                           | (Panic, w') \<Rightarrow> (Panic, w'))))
      | None \<Rightarrow>
          (case va_pages vma of
             None \<Rightarrow> (Panic, w)
           | Some pages \<Rightarrow>
               (case commit_range (ve_edmm env) pages target_range (Some (va_perms vma)) w of
                  (Ok pages', w') \<Rightarrow>
                    (Ok (vma\<lparr>va_pages := Some pages'\<rparr>),
                     w'\<lparr>vw_mem := write_mem (r_start target_range)
                          (replicate (r_end target_range - r_start target_range) 0) (vw_mem w')\<rparr>)
                | (Err e, w') \<Rightarrow> (Err e, w')
                | (Panic, w') \<Rightarrow> (Panic, w'))))"

fun init_with ::
  "'s vm_env \<Rightarrow> VMArea \<Rightarrow> VMRange \<Rightarrow> VMInitializer \<Rightarrow> ('s vm_world, unit) act" where
  "init_with env vma target_range (InitFileBacked file) =
     init_file_backed_mem env vma target_range (fb_file file)
       (uadd (fb_offset file) (usub (r_start target_range) (va_start vma))) (va_perms vma)"
| "init_with env vma target_range DoNothing =
     (if \<not> perms_is_default (va_perms vma)
      then modify_permission_force env vma (Some target_range) PERM_DEFAULT (va_perms vma)
      else act_return ())"
| "init_with env vma target_range FillZeros =
     act_bind (clear_range target_range) (\<lambda>_.
       if \<not> perms_is_default (va_perms vma)
       then modify_permission_force env vma (Some target_range) PERM_DEFAULT (va_perms vma)
       else act_return ())"
| "init_with env vma target_range _ = act_lift Panic"

definition init_memory_internal ::
  "'s vm_env \<Rightarrow> VMArea \<Rightarrow> VMRange \<Rightarrow> VMInitializer option \<Rightarrow> ('s vm_world, VMArea) act" where
  "init_memory_internal env vma target_range initializer =
     (case initializer of
        Some ini \<Rightarrow> act_bind (init_with env vma target_range ini) (\<lambda>_. act_return vma)
      | None \<Rightarrow> init_memory_for_page_fault env vma target_range)"

definition init_memory :: "'s vm_env \<Rightarrow> VMArea \<Rightarrow> VMMapOptions \<Rightarrow> ('s vm_world, VMArea) act" where
  "init_memory env vma opts =
     act_bind (if \<not> VMArea_is_fully_committed vma \<and> mo_page_policy opts = CommitNow
               then (\<lambda>w. case va_pages vma of
                        None \<Rightarrow> (Panic, w)
                      | Some pages \<Rightarrow>
                          (case commit_whole (ve_edmm env) pages PERM_DEFAULT w of
                             (Ok _, w') \<Rightarrow> (Ok (vma\<lparr>va_pages := None\<rparr>), w')
                           | (Err e, w') \<Rightarrow> (Err e, w')
                           | (Panic, w') \<Rightarrow> (Panic, w')))
               else act_return vma) (\<lambda>vm_area.
     if VMArea_is_partially_committed vm_area then
       act_bind (act_lift (VMArea_get_ranges vm_area True)) (\<lambda>ranges.
       act_bind (act_for (\<lambda>r. act_bind (init_memory_internal env vm_area r (Some (mo_initializer opts)))
                                (\<lambda>_. act_return ())) ranges) (\<lambda>_.
       act_return vm_area))
     else if VMArea_is_fully_committed vm_area then
       act_bind (\<lambda>w. case init_slice (ve_files env) (vw_files w) (vw_mem w) (mo_initializer opts)
                            (as_slice (vw_mem w) (va_range vm_area)) of
                       Ok bs \<Rightarrow> write_range (va_range vm_area) bs w
                     | Err e \<Rightarrow> (Err e, w)
                     | Panic \<Rightarrow> (Panic, w)) (\<lambda>_.
       act_bind (if \<not> perms_is_default (mo_perms opts)
                 then modify_permission_force env vm_area None PERM_DEFAULT (va_perms vm_area)
                 else act_return ()) (\<lambda>_.
       act_return vm_area))
     else act_return vm_area)"

section \<open>Page faults\<close>

fun commit_once_loop ::
  "'s vm_env \<Rightarrow> usize \<Rightarrow> VMArea \<Rightarrow> VMRange list \<Rightarrow> usize \<Rightarrow> ('s vm_world, VMArea \<times> usize) act" where
  "commit_once_loop env pf_addr vma [] total_commit_size = act_return (vma, total_commit_size)"
| "commit_once_loop env pf_addr vma (r # rs) total_commit_size =
     (let r' = (if total_commit_size = 0 then
                  let r1 = VMRange_set_start r (align_down pf_addr PAGE_SIZE)
                  in VMRange_resize r1 (min (VMRange_size r1) COMMIT_SIZE_UNIT)
                else if VMRange_size r + total_commit_size > COMMIT_SIZE_UNIT
                then VMRange_resize r (usub COMMIT_SIZE_UNIT total_commit_size)
                else r)
      in act_bind (init_memory_internal env vma r' None) (\<lambda>vma'.
           let total = uadd total_commit_size (VMRange_size r')
           in if total \<ge> COMMIT_SIZE_UNIT then act_return (vma', total)
              else commit_once_loop env pf_addr vma' rs total))"

definition commit_once_for_page_fault :: "'s vm_env \<Rightarrow> VMArea \<Rightarrow> usize \<Rightarrow> ('s vm_world, VMArea \<times> usize) act" where
  "commit_once_for_page_fault env vma pf_addr =
     act_bind (act_lift (VMArea_get_ranges vma False)) (\<lambda>uncommitted_ranges.
     act_bind (commit_once_loop env pf_addr vma
                 (dropWhile (\<lambda>r. \<not> VMRange_contains r pf_addr) uncommitted_ranges) 0) (\<lambda>(vma', total_commit_size).
     case va_pages vma' of
       None \<Rightarrow> act_lift Panic
     | Some pages \<Rightarrow>
         act_return (if pt_fully_committed pages then vma'\<lparr>va_pages := None\<rparr> else vma', total_commit_size)))"

fun commit_all_loop :: "'s vm_env \<Rightarrow> VMArea \<Rightarrow> VMRange list \<Rightarrow> ('s vm_world, VMArea) act" where
  "commit_all_loop env vma [] = act_return vma"
| "commit_all_loop env vma (r # rs) =
     act_bind (act_unwrap (init_memory_internal env vma r None)) (\<lambda>vma'. commit_all_loop env vma' rs)"

definition commit_current_vma_whole :: "'s vm_env \<Rightarrow> VMArea \<Rightarrow> ('s vm_world, VMArea) act" where
  "commit_current_vma_whole env vma =
     act_bind (act_lift (VMArea_get_ranges vma False)) (\<lambda>uncommitted_ranges.
     act_bind (commit_all_loop env vma uncommitted_ranges) (\<lambda>vma'.
     act_return (vma'\<lparr>va_pages := None\<rparr>)))"

definition check_rw_bit :: "32 word \<Rightarrow> bool" where
  "check_rw_bit exception_error_code \<longleftrightarrow> exception_error_code AND 2 = 2"

definition VMArea_handle_page_fault ::
  "'s vm_env \<Rightarrow> VMArea \<Rightarrow> usize \<Rightarrow> usize \<Rightarrow> 32 word \<Rightarrow> bool \<Rightarrow> ('s vm_world, VMArea) act" where
  "VMArea_handle_page_fault env vma rip pf_addr errcd kernel_triggers =
     (if va_perms vma = PERM_NONE \<or>
         (\<not> check_rw_bit errcd \<and> \<not> perms_contains (va_perms vma) PERM_READ) then act_lift (Err EACCES)
      else if check_rw_bit errcd \<and> \<not> perms_contains (va_perms vma) PERM_WRITE then act_lift (Err EACCES)
      else if rip = pf_addr \<and> \<not> perms_contains (va_perms vma) PERM_EXEC then act_lift (Err EACCES)
      else if VMArea_is_fully_committed vma then act_return vma
      else if va_epc_type vma = Reserved then act_lift (Err EINVAL)
      else if kernel_triggers \<or> va_pf_count vma \<ge> PF_NUM_THRESHOLD then commit_current_vma_whole env vma
      else act_bind (act_unwrap (commit_once_for_page_fault env
                       (vma\<lparr>va_pf_count := (va_pf_count vma + 1) mod USIZE_MOD\<rparr>) pf_addr)) (\<lambda>(vma', _).
        act_return vma'))"

section \<open>Write-back and cleaning\<close>

definition file_write :: "'s vm_env \<Rightarrow> FileRef \<Rightarrow> usize \<Rightarrow> byte list \<Rightarrow> ('s vm_world, nat) act" where
  "file_write env file off bs w =
     (case fo_write_at (ve_files env) (vw_files w) file off bs of (r, fs) \<Rightarrow> (r, w\<lparr>vw_files := fs\<rparr>))"

definition flush_and_clean_internal ::
  "'s vm_env \<Rightarrow> VMArea \<Rightarrow> VMRange \<Rightarrow> (FileRef \<times> usize) option \<Rightarrow> ('s vm_world, unit) act" where
  "flush_and_clean_internal env vma target_range flush =
     act_bind (if \<not> perms_is_default (va_perms vma)
               then modify_permission_force env vma (Some target_range) (va_perms vma) PERM_DEFAULT
               else act_return ()) (\<lambda>_.
     act_bind (case flush of
                 None \<Rightarrow> act_return ()
               | Some (file, file_offset) \<Rightarrow>
                   (\<lambda>w. let off = uadd file_offset (usub (r_start target_range) (va_start vma));
                            file_len = fo_size (ve_files env) (vw_files w) file
                        in if off < file_len then
                             act_bind (act_unwrap (file_write env file off
                               (take (min (VMRange_size target_range) (file_len - off)) (as_slice (vw_mem w) target_range))))
                               (\<lambda>_. act_return ()) w
                           else (Ok (), w))) (\<lambda>_.
     clear_range target_range))"

definition flush_and_clean_memory :: "'s vm_env \<Rightarrow> VMArea \<Rightarrow> ('s vm_world, unit) act" where
  "flush_and_clean_memory env vma =
     (let flush = (case VMArea_writeback_file vma of
                     None \<Rightarrow> None
                   | Some (file_handle, off) \<Rightarrow>
                       if fo_writable (ve_files env) file_handle then Some (file_handle, off) else None)
      in if VMArea_is_fully_committed vma then flush_and_clean_internal env vma (va_range vma) flush
         else act_bind (act_lift (VMArea_get_ranges vma True)) (\<lambda>ranges.
           act_for (\<lambda>r. flush_and_clean_internal env vma r flush) ranges))"

fun flush_ranges ::
  "'s vm_env \<Rightarrow> FileRef \<Rightarrow> usize \<Rightarrow> usize \<Rightarrow> usize \<Rightarrow> VMRange list \<Rightarrow> ('s vm_world, unit) act" where
  "flush_ranges env file file_offset file_len vm_range_start [] = act_return ()"
| "flush_ranges env file file_offset file_len vm_range_start (r # rs) =
     (let off = uadd file_offset (usub (r_start r) vm_range_start)
      in if off \<ge> file_len then act_return ()
         else act_bind (\<lambda>w. file_write env file off
                          (take (min (VMRange_size r) (file_len - off)) (as_slice (vw_mem w) r)) w) (\<lambda>_.
           flush_ranges env file file_offset file_len vm_range_start rs))"

definition flush_file :: "'s vm_env \<Rightarrow> VMArea \<Rightarrow> FileRef \<Rightarrow> usize \<Rightarrow> ('s vm_world, unit) act" where
  "flush_file env vma file file_offset w =
     (let file_len = fo_size (ve_files env) (vw_files w) file
      in if file_offset \<ge> file_len then (Ok (), w)
         else if VMArea_is_fully_committed vma then
           act_bind (file_write env file file_offset
             (take (min (va_size vma) (file_len - file_offset)) (as_slice (vw_mem w) (va_range vma)))) (\<lambda>_. act_return ()) w
         else act_bind (act_lift (VMArea_get_ranges vma True)) (\<lambda>ranges.
           flush_ranges env file file_offset file_len (va_start vma) ranges) w)"

definition flush_committed_backed_file_with_cond ::
  "'s vm_env \<Rightarrow> VMArea \<Rightarrow> (FileRef \<Rightarrow> bool) \<Rightarrow> ('s vm_world, unit) act" where
  "flush_committed_backed_file_with_cond env vma cond_fn =
     (case VMArea_writeback_file vma of
        None \<Rightarrow> act_return ()
      | Some (file, file_offset) \<Rightarrow>
          (if \<not> fo_writable (ve_files env) file then act_return ()
           else if \<not> cond_fn file then act_return ()
           else act_unwrap (flush_file env vma file file_offset)))"

definition flush_committed_backed_file :: "'s vm_env \<Rightarrow> VMArea \<Rightarrow> ('s vm_world, unit) act" where
  "flush_committed_backed_file env vma = flush_committed_backed_file_with_cond env vma (\<lambda>_. True)"

end
