(* ===== verification/VmRemap.thy ===== *)
theory VmRemap
  imports VmAreaMem
begin

text \<open>
  The plan of an \<open>mremap\<close> (\<^verbatim>\<open>VMRemapParser::parse\<close> in \<^verbatim>\<open>src/libos/src/vm/vm_util.rs\<close>):
  one optional \<open>mmap\<close> followed by one optional \<open>munmap\<close>, chosen from the flags, the change of
  size and the write-back file.  Whether a range is free is asked from the implementer of the trait, here the
  argument \<open>free\<close>.
\<close>

section \<open>The plan\<close>

definition mmap_request ::
  "usize \<Rightarrow> VMMapAddr \<Rightarrow> VMPerms \<Rightarrow> VMInitializer \<Rightarrow> VMMapOptions res" where
  "mmap_request sz addr perms initializer =
     VMMapOptionsBuilder_build (VMMapOptionsBuilder_default
       \<lparr>mb_size := Some sz, mb_addr := Some addr, mb_perms := Some perms, mb_initializer := Some initializer\<rparr>)"

text \<open>The initializer of a moved write-back mapping.\<close>

definition move_initializer :: "VMArea \<Rightarrow> VMRange \<Rightarrow> FileRef \<Rightarrow> usize \<Rightarrow> VMInitializer res" where
  "move_initializer vma old_range backed_file off =
     (let copy_end = va_end vma
      in res_bind (VMRange_new (r_start old_range) copy_end) (\<lambda>copy_range.
           let reread_file_start_offset = usub copy_end (va_start vma);
               new_writeback_file = FileBacked_new backed_file off True
           in Ok (CopyOldAndReadNew copy_range backed_file reread_file_start_offset new_writeback_file)))"

definition parse_mmap ::
  "(VMRange \<Rightarrow> bool) \<Rightarrow> VMRemapOptions \<Rightarrow> VMArea \<Rightarrow> VMRange \<Rightarrow> (VMMapOptions option \<times> usize option) res" where
  "parse_mmap free opts vma old_range =
     (let old_addr = ro_old_addr opts; old_size = ro_old_size opts; new_size = ro_new_size opts;
          perms = va_perms vma
      in case (ro_flags opts, VMRemapSizeType_new old_size new_size, VMArea_writeback_file vma) of
           (RemapNone, Growing, None) \<Rightarrow>
             map_res (\<lambda>o1. (Some o1, Some old_addr))
               (mmap_request (usub new_size old_size) (Need (r_end old_range)) perms DoNothing)
         | (RemapNone, Growing, Some (backed_file, off)) \<Rightarrow>
             map_res (\<lambda>o1. (Some o1, Some old_addr))
               (mmap_request (usub new_size old_size) (Need (r_end old_range)) perms
                  (InitFileBacked (FileBacked_new backed_file (uadd off (va_size vma)) True)))
         | (MayMove, Growing, None) \<Rightarrow>
             res_bind (VMRange_new_with_size (uadd old_addr old_size) (usub new_size old_size)) (\<lambda>preferred_new_range.
               if free preferred_new_range then
                 map_res (\<lambda>o1. (Some o1, Some old_addr))
                   (mmap_request (VMRange_size preferred_new_range) (Need (r_start preferred_new_range)) perms DoNothing)
               else map_res (\<lambda>o1. (Some o1, None)) (mmap_request new_size Any perms (CopyFrom old_range)))
         | (MayMove, Growing, Some (backed_file, off)) \<Rightarrow>
             res_bind (VMRange_new_with_size (uadd old_addr old_size) (usub new_size old_size)) (\<lambda>preferred_new_range.
               if free preferred_new_range then
                 map_res (\<lambda>o1. (Some o1, Some old_addr))
                   (mmap_request (VMRange_size preferred_new_range) (Need (r_start preferred_new_range)) perms
                      (InitFileBacked (FileBacked_new backed_file (uadd off (va_size vma)) True)))
               else res_bind (move_initializer vma old_range backed_file off) (\<lambda>ini.
                 map_res (\<lambda>o1. (Some o1, None)) (mmap_request new_size Any perms ini)))
         | (FixedAddr new_addr, _, None) \<Rightarrow>
             map_res (\<lambda>o1. (Some o1, Some new_addr))
               (mmap_request new_size (Force new_addr) perms (CopyFrom old_range))
         | (FixedAddr new_addr, _, Some (backed_file, off)) \<Rightarrow>
             res_bind (move_initializer vma old_range backed_file off) (\<lambda>ini.
               map_res (\<lambda>o1. (Some o1, Some new_addr)) (mmap_request new_size (Force new_addr) perms ini))
         | _ \<Rightarrow> Ok (None, Some old_addr))"

definition parse_munmap ::
  "VMRemapOptions \<Rightarrow> VMRange \<Rightarrow> usize option \<Rightarrow> (usize \<times> usize) option res" where
  "parse_munmap opts old_range ret_addr =
     (let old_addr = ro_old_addr opts; old_size = ro_old_size opts; new_size = ro_new_size opts
      in case (ro_flags opts, VMRemapSizeType_new old_size new_size) of
           (RemapNone, Shrinking) \<Rightarrow> Ok (Some (uadd old_addr new_size, usub old_size new_size))
         | (MayMove, Shrinking) \<Rightarrow> Ok (Some (uadd old_addr new_size, usub old_size new_size))
         | (MayMove, Growing) \<Rightarrow> Ok (if ret_addr = None then Some (old_addr, old_size) else None)
         | (FixedAddr new_addr, _) \<Rightarrow>
             res_bind (VMRange_new_with_size new_addr new_size) (\<lambda>new_range.
               if overlap_with new_range old_range then Err EINVAL else Ok (Some (old_addr, old_size)))
         | _ \<Rightarrow> Ok None)"

definition VMRemapParser_parse ::
  "(VMRange \<Rightarrow> bool) \<Rightarrow> VMRemapOptions \<Rightarrow> VMArea \<Rightarrow> VMRemapResult res" where
  "VMRemapParser_parse free opts vma =
     res_bind (VMRange_new_with_size (ro_old_addr opts) (ro_old_size opts)) (\<lambda>old_range.
       if VMArea_writeback_file vma \<noteq> None \<and> old_range \<noteq> va_range vma then Err EINVAL
       else res_bind (parse_mmap free opts vma old_range) (\<lambda>(need_mmap, ret_addr).
         res_bind (parse_munmap opts old_range ret_addr) (\<lambda>need_munmap.
           Ok \<lparr>rr_mmap_options = need_mmap, rr_mmap_result_addr = ret_addr, rr_munmap_args = need_munmap,
               rr_may_move = (case ro_flags opts of MayMove \<Rightarrow> True | _ \<Rightarrow> False)\<rparr>)))"

section \<open>Carrying out the plan\<close>

text \<open>
  The end of \<open>VMManager::mremap\<close>: the requested \<open>mmap\<close> is tried, its failure reported only when
  the mapping may move, then the \<open>munmap\<close> of the plan is carried out.  The two calls are arguments.
\<close>

definition mremap_apply ::
  "('v \<Rightarrow> VMMapOptions \<Rightarrow> usize res \<times> 'v) \<Rightarrow> ('v \<Rightarrow> usize \<Rightarrow> usize \<Rightarrow> unit res \<times> 'v) \<Rightarrow>
     VMRemapOptions \<Rightarrow> VMRemapResult \<Rightarrow> ('v, usize) act" where
  "mremap_apply mmap munmap opts plan =
     act_bind (case rr_mmap_options plan of
                 Some mmap_options \<Rightarrow>
                   (\<lambda>v. case mmap v mmap_options of
                          (mmap_addr, v') \<Rightarrow>
                            (if \<not> is_ok mmap_addr \<and> rr_may_move plan then (Err EAGAIN, v')
                             else case rr_mmap_result_addr plan of
                                    None \<Rightarrow> (unwrap_res mmap_addr, v')
                                  | Some addr \<Rightarrow> (Ok addr, v')))
               | None \<Rightarrow> act_return (ro_old_addr opts)) (\<lambda>ret_addr.
     case rr_munmap_args plan of
       Some (munmap_addr, munmap_size) \<Rightarrow>
         act_bind (act_unwrap (\<lambda>v. munmap v munmap_addr munmap_size)) (\<lambda>_. act_return ret_addr)
     | None \<Rightarrow> act_return ret_addr)"

section \<open>What a plan does to the addresses\<close>

definition plan_mapped :: "VMRemapResult \<Rightarrow> usize \<Rightarrow> nat set" where
  "plan_mapped plan base =
     (case rr_mmap_options plan of
        None \<Rightarrow> {}
      | Some opts \<Rightarrow>
          (let a = (case mo_addr opts of Need a \<Rightarrow> a | Force a \<Rightarrow> a | _ \<Rightarrow> base)
           in {a..<a + mo_size opts}))"

definition plan_unmapped :: "VMRemapResult \<Rightarrow> nat set" where
  "plan_unmapped plan = (case rr_munmap_args plan of None \<Rightarrow> {} | Some (a, n) \<Rightarrow> {a..<a + n})"

definition plan_address :: "VMRemapResult \<Rightarrow> usize \<Rightarrow> usize" where
  "plan_address plan base = (case rr_mmap_result_addr plan of Some a \<Rightarrow> a | None \<Rightarrow> base)"

lemma mmap_request_eq:
  assumes "0 < sz" "sz mod PAGE_SIZE = 0" "sz \<le> ADDR_LIMIT"
    and "case addr of Need a \<Rightarrow> a mod PAGE_SIZE = 0 | Force a \<Rightarrow> a mod PAGE_SIZE = 0 | Hint a \<Rightarrow> False | Any \<Rightarrow> True"
  shows "mmap_request sz addr perms ini =
    Ok \<lparr>mo_size = sz, mo_align = PAGE_SIZE, mo_perms = perms, mo_addr = addr, mo_initializer = ini,
        mo_page_policy = (case ini of CopyFrom _ \<Rightarrow> CommitNow | CopyOldAndReadNew _ _ _ _ \<Rightarrow> CommitNow | _ \<Rightarrow> CommitOnDemand)\<rparr>"
proof -
  have "align_up sz PAGE_SIZE = sz"
    using assms(2,3) by (intro align_up_aligned) simp_all
  then show ?thesis
    using assms(1,4)
    by (cases addr; cases ini)
      (simp_all add: mmap_request_def VMMapOptionsBuilder_build_def VMMapOptionsBuilder_default_def Let_def)
qed

text \<open>Sizes and addresses of accepted options.\<close>

lemma remap_options:
  assumes "VMRemapOptions_new a old_size new_size fl = Ok opts" "old_size \<le> ADDR_LIMIT - PAGE_SIZE" "new_size \<le> ADDR_LIMIT - PAGE_SIZE"
  shows "ro_old_addr opts = a" "a mod PAGE_SIZE = 0" "0 < ro_old_size opts" "ro_old_size opts mod PAGE_SIZE = 0"
    "0 < ro_new_size opts" "ro_new_size opts mod PAGE_SIZE = 0" "ro_new_size opts \<le> ADDR_LIMIT" "ro_flags opts = fl"
    "ro_old_size opts \<le> ADDR_LIMIT" "fl = FixedAddr n \<Longrightarrow> n mod PAGE_SIZE = 0"
proof -
  have b: "x \<le> align_up x PAGE_SIZE" "align_up x PAGE_SIZE < x + PAGE_SIZE" "align_up x PAGE_SIZE mod PAGE_SIZE = 0"
    if "x \<le> ADDR_LIMIT - PAGE_SIZE" for x
    by (rule align_up_bounds [OF is_power_of_two_4096]; use that in simp)+
  have o: "opts = \<lparr>ro_old_addr = a, ro_old_size = align_up old_size PAGE_SIZE,
      ro_new_size = align_up new_size PAGE_SIZE, ro_flags = fl\<rparr>"
    "a mod PAGE_SIZE = 0" "old_size \<noteq> 0" "new_size \<noteq> 0"
    "\<not> (case MRemapFlags_new_addr fl of Some addr \<Rightarrow> addr mod PAGE_SIZE \<noteq> 0 | None \<Rightarrow> False)"
    using assms(1) by (auto simp: VMRemapOptions_new_def split: if_splits)
  show "ro_old_addr opts = a" "a mod PAGE_SIZE = 0" "0 < ro_old_size opts" "ro_old_size opts mod PAGE_SIZE = 0"
    "0 < ro_new_size opts" "ro_new_size opts mod PAGE_SIZE = 0" "ro_new_size opts \<le> ADDR_LIMIT" "ro_flags opts = fl"
    "ro_old_size opts \<le> ADDR_LIMIT" "fl = FixedAddr n \<Longrightarrow> n mod PAGE_SIZE = 0"
    using o b [OF assms(2)] b [OF assms(3)] assms(2,3) by auto
qed


lemma parse_cases:
  assumes "VMRemapParser_parse free opts vma = Ok plan"
  obtains old_range mm ret un where "VMRange_new_with_size (ro_old_addr opts) (ro_old_size opts) = Ok old_range"
    "VMArea_writeback_file vma \<noteq> None \<Longrightarrow> va_range vma = old_range"
    "parse_mmap free opts vma old_range = Ok (mm, ret)" "parse_munmap opts old_range ret = Ok un"
    "plan = \<lparr>rr_mmap_options = mm, rr_mmap_result_addr = ret, rr_munmap_args = un,
       rr_may_move = (case ro_flags opts of MayMove \<Rightarrow> True | _ \<Rightarrow> False)\<rparr>"
  using assms unfolding VMRemapParser_parse_def
  by (auto elim!: res_bind_OkE split: if_splits prod.splits)

text \<open>
  The whole effect of the plan on the addresses of the caller: the old range minus the unmapped part,
  together with the newly mapped part, is one range of the new size at the returned address.
\<close>

definition plan_effect :: "VMRemapOptions \<Rightarrow> VMRemapResult \<Rightarrow> usize \<Rightarrow> bool" where
  "plan_effect opts plan base \<longleftrightarrow>
     ({ro_old_addr opts..<ro_old_addr opts + ro_old_size opts} - plan_unmapped plan) \<union> plan_mapped plan base =
       {plan_address plan base..<plan_address plan base + ro_new_size opts} \<and>
     plan_mapped plan base \<inter> plan_unmapped plan = {}"

lemma plan_grow_in_place:
  assumes "mo_addr o1 = Need (ro_old_addr opts + ro_old_size opts)" "mo_size o1 = ro_new_size opts - ro_old_size opts"
    "ro_old_size opts < ro_new_size opts"
  shows "plan_effect opts \<lparr>rr_mmap_options = Some o1, rr_mmap_result_addr = Some (ro_old_addr opts), rr_munmap_args = None, rr_may_move = mv\<rparr> base"
  using assms by (auto simp: plan_effect_def plan_mapped_def plan_unmapped_def plan_address_def)

lemma plan_move:
  assumes "mo_size o1 = ro_new_size opts"
    "case mo_addr o1 of Force a \<Rightarrow> a = r | Any \<Rightarrow> base = r | _ \<Rightarrow> False" "plan_address plan base = r"
    "{r..<r + ro_new_size opts} \<inter> {ro_old_addr opts..<ro_old_addr opts + ro_old_size opts} = {}"
    "rr_mmap_options plan = Some o1" "rr_munmap_args plan = Some (ro_old_addr opts, ro_old_size opts)"
  shows "plan_effect opts plan base"
proof -
  have m: "plan_mapped plan base = {r..<r + ro_new_size opts}"
    using assms by (simp add: plan_mapped_def split: VMMapAddr.splits)
  have u: "plan_unmapped plan = {ro_old_addr opts..<ro_old_addr opts + ro_old_size opts}"
    using assms by (simp add: plan_unmapped_def)
  show ?thesis unfolding plan_effect_def m u assms(3) using assms(4) by blast
qed

lemma plan_shrink:
  assumes "ro_new_size opts < ro_old_size opts"
  shows "plan_effect opts \<lparr>rr_mmap_options = None, rr_mmap_result_addr = Some (ro_old_addr opts),
    rr_munmap_args = Some (ro_old_addr opts + ro_new_size opts, ro_old_size opts - ro_new_size opts), rr_may_move = mv\<rparr> base"
  using assms by (auto simp: plan_effect_def plan_mapped_def plan_unmapped_def plan_address_def)

lemma plan_same:
  assumes "ro_new_size opts = ro_old_size opts"
  shows "plan_effect opts \<lparr>rr_mmap_options = None, rr_mmap_result_addr = Some (ro_old_addr opts),
    rr_munmap_args = None, rr_may_move = mv\<rparr> base"
  using assms by (auto simp: plan_effect_def plan_mapped_def plan_unmapped_def plan_address_def)


definition opts_ok :: "VMRemapOptions \<Rightarrow> bool" where
  "opts_ok opts \<longleftrightarrow> ro_old_addr opts mod PAGE_SIZE = 0 \<and> 0 < ro_old_size opts \<and> ro_old_size opts mod PAGE_SIZE = 0 \<and>
     0 < ro_new_size opts \<and> ro_new_size opts mod PAGE_SIZE = 0 \<and> ro_new_size opts \<le> ADDR_LIMIT \<and>
     ro_old_addr opts + ro_old_size opts \<le> ADDR_LIMIT \<and>
     (\<forall>n. ro_flags opts = FixedAddr n \<longrightarrow> n mod PAGE_SIZE = 0)"

lemma grow_size:
  assumes "opts_ok opts" "ro_old_size opts < ro_new_size opts"
  shows "usub (ro_new_size opts) (ro_old_size opts) = ro_new_size opts - ro_old_size opts"
    "(ro_new_size opts - ro_old_size opts) mod PAGE_SIZE = 0"
    "(ro_old_addr opts + ro_old_size opts) mod PAGE_SIZE = 0"
    "uadd (ro_old_addr opts) (ro_old_size opts) = ro_old_addr opts + ro_old_size opts"
  using assms by (auto simp: opts_ok_def usize_simps mod_eq_0_iff_dvd intro!: dvd_diff_nat)

text \<open>Growing in place: the request for the part behind the old range.\<close>

lemma grow_request:
  assumes "opts_ok opts" "ro_old_size opts < ro_new_size opts"
    "mmap_request (ro_new_size opts - ro_old_size opts) (Need (ro_old_addr opts + ro_old_size opts)) perms ini = Ok o1"
  shows "plan_effect opts \<lparr>rr_mmap_options = Some o1, rr_mmap_result_addr = Some (ro_old_addr opts), rr_munmap_args = None, rr_may_move = mv\<rparr> base"
proof (rule plan_grow_in_place [OF _ _ assms(2)])
  have "ro_new_size opts \<le> ADDR_LIMIT" using assms(1) by (simp add: opts_ok_def)
  then have "o1 = \<lparr>mo_size = ro_new_size opts - ro_old_size opts, mo_align = PAGE_SIZE, mo_perms = perms,
        mo_addr = Need (ro_old_addr opts + ro_old_size opts), mo_initializer = ini,
        mo_page_policy = (case ini of CopyFrom _ \<Rightarrow> CommitNow | CopyOldAndReadNew _ _ _ _ \<Rightarrow> CommitNow | _ \<Rightarrow> CommitOnDemand)\<rparr>"
    using assms(3) grow_size [OF assms(1,2)] assms(2) by (subst (asm) mmap_request_eq) simp_all
  then show "mo_addr o1 = Need (ro_old_addr opts + ro_old_size opts)" "mo_size o1 = ro_new_size opts - ro_old_size opts"
    by simp_all
qed

lemma move_request:
  assumes "opts_ok opts" "mmap_request (ro_new_size opts) addr perms ini = Ok o1"
    "addr = Any \<or> (addr = Force n \<and> ro_flags opts = FixedAddr n)"
  shows "mo_size o1 = ro_new_size opts" "mo_addr o1 = addr"
proof -
  have o: "0 < ro_new_size opts" "ro_new_size opts mod PAGE_SIZE = 0" "ro_new_size opts \<le> ADDR_LIMIT"
    "case addr of Need a \<Rightarrow> a mod PAGE_SIZE = 0 | Force a \<Rightarrow> a mod PAGE_SIZE = 0 | Hint a \<Rightarrow> False | Any \<Rightarrow> True"
    using assms(1,3) by (auto simp: opts_ok_def)
  show "mo_size o1 = ro_new_size opts" "mo_addr o1 = addr"
    using assms(2) unfolding mmap_request_eq [OF o] by auto
qed

lemma plan_effect_fixed:
  assumes ok: "opts_ok opts" and fl: "ro_flags opts = FixedAddr n" and old: "old_range = mk_range (ro_old_addr opts) (ro_old_addr opts + ro_old_size opts)"
    and mm: "parse_mmap free opts vma old_range = Ok (mm, ret)" and un: "parse_munmap opts old_range ret = Ok un"
  shows "plan_effect opts \<lparr>rr_mmap_options = mm, rr_mmap_result_addr = ret, rr_munmap_args = un, rr_may_move = mv\<rparr> base \<and> ret = Some n"
proof -
  obtain o1 ini where o1: "mm = Some o1" "ret = Some n" "mmap_request (ro_new_size opts) (Force n) (va_perms vma) ini = Ok o1"
  proof (cases "VMArea_writeback_file vma")
    case None
    then show thesis using mm fl that [of _ "CopyFrom old_range"]
      by (cases "mmap_request (ro_new_size opts) (Force n) (va_perms vma) (CopyFrom old_range)")
        (auto simp: parse_mmap_def Let_def split: VMRemapSizeType.splits)
  next
    case (Some p)
    obtain f off where "p = (f, off)" by (cases p)
    then have "res_bind (move_initializer vma old_range f off) (\<lambda>ini.
        map_res (\<lambda>o1. (Some o1, Some n)) (mmap_request (ro_new_size opts) (Force n) (va_perms vma) ini)) = Ok (mm, ret)"
      using mm fl Some by (simp add: parse_mmap_def Let_def split: VMRemapSizeType.splits)
    then obtain ini where "map_res (\<lambda>o1. (Some o1, Some n)) (mmap_request (ro_new_size opts) (Force n) (va_perms vma) ini) = Ok (mm, ret)"
      by (rule res_bind_OkE)
    then show thesis using that by (cases "mmap_request (ro_new_size opts) (Force n) (va_perms vma) ini") auto
  qed
  note mv = move_request [OF ok o1(3) disjI2, of n, OF conjI [OF refl fl]]
  from un fl obtain r where r: "VMRange_new_with_size n (ro_new_size opts) = Ok r" "\<not> overlap_with r old_range"
    "un = Some (ro_old_addr opts, ro_old_size opts)"
    by (auto simp: parse_munmap_def Let_def elim!: res_bind_OkE split: if_splits)
  have "{n..<n + ro_new_size opts} \<inter> {ro_old_addr opts..<ro_old_addr opts + ro_old_size opts} = {}"
    using r(1,2) by (auto simp: VMRange_new_with_size_Ok_iff overlap_with_iff old addrs_def)
  then have "plan_effect opts \<lparr>rr_mmap_options = mm, rr_mmap_result_addr = ret, rr_munmap_args = un, rr_may_move = mv\<rparr> base"
    by (intro plan_move [OF mv(1), where r = n]) (simp_all add: mv(2) o1(1,2) r(3) plan_address_def)
  then show ?thesis using o1(2) by simp
qed

lemma plan_effect_none:
  assumes ok: "opts_ok opts" and fl: "ro_flags opts = RemapNone" and old: "old_range = mk_range (ro_old_addr opts) (ro_old_addr opts + ro_old_size opts)"
    and mm: "parse_mmap free opts vma old_range = Ok (mm, ret)" and un: "parse_munmap opts old_range ret = Ok un"
  shows "plan_effect opts \<lparr>rr_mmap_options = mm, rr_mmap_result_addr = ret, rr_munmap_args = un, rr_may_move = mv\<rparr> base \<and> ret = Some (ro_old_addr opts)"
proof (cases "VMRemapSizeType_new (ro_old_size opts) (ro_new_size opts)")
  case SameSize
  then have "ro_new_size opts = ro_old_size opts" "mm = None" "ret = Some (ro_old_addr opts)" "un = None"
    using mm un fl by (auto simp: parse_mmap_def parse_munmap_def Let_def VMRemapSizeType_new_def split: if_splits)
  then show ?thesis using plan_same by simp
next
  case Shrinking
  then have "ro_new_size opts < ro_old_size opts" by (simp add: VMRemapSizeType_new_def split: if_splits)
  moreover from this have "mm = None" "ret = Some (ro_old_addr opts)"
    "un = Some (ro_old_addr opts + ro_new_size opts, ro_old_size opts - ro_new_size opts)"
    using Shrinking mm un fl ok by (auto simp: parse_mmap_def parse_munmap_def Let_def usize_simps opts_ok_def)
  ultimately show ?thesis using plan_shrink by simp
next
  case Growing
  then have lt: "ro_old_size opts < ro_new_size opts" by (simp add: VMRemapSizeType_new_def split: if_splits)
  note g = grow_size [OF ok lt]
  obtain o1 ini where "mm = Some o1" "ret = Some (ro_old_addr opts)" "un = None"
    "mmap_request (ro_new_size opts - ro_old_size opts) (Need (ro_old_addr opts + ro_old_size opts)) (va_perms vma) ini = Ok o1"
  proof (cases "VMArea_writeback_file vma")
    case None
    then show thesis using mm un fl g Growing that
      by (cases "mmap_request (ro_new_size opts - ro_old_size opts) (Need (ro_old_addr opts + ro_old_size opts)) (va_perms vma) DoNothing")
        (auto simp: parse_mmap_def parse_munmap_def Let_def old)
  next
    case (Some p)
    obtain f off where "p = (f, off)" by (cases p)
    then show thesis using mm un fl g Growing Some that
      by (cases "mmap_request (ro_new_size opts - ro_old_size opts) (Need (ro_old_addr opts + ro_old_size opts)) (va_perms vma)
             (InitFileBacked (FileBacked_new f (uadd off (va_size vma)) True))")
        (auto simp: parse_mmap_def parse_munmap_def Let_def old)
  qed
  then show ?thesis using grow_request [OF ok lt] by simp
qed


lemma plan_effect_may_move:
  assumes ok: "opts_ok opts" and fl: "ro_flags opts = MayMove" and old: "old_range = mk_range (ro_old_addr opts) (ro_old_addr opts + ro_old_size opts)"
    and mm: "parse_mmap free opts vma old_range = Ok (mm, ret)" and un: "parse_munmap opts old_range ret = Ok un"
    and base: "ret = None \<Longrightarrow> {base..<base + ro_new_size opts} \<inter> {ro_old_addr opts..<ro_old_addr opts + ro_old_size opts} = {}"
  shows "plan_effect opts \<lparr>rr_mmap_options = mm, rr_mmap_result_addr = ret, rr_munmap_args = un, rr_may_move = mv\<rparr> base"
proof (cases "VMRemapSizeType_new (ro_old_size opts) (ro_new_size opts)")
  case SameSize
  then have "ro_new_size opts = ro_old_size opts" "mm = None" "ret = Some (ro_old_addr opts)" "un = None"
    using mm un fl by (auto simp: parse_mmap_def parse_munmap_def Let_def VMRemapSizeType_new_def split: if_splits)
  then show ?thesis using plan_same by simp
next
  case Shrinking
  then have "ro_new_size opts < ro_old_size opts" by (simp add: VMRemapSizeType_new_def split: if_splits)
  moreover from this have "mm = None" "ret = Some (ro_old_addr opts)"
    "un = Some (ro_old_addr opts + ro_new_size opts, ro_old_size opts - ro_new_size opts)"
    using Shrinking mm un fl ok by (auto simp: parse_mmap_def parse_munmap_def Let_def usize_simps opts_ok_def)
  ultimately show ?thesis using plan_shrink by simp
next
  case Growing
  then have lt: "ro_old_size opts < ro_new_size opts" by (simp add: VMRemapSizeType_new_def split: if_splits)
  note g = grow_size [OF ok lt]
  let ?pr = "mk_range (ro_old_addr opts + ro_old_size opts) (ro_old_addr opts + ro_old_size opts + (ro_new_size opts - ro_old_size opts))"
  have sum: "ro_old_addr opts + ro_old_size opts + (ro_new_size opts - ro_old_size opts) \<le> 2 * ADDR_LIMIT"
    using ok unfolding opts_ok_def by linarith
  have pr: "VMRange_new_with_size (uadd (ro_old_addr opts) (ro_old_size opts)) (usub (ro_new_size opts) (ro_old_size opts)) = Ok ?pr"
    "VMRange_size ?pr = ro_new_size opts - ro_old_size opts"
    using g sum dvd_add [of PAGE_SIZE "ro_old_addr opts + ro_old_size opts" "ro_new_size opts - ro_old_size opts"]
    by (simp_all only: VMRange_new_with_size_Ok_iff VMRange_size_def VMRange.simps mod_eq_0_iff_dvd) (simp_all add: usub_def)
  consider (stay) o1 ini where "mm = Some o1" "ret = Some (ro_old_addr opts)" "un = None"
      "mmap_request (ro_new_size opts - ro_old_size opts) (Need (ro_old_addr opts + ro_old_size opts)) (va_perms vma) ini = Ok o1"
  | (move) o1 ini where "mm = Some o1" "ret = None" "un = Some (ro_old_addr opts, ro_old_size opts)"
      "mmap_request (ro_new_size opts) Any (va_perms vma) ini = Ok o1"
  proof -
    have mr: "\<exists>o1. r = Ok o1 \<and> mm = Some o1 \<and> ret = x" if "map_res (\<lambda>o1. (Some o1, x)) r = Ok (mm, ret)" for r x
      using that by (cases r) auto
    have u: "un = (if ret = None then Some (ro_old_addr opts, ro_old_size opts) else None)"
      using un fl Growing by (simp add: parse_munmap_def Let_def)
    note unf = parse_mmap_def Let_def fl Growing pr res_bind.simps
    let ?ini = "case VMArea_writeback_file vma of None \<Rightarrow> DoNothing
      | Some (f, off) \<Rightarrow> InitFileBacked (FileBacked_new f (uadd off (va_size vma)) True)"
    show thesis
    proof (cases "free ?pr")
      case True
      have "map_res (\<lambda>o1. (Some o1, Some (ro_old_addr opts)))
          (mmap_request (ro_new_size opts - ro_old_size opts) (Need (ro_old_addr opts + ro_old_size opts)) (va_perms vma) ?ini) = Ok (mm, ret)"
        using mm True by (cases "VMArea_writeback_file vma") (auto simp: unf)
      from mr [OF this] show thesis using u by (auto intro: that(1))
    next
      case False
      have "\<exists>ini. map_res (\<lambda>o1. (Some o1, None)) (mmap_request (ro_new_size opts) Any (va_perms vma) ini) = Ok (mm, ret)"
        using mm False by (cases "VMArea_writeback_file vma") (auto simp: unf elim!: res_bind_OkE)
      then obtain ini where "map_res (\<lambda>o1. (Some o1, None)) (mmap_request (ro_new_size opts) Any (va_perms vma) ini) = Ok (mm, ret)" ..
      from mr [OF this] show thesis using u by (auto intro: that(2))
    qed
  qed
  then show ?thesis
  proof cases
    case stay
    then show ?thesis using grow_request [OF ok lt] by simp
  next
    case move
    note mv = move_request [OF ok move(4) disjI1 [OF refl]]
    show ?thesis
      by (rule plan_move [OF mv(1) _ _ base [OF move(2)]]) (simp_all add: mv(2) move plan_address_def)
  qed
qed

section \<open>Properties\<close>

text \<open>
  C21: The plan of an \<open>mremap\<close> is complete and exact: whatever the flags, the change of size and the
  backing of the area, after the planned \<open>mmap\<close> and \<open>munmap\<close> the caller has exactly the new size
  mapped, in one piece, at the address that is returned (the requested one for \<open>MREMAP_FIXED\<close>), nothing
  of the old range is left outside it, and the \<open>munmap\<close> does not touch the new pages.
\<close>

theorem remap_plan_exact:
  assumes "VMRemapOptions_new old_addr old_size new_size flags = Ok opts"
    "old_size \<le> ADDR_LIMIT - PAGE_SIZE" "new_size \<le> ADDR_LIMIT - PAGE_SIZE"
    "old_addr + ro_old_size opts \<le> ADDR_LIMIT"
    "VMRemapParser_parse free opts vma = Ok plan"
    "rr_mmap_result_addr plan = None \<Longrightarrow>
       {base..<base + ro_new_size opts} \<inter> {old_addr..<old_addr + ro_old_size opts} = {}"
  shows "({old_addr..<old_addr + ro_old_size opts} - plan_unmapped plan) \<union> plan_mapped plan base =
       {plan_address plan base..<plan_address plan base + ro_new_size opts} \<and>
     plan_mapped plan base \<inter> plan_unmapped plan = {} \<and>
     (\<forall>n. flags = FixedAddr n \<longrightarrow> plan_address plan base = n) \<and>
     (flags = RemapNone \<longrightarrow> plan_address plan base = old_addr)"
proof -
  note o = remap_options [OF assms(1-3)]
  have ok: "opts_ok opts" using o assms(4) by (auto simp: opts_ok_def)
  obtain old_range mm ret un where p: "VMRange_new_with_size (ro_old_addr opts) (ro_old_size opts) = Ok old_range"
    "parse_mmap free opts vma old_range = Ok (mm, ret)" "parse_munmap opts old_range ret = Ok un"
    "plan = \<lparr>rr_mmap_options = mm, rr_mmap_result_addr = ret, rr_munmap_args = un,
       rr_may_move = (case ro_flags opts of MayMove \<Rightarrow> True | _ \<Rightarrow> False)\<rparr>"
    using assms(5) by (rule parse_cases)
  have old: "old_range = mk_range (ro_old_addr opts) (ro_old_addr opts + ro_old_size opts)"
    using p(1) by (simp add: VMRange_new_with_size_Ok_iff)
  have "plan_effect opts plan base \<and> (\<forall>n. flags = FixedAddr n \<longrightarrow> plan_address plan base = n) \<and>
    (flags = RemapNone \<longrightarrow> plan_address plan base = old_addr)"
  proof (cases flags)
    case RemapNone
    have e: "plan_effect opts plan base \<and> ret = Some (ro_old_addr opts)"
      unfolding p(4) by (rule plan_effect_none [OF ok _ old p(2,3)]) (use o(8) RemapNone in simp)
    then have "plan_address plan base = old_addr" using o(1) by (simp add: p(4) plan_address_def)
    then show ?thesis using RemapNone e by simp
  next
    case MayMove
    have "plan_effect opts plan base"
      unfolding p(4) by (rule plan_effect_may_move [OF ok _ old p(2,3)]) (use o(1,8) MayMove assms(6) p(4) in simp_all)
    then show ?thesis using MayMove by simp
  next
    case (FixedAddr n)
    have e: "plan_effect opts plan base \<and> ret = Some n"
      unfolding p(4) by (rule plan_effect_fixed [OF ok _ old p(2,3)]) (use o(8) FixedAddr in simp)
    then have "plan_address plan base = n" by (simp add: p(4) plan_address_def)
    then show ?thesis using FixedAddr e by simp
  qed
  then show ?thesis using o(1) by (simp add: plan_effect_def)
qed


definition ex_area :: "FileBacked option \<Rightarrow> usize \<Rightarrow> usize \<Rightarrow> VMArea" where
  "ex_area fb s e = \<lparr>va_range = mk_range s e, va_perms = PERM_DEFAULT, va_file_backed = fb, va_access = PrivateTo 1,
     va_pages = None, va_epc_type = Reserved, va_pf_count = 0\<rparr>"

lemmas remap_eval = VMRemapOptions_new_def VMRemapParser_parse_def parse_mmap_def parse_munmap_def move_initializer_def
  VMRange_new_with_size_def VMRange_new_def checked_add_def VMRemapSizeType_new_def VMArea_writeback_file_def
  FileBacked_writeback_file_def FileBacked_new_def VMRange_size_def uadd_def usub_def overlap_with_def align_up_eq
  ex_area_def Let_def

lemma ex_remap_options:
  "VMRemapOptions_new 8192 4096 12288 MayMove = Ok \<lparr>ro_old_addr = 8192, ro_old_size = 4096, ro_new_size = 12288, ro_flags = MayMove\<rparr>"
  by (simp add: remap_eval)

theorem remap_plan_exact_witness:
  "\<exists>plan. VMRemapParser_parse (\<lambda>_. False) \<lparr>ro_old_addr = 8192, ro_old_size = 4096, ro_new_size = 12288, ro_flags = MayMove\<rparr>
      (ex_area None 8192 12288) = Ok plan \<and> ({8192..<12288} - plan_unmapped plan) \<union> plan_mapped plan 40960 = {40960..<53248}"
proof -
  let ?opts = "\<lparr>ro_old_addr = 8192, ro_old_size = 4096, ro_new_size = 12288, ro_flags = MayMove\<rparr>"
  obtain plan where p: "VMRemapParser_parse (\<lambda>_. False) ?opts (ex_area None 8192 12288) = Ok plan"
    "rr_mmap_result_addr plan = None"
    by (simp add: remap_eval mmap_request_eq)
  have "({8192..<8192 + ro_old_size ?opts} - plan_unmapped plan) \<union> plan_mapped plan 40960 =
       {plan_address plan 40960..<plan_address plan 40960 + ro_new_size ?opts}"
    using remap_plan_exact [OF ex_remap_options _ _ _ p(1), of 40960] by simp
  then show ?thesis using p by (auto simp: plan_address_def)
qed

text \<open>
  C35: When a write-back file mapping grows, the bytes behind the old ones come from the file position
  right behind the mapped part if the mapping can grow in place, but from a position that ignores the
  offset of the mapping if it has to move.
\<close>

theorem moved_growth_ignores_offset:
  assumes "opts_ok opts" "ro_flags opts = MayMove" "ro_old_size opts < ro_new_size opts"
    "va_range vma = mk_range (ro_old_addr opts) (ro_old_addr opts + ro_old_size opts)"
    "va_file_backed vma = Some \<lparr>fb_file = f, fb_offset = off, fb_write_back = True\<rparr>" "off + ro_old_size opts < USIZE_MOD"
  shows "\<exists>stay o1 move o2.
    VMRemapParser_parse (\<lambda>_. True) opts vma = Ok stay \<and> rr_mmap_options stay = Some o1 \<and>
    mo_initializer o1 = InitFileBacked \<lparr>fb_file = f, fb_offset = off + ro_old_size opts, fb_write_back = True\<rparr> \<and>
    VMRemapParser_parse (\<lambda>_. False) opts vma = Ok move \<and> rr_mmap_options move = Some o2 \<and>
    mo_initializer o2 = CopyOldAndReadNew (va_range vma) f (ro_old_size opts) \<lparr>fb_file = f, fb_offset = off, fb_write_back = True\<rparr>"
proof -
  note g = grow_size [OF assms(1,3)]
  have o: "0 < ro_new_size opts" "ro_new_size opts mod PAGE_SIZE = 0" "ro_new_size opts \<le> ADDR_LIMIT"
    "ro_old_addr opts mod PAGE_SIZE = 0" "ro_old_addr opts + ro_old_size opts \<le> ADDR_LIMIT"
    using assms(1) by (auto simp: opts_ok_def)
  have sz: "va_size vma = ro_old_size opts" "va_end vma = ro_old_addr opts + ro_old_size opts" "va_start vma = ro_old_addr opts"
    using assms(4) by (simp_all add: VMRange_size_def usub_def)
  have w: "VMArea_writeback_file vma = Some (f, off)"
    using assms(5) by (simp add: VMArea_writeback_file_def FileBacked_writeback_file_def)
  have r: "VMRange_new_with_size (ro_old_addr opts) (ro_old_size opts) = Ok (va_range vma)"
    "VMRange_new (ro_old_addr opts) (ro_old_addr opts + ro_old_size opts) = Ok (va_range vma)"
    using assms(4) o g(3) by (simp_all add: VMRange_new_with_size_Ok_iff VMRange_new_Ok_iff)
  obtain pr where pr: "VMRange_new_with_size (ro_old_addr opts + ro_old_size opts) (ro_new_size opts - ro_old_size opts) = Ok pr"
    "VMRange_size pr = ro_new_size opts - ro_old_size opts" "r_start pr = ro_old_addr opts + ro_old_size opts"
  proof
    let ?pr = "mk_range (ro_old_addr opts + ro_old_size opts) (ro_old_addr opts + ro_old_size opts + (ro_new_size opts - ro_old_size opts))"
    show "VMRange_new_with_size (ro_old_addr opts + ro_old_size opts) (ro_new_size opts - ro_old_size opts) = Ok ?pr"
      "VMRange_size ?pr = ro_new_size opts - ro_old_size opts" "r_start ?pr = ro_old_addr opts + ro_old_size opts"
      using g(2,3) o dvd_add [of PAGE_SIZE "ro_old_addr opts + ro_old_size opts" "ro_new_size opts - ro_old_size opts"]
      by (simp_all only: VMRange_new_with_size_Ok_iff VMRange_size_def VMRange.simps mod_eq_0_iff_dvd) (simp_all add: usub_def)
  qed
  have st: "VMRemapSizeType_new (ro_old_size opts) (ro_new_size opts) = Growing" using assms(3) by (simp add: VMRemapSizeType_new_def)
  have eqs: "usub (ro_old_addr opts + ro_old_size opts) (ro_old_addr opts) = ro_old_size opts"
    "uadd off (ro_old_size opts) = off + ro_old_size opts" using assms(6) by (simp_all add: usub_def uadd_def)
  note ev = VMRemapParser_parse_def parse_mmap_def parse_munmap_def move_initializer_def Let_def assms(2) st w r g(1,4) pr sz eqs
    FileBacked_new_def mmap_request_eq
  show ?thesis using o g(2,3) assms(3) r(2) by (simp add: ev)
qed

theorem moved_growth_ignores_offset_witness:
  "\<exists>move o2. VMRemapParser_parse (\<lambda>_. False) \<lparr>ro_old_addr = 8192, ro_old_size = 4096, ro_new_size = 12288, ro_flags = MayMove\<rparr>
      (ex_area (Some \<lparr>fb_file = 5, fb_offset = 40960, fb_write_back = True\<rparr>) 8192 12288) = Ok move \<and>
    rr_mmap_options move = Some o2 \<and>
    mo_initializer o2 = CopyOldAndReadNew (mk_range 8192 12288) 5 4096 \<lparr>fb_file = 5, fb_offset = 40960, fb_write_back = True\<rparr>"
proof -
  let ?opts = "\<lparr>ro_old_addr = 8192, ro_old_size = 4096, ro_new_size = 12288, ro_flags = MayMove\<rparr>"
  let ?vma = "ex_area (Some \<lparr>fb_file = 5, fb_offset = 40960, fb_write_back = True\<rparr>) 8192 12288"
  have h: "opts_ok ?opts" "ro_flags ?opts = MayMove" "ro_old_size ?opts < ro_new_size ?opts"
    "va_range ?vma = mk_range (ro_old_addr ?opts) (ro_old_addr ?opts + ro_old_size ?opts)"
    "va_file_backed ?vma = Some \<lparr>fb_file = 5, fb_offset = 40960, fb_write_back = True\<rparr>" "40960 + ro_old_size ?opts < USIZE_MOD"
    by (simp_all add: opts_ok_def ex_area_def)
  have "va_range ?vma = mk_range 8192 12288" "ro_old_size ?opts = 4096" by (simp_all add: ex_area_def)
  with moved_growth_ignores_offset [OF h] show ?thesis by metis
qed

text \<open>
  C36: Shrinking a write-back file mapping to a fixed address is planned, but the planned initialization
  copies the whole old range into the smaller new one and panics.
\<close>

theorem fixed_shrink_panics:
  assumes "opts_ok opts" "ro_flags opts = FixedAddr n" "ro_new_size opts < ro_old_size opts"
    "n + ro_new_size opts \<le> ADDR_LIMIT"
    "va_range vma = mk_range (ro_old_addr opts) (ro_old_addr opts + ro_old_size opts)"
    "va_file_backed vma = Some \<lparr>fb_file = f, fb_offset = off, fb_write_back = True\<rparr>"
    "{n..<n + ro_new_size opts} \<inter> {ro_old_addr opts..<ro_old_addr opts + ro_old_size opts} = {}"
  shows "\<exists>plan o1. VMRemapParser_parse free opts vma = Ok plan \<and> rr_mmap_options plan = Some o1 \<and>
    mo_size o1 = ro_new_size opts \<and>
    (\<forall>F fs mem buf. length buf = mo_size o1 \<longrightarrow> init_slice F fs mem (mo_initializer o1) buf = Panic)"
proof -
  have o: "0 < ro_new_size opts" "ro_new_size opts mod PAGE_SIZE = 0" "ro_new_size opts \<le> ADDR_LIMIT"
    "ro_old_addr opts mod PAGE_SIZE = 0" "ro_old_addr opts + ro_old_size opts \<le> ADDR_LIMIT" "n mod PAGE_SIZE = 0"
    "ro_old_size opts mod PAGE_SIZE = 0" "(ro_old_addr opts + ro_old_size opts) mod PAGE_SIZE = 0" "(n + ro_new_size opts) mod PAGE_SIZE = 0"
    using assms(1,2) by (auto simp: opts_ok_def mod_eq_0_iff_dvd)
  have w: "VMArea_writeback_file vma = Some (f, off)"
    using assms(6) by (simp add: VMArea_writeback_file_def FileBacked_writeback_file_def)
  have r: "VMRange_new_with_size (ro_old_addr opts) (ro_old_size opts) = Ok (va_range vma)"
    "VMRange_new (ro_old_addr opts) (ro_old_addr opts + ro_old_size opts) = Ok (va_range vma)"
    "VMRange_new_with_size n (ro_new_size opts) = Ok (mk_range n (n + ro_new_size opts))"
    using assms(4,5) o by (simp_all add: VMRange_new_with_size_Ok_iff VMRange_new_Ok_iff)
  have nov: "\<not> overlap_with (mk_range n (n + ro_new_size opts)) (mk_range (ro_old_addr opts) (ro_old_addr opts + ro_old_size opts))"
    using assms(7) by (simp only: overlap_with_iff addrs_def VMRange.simps not_not)
  have len: "length (as_slice mem (va_range vma)) = ro_old_size opts" for mem using assms(5) by (simp add: as_slice_def)
  note ev = VMRemapParser_parse_def parse_mmap_def parse_munmap_def move_initializer_def Let_def assms(2) w r
    FileBacked_new_def mmap_request_eq
  show ?thesis using o nov assms(3,5) r len
    by (cases "VMRemapSizeType_new (ro_old_size opts) (ro_new_size opts)") (simp_all add: ev)
qed


theorem fixed_shrink_panics_witness:
  "\<exists>plan o1. VMRemapParser_parse (\<lambda>_. True) \<lparr>ro_old_addr = 8192, ro_old_size = 8192, ro_new_size = 4096, ro_flags = FixedAddr 40960\<rparr>
      (ex_area (Some \<lparr>fb_file = 5, fb_offset = 0, fb_write_back = True\<rparr>) 8192 16384) = Ok plan \<and> rr_mmap_options plan = Some o1 \<and>
    init_slice (undefined :: unit file_ops) () (\<lambda>_. 0) (mo_initializer o1) (replicate 4096 0) = Panic"
proof -
  let ?opts = "\<lparr>ro_old_addr = 8192, ro_old_size = 8192, ro_new_size = 4096, ro_flags = FixedAddr 40960\<rparr>"
  let ?vma = "ex_area (Some \<lparr>fb_file = 5, fb_offset = 0, fb_write_back = True\<rparr>) 8192 16384"
  have h: "opts_ok ?opts" "ro_flags ?opts = FixedAddr 40960" "ro_new_size ?opts < ro_old_size ?opts"
    "40960 + ro_new_size ?opts \<le> ADDR_LIMIT"
    "va_range ?vma = mk_range (ro_old_addr ?opts) (ro_old_addr ?opts + ro_old_size ?opts)"
    "va_file_backed ?vma = Some \<lparr>fb_file = 5, fb_offset = 0, fb_write_back = True\<rparr>"
    "{40960..<40960 + ro_new_size ?opts} \<inter> {ro_old_addr ?opts..<ro_old_addr ?opts + ro_old_size ?opts} = {}"
    by (simp_all add: opts_ok_def ex_area_def)
  have "length (replicate 4096 (0 :: byte)) = ro_new_size ?opts" by simp
  with fixed_shrink_panics [OF h, of "\<lambda>_. True"] show ?thesis by metis
qed

text \<open>
  C34: A failing \<open>mmap\<close> is not reported by an \<open>mremap\<close> that may not move: growing in place answers with
  the old address as if it had succeeded, and a fixed \<open>mremap\<close> even unmaps the old range.
\<close>

theorem failed_mmap_is_ignored:
  assumes "VMRemapParser_parse free opts vma = Ok plan" "ro_flags opts \<noteq> MayMove" "rr_mmap_options plan = Some o1"
    "mmap v o1 = (Err e, v')" "\<And>w a n. fst (munmap w a n) = Ok ()"
  shows "case ro_flags opts of
      FixedAddr n \<Rightarrow> mremap_apply mmap munmap opts plan v = (Ok n, snd (munmap v' (ro_old_addr opts) (ro_old_size opts)))
    | _ \<Rightarrow> mremap_apply mmap munmap opts plan v = (Ok (ro_old_addr opts), v')"
proof -
  obtain old_range mm ret un where p: "VMRange_new_with_size (ro_old_addr opts) (ro_old_size opts) = Ok old_range"
    "parse_mmap free opts vma old_range = Ok (mm, ret)" "parse_munmap opts old_range ret = Ok un"
    "plan = \<lparr>rr_mmap_options = mm, rr_mmap_result_addr = ret, rr_munmap_args = un,
       rr_may_move = (case ro_flags opts of MayMove \<Rightarrow> True | _ \<Rightarrow> False)\<rparr>"
    using assms(1) by (rule parse_cases)
  have mr: "ret = x" if "map_res (\<lambda>o1. (Some o1, x)) r = Ok (m', ret)" for r x m'
    using that by (cases r) auto
  have mm: "mm = Some o1" using assms(3) p(4) by simp
  have munmap: "munmap w a n = (Ok (), snd (munmap w a n))" for w a n using assms(5) by (metis prod.collapse)
  note ap = mremap_apply_def act_bind_def act_return_def act_unwrap_def
  show ?thesis
  proof (cases "ro_flags opts")
    case RemapNone
    have "ret = Some (ro_old_addr opts)" "un = None"
      using p(2,3) mm RemapNone
      by (auto simp: parse_mmap_def parse_munmap_def Let_def dest!: mr split: VMRemapSizeType.splits option.splits)
    then show ?thesis using RemapNone assms(4) mm by (simp add: ap p(4))
  next
    case (FixedAddr n)
    have "ret = Some n" "un = Some (ro_old_addr opts, ro_old_size opts)"
      using p(2,3) FixedAddr
      by (auto simp: parse_mmap_def parse_munmap_def Let_def dest!: mr elim!: res_bind_OkE split: VMRemapSizeType.splits option.splits if_splits)
    moreover obtain w where "munmap v' (ro_old_addr opts) (ro_old_size opts) = (Ok (), w)" using munmap by metis
    ultimately show ?thesis using FixedAddr assms(4) mm by (simp add: ap p(4))
  qed (use assms(2) in simp)
qed

theorem failed_mmap_is_ignored_witness:
  "\<exists>plan. VMRemapParser_parse (\<lambda>_. False) \<lparr>ro_old_addr = 8192, ro_old_size = 4096, ro_new_size = 8192, ro_flags = RemapNone\<rparr>
      (ex_area None 8192 12288) = Ok plan \<and>
    mremap_apply (\<lambda>v _. (Err ENOMEM, v)) (\<lambda>v _ _. (Ok (), v))
      \<lparr>ro_old_addr = 8192, ro_old_size = 4096, ro_new_size = 8192, ro_flags = RemapNone\<rparr> plan () = (Ok 8192, ())"
proof -
  let ?opts = "\<lparr>ro_old_addr = 8192, ro_old_size = 4096, ro_new_size = 8192, ro_flags = RemapNone\<rparr>"
  obtain plan o1 where p: "VMRemapParser_parse (\<lambda>_. False) ?opts (ex_area None 8192 12288) = Ok plan" "rr_mmap_options plan = Some o1"
    by (simp add: remap_eval mmap_request_eq)
  from failed_mmap_is_ignored [OF p(1) _ p(2), of "\<lambda>v _. (Err ENOMEM, v)" "()" ENOMEM "()" "\<lambda>v _ _. (Ok (), v)"] p(1)
  show ?thesis by simp
qed

end
