(* ===== verification/WaitWake.thy ===== *)
theory WaitWake
  imports OcclumPrelude
begin

text \<open>
  Putting threads to sleep and waking them (\<^verbatim>\<open>src/libos/src/events/waiter\<close>,
  \<^verbatim>\<open>waiter_queue.rs\<close>, \<^verbatim>\<open>host_event_fd.rs\<close>).  The trait \<open>Synchronizer\<close> is a
  record of its atomic state changes, with the two implementations \<open>LevelSync\<close> and \<open>EdgeSync\<close>.
  A sleeping thread, its wakers and the host's event file are a step relation in which every
  atomic access is one step, so that all interleavings are covered; the host's event file is a
  parameter.  The locale \<open>synchronizer_laws\<close> states what the protocol needs of a synchronizer; in it
  the absence of lost wake-ups is proved once, and both implementations are interpreted.  The waiter
  queue follows, with the batched wake-up and its equivalence to waking one by one.
\<close>

section \<open>The synchronizers\<close>

text \<open>
  The atomic accesses of a synchronizer: the test at the start of \<open>wait\<close>, the test after the host
  reported an event, the store on the error path, \<open>reset\<close> and \<open>wake_cond\<close>.  The tests answer
  whether \<open>wait\<close> returns.
\<close>

record 's synchronizer =
  sy_enter :: "'s \<Rightarrow> bool \<times> 's"
  sy_retry :: "'s \<Rightarrow> bool \<times> 's"
  sy_abort :: "'s \<Rightarrow> 's"
  sy_reset :: "'s \<Rightarrow> 's"
  sy_wake_cond :: "'s \<Rightarrow> bool \<times> 's"

text \<open>\<open>LevelSync\<close>: a flag; \<open>compare_exchange\<close> tells the first waker from the others.\<close>

type_synonym host_fd = nat

record LevelSync =
  ls_is_woken :: bool
  ls_host_eventfd :: host_fd

definition LevelSync_new :: "host_fd \<Rightarrow> LevelSync" where
  "LevelSync_new fd = \<lparr>ls_is_woken = False, ls_host_eventfd = fd\<rparr>"

definition LevelSync_reset :: "LevelSync \<Rightarrow> LevelSync" where
  "LevelSync_reset s = s\<lparr>ls_is_woken := False\<rparr>"

definition LevelSync_wake_cond :: "LevelSync \<Rightarrow> bool \<times> LevelSync" where
  "LevelSync_wake_cond s = (if \<not> ls_is_woken s then (True, s\<lparr>ls_is_woken := True\<rparr>) else (False, s))"

definition LevelSync_wait :: "LevelSync synchronizer" where
  "LevelSync_wait =
     \<lparr>sy_enter = (\<lambda>s. (ls_is_woken s, s)), sy_retry = (\<lambda>s. (ls_is_woken s, s)), sy_abort = (\<lambda>s. s),
      sy_reset = LevelSync_reset, sy_wake_cond = LevelSync_wake_cond\<rparr>"

text \<open>
  \<open>EdgeSync\<close>: a counter with three values; \<open>fetch_sub\<close> turns \<open>NOTIFIED\<close> into \<open>INIT\<close> and
  \<open>INIT\<close> into \<open>WAIT\<close>.
\<close>

definition WAIT :: "32 word" where "WAIT = - 1"
definition INIT :: "32 word" where "INIT = 0"
definition NOTIFIED :: "32 word" where "NOTIFIED = 1"

record EdgeSync =
  es_state :: "32 word"
  es_host_eventfd :: host_fd

definition EdgeSync_new :: "host_fd \<Rightarrow> EdgeSync" where
  "EdgeSync_new fd = \<lparr>es_state = INIT, es_host_eventfd = fd\<rparr>"

definition EdgeSync_enter :: "EdgeSync \<Rightarrow> bool \<times> EdgeSync" where
  "EdgeSync_enter s = (es_state s = NOTIFIED, s\<lparr>es_state := es_state s - 1\<rparr>)"

definition EdgeSync_retry :: "EdgeSync \<Rightarrow> bool \<times> EdgeSync" where
  "EdgeSync_retry s = (if es_state s = NOTIFIED then (True, s\<lparr>es_state := INIT\<rparr>) else (False, s))"

definition EdgeSync_wake_cond :: "EdgeSync \<Rightarrow> bool \<times> EdgeSync" where
  "EdgeSync_wake_cond s = (es_state s = WAIT, s\<lparr>es_state := NOTIFIED\<rparr>)"

definition EdgeSync_wait :: "EdgeSync synchronizer" where
  "EdgeSync_wait =
     \<lparr>sy_enter = EdgeSync_enter, sy_retry = EdgeSync_retry, sy_abort = (\<lambda>s. s\<lparr>es_state := INIT\<rparr>),
      sy_reset = (\<lambda>s. s), sy_wake_cond = EdgeSync_wake_cond\<rparr>"

text \<open>\<open>wait_mut\<close> of \<open>EdgeSync\<close> polls once and returns whatever the reason was.\<close>

definition EdgeSync_wait_mut :: "EdgeSync synchronizer" where
  "EdgeSync_wait_mut = EdgeSync_wait\<lparr>sy_retry := (\<lambda>s. (True, s\<lparr>es_state := INIT\<rparr>))\<rparr>"

section \<open>A sleeping thread and its wakers\<close>

text \<open>
  The host's event file: what a write and a read make of it, and whether \<open>ppoll\<close> reports it
  readable.  A write makes it readable, and keeps it so.
\<close>

record 'h eventfd_ops =
  ev_write :: "'h \<Rightarrow> 'h"
  ev_read :: "'h \<Rightarrow> 'h"
  ev_readable :: "'h \<Rightarrow> bool"

definition eventfd_laws :: "'h eventfd_ops \<Rightarrow> bool" where
  "eventfd_laws ev \<longleftrightarrow> (\<forall>h. ev_readable ev (ev_write ev h))"

text \<open>The host's counter, which saturates below \<open>u64::MAX\<close>.\<close>

definition counter_eventfd :: "nat eventfd_ops" where
  "counter_eventfd = \<lparr>ev_write = (\<lambda>c. if c < 18446744073709551614 then Suc c else c), ev_read = (\<lambda>_. 0), ev_readable = (\<lambda>c. 0 < c)\<rparr>"

lemma counter_eventfd_laws: "eventfd_laws counter_eventfd"
  by (simp add: eventfd_laws_def counter_eventfd_def)

text \<open>
  Where the thread is in \<open>wait\<close>: before the first test, in \<open>ppoll\<close>, before the \<open>read\<close> that
  follows a successful \<open>ppoll\<close>, before the test after it, or back from \<open>wait\<close>.  \<open>wt_writes\<close>
  counts the wakers that have passed \<open>wake_cond\<close> and have still to write to the event file.
\<close>

datatype wait_pc = Entering | Polling | Reading | Retrying | Returned "unit res"

record ('s, 'h) wait_state =
  wt_sync :: 's
  wt_pc :: wait_pc
  wt_eventfd :: 'h
  wt_writes :: nat

datatype wait_label = ByWaiter | Interrupted | TimedOut | Again | ByWaker | WakerWrites | OtherWrites

fun test_result :: "('s, 'h) wait_state \<Rightarrow> bool \<times> 's \<Rightarrow> ('s, 'h) wait_state" where
  "test_result w (ok, s) = w\<lparr>wt_sync := s, wt_pc := (if ok then Returned (Ok ()) else Polling)\<rparr>"

inductive wait_step ::
  "'s synchronizer \<Rightarrow> 'h eventfd_ops \<Rightarrow> wait_label \<Rightarrow> ('s, 'h) wait_state \<Rightarrow> ('s, 'h) wait_state \<Rightarrow> bool"
  for sy ev where
  enter: "wt_pc w = Entering \<Longrightarrow> wait_step sy ev ByWaiter w (test_result w (sy_enter sy (wt_sync w)))"
| ppoll: "wt_pc w = Polling \<Longrightarrow> ev_readable ev (wt_eventfd w) \<Longrightarrow> wait_step sy ev ByWaiter w (w\<lparr>wt_pc := Reading\<rparr>)"
| read: "wt_pc w = Reading \<Longrightarrow>
    wait_step sy ev ByWaiter w (w\<lparr>wt_pc := Retrying, wt_eventfd := ev_read ev (wt_eventfd w)\<rparr>)"
| retry: "wt_pc w = Retrying \<Longrightarrow> wait_step sy ev ByWaiter w (test_result w (sy_retry sy (wt_sync w)))"
| interrupted: "wt_pc w = Polling \<Longrightarrow>
    wait_step sy ev Interrupted w (w\<lparr>wt_pc := Returned (Err EINTR), wt_sync := sy_abort sy (wt_sync w)\<rparr>)"
| timed_out: "wt_pc w = Polling \<Longrightarrow>
    wait_step sy ev TimedOut w (w\<lparr>wt_pc := Returned (Err ETIMEDOUT), wt_sync := sy_abort sy (wt_sync w),
      wt_eventfd := ev_read ev (wt_eventfd w)\<rparr>)"
| again: "wt_pc w = Returned r \<Longrightarrow>
    wait_step sy ev Again w (w\<lparr>wt_pc := Entering, wt_sync := sy_reset sy (wt_sync w)\<rparr>)"
| wake: "sy_wake_cond sy (wt_sync w) = (hit, s) \<Longrightarrow>
    wait_step sy ev ByWaker w (w\<lparr>wt_sync := s, wt_writes := (if hit then Suc (wt_writes w) else wt_writes w)\<rparr>)"
| waker_write: "wt_writes w = Suc n \<Longrightarrow>
    wait_step sy ev WakerWrites w (w\<lparr>wt_writes := n, wt_eventfd := ev_write ev (wt_eventfd w)\<rparr>)"
| other: "wait_step sy ev OtherWrites w (w\<lparr>wt_eventfd := ev_write ev (wt_eventfd w)\<rparr>)"

inductive_cases wait_stepE: "wait_step sy ev l w w'"
inductive_simps by_waiter_iff: "wait_step sy ev ByWaiter w w'"
inductive_simps waker_writes_iff: "wait_step sy ev WakerWrites w w'"

definition wait_init :: "'s \<Rightarrow> 'h \<Rightarrow> ('s, 'h) wait_state" where
  "wait_init s h = \<lparr>wt_sync = s, wt_pc = Entering, wt_eventfd = h, wt_writes = 0\<rparr>"

text \<open>
  An infinite run of the thread and its wakers, and weak fairness: a label that stays enabled is
  taken.
\<close>

definition wait_enabled :: "'s synchronizer \<Rightarrow> 'h eventfd_ops \<Rightarrow> wait_label \<Rightarrow> ('s, 'h) wait_state \<Rightarrow> bool" where
  "wait_enabled sy ev l w \<longleftrightarrow> (\<exists>w'. wait_step sy ev l w w')"

definition wait_run ::
  "'s synchronizer \<Rightarrow> 'h eventfd_ops \<Rightarrow> (nat \<Rightarrow> ('s, 'h) wait_state) \<Rightarrow> (nat \<Rightarrow> wait_label) \<Rightarrow> bool" where
  "wait_run sy ev \<sigma> lab \<longleftrightarrow> (\<forall>n. wait_step sy ev (lab n) (\<sigma> n) (\<sigma> (Suc n)))"

definition weakly_fair ::
  "'s synchronizer \<Rightarrow> 'h eventfd_ops \<Rightarrow> (nat \<Rightarrow> ('s, 'h) wait_state) \<Rightarrow> (nat \<Rightarrow> wait_label) \<Rightarrow> wait_label \<Rightarrow> bool" where
  "weakly_fair sy ev \<sigma> lab l \<longleftrightarrow>
     (\<forall>i. (\<forall>j \<ge> i. wait_enabled sy ev l (\<sigma> j)) \<longrightarrow> (\<exists>j \<ge> i. lab j = l))"

lemma weakly_fairD:
  assumes "weakly_fair sy ev \<sigma> lab l" "\<And>j. i \<le> j \<Longrightarrow> wait_enabled sy ev l (\<sigma> j)"
  obtains j where "i \<le> j" "lab j = l"
  using assms by (auto simp: weakly_fair_def)

definition has_returned :: "('s, 'h) wait_state \<Rightarrow> bool" where
  "has_returned w \<longleftrightarrow> (case wt_pc w of Returned _ \<Rightarrow> True | _ \<Rightarrow> False)"

section \<open>No wake-up is lost\<close>

text \<open>
  What the protocol needs of a synchronizer.  Between two waits it is \<open>idle\<close>; a thread that goes
  to sleep leaves it \<open>armed\<close>, and a waker leaves it \<open>notified\<close>, writing to the event file when
  it finds it armed.
\<close>

locale synchronizer_laws =
  fixes sy :: "'s synchronizer"
    and idle :: "'s \<Rightarrow> bool" and armed :: "'s \<Rightarrow> bool" and notified :: "'s \<Rightarrow> bool"
  assumes enter_notified: "notified s \<Longrightarrow> idle s \<Longrightarrow> fst (sy_enter sy s)"
    and enter_arms: "idle s \<Longrightarrow> \<not> fst (sy_enter sy s) \<Longrightarrow> armed (snd (sy_enter sy s))"
    and enter_idle: "idle s \<Longrightarrow> fst (sy_enter sy s) \<Longrightarrow> idle (snd (sy_enter sy s))"
    and retry_notified: "notified s \<Longrightarrow> fst (sy_retry sy s)"
    and retry_armed: "armed s \<Longrightarrow> \<not> fst (sy_retry sy s) \<Longrightarrow> armed (snd (sy_retry sy s))"
    and retry_idle: "armed s \<or> notified s \<Longrightarrow> fst (sy_retry sy s) \<Longrightarrow> idle (snd (sy_retry sy s))"
    and abort_idle: "armed s \<or> notified s \<Longrightarrow> idle (sy_abort sy s)"
    and reset_idle: "idle s \<Longrightarrow> idle (sy_reset sy s)"
    and wake_hits: "armed s \<Longrightarrow> fst (sy_wake_cond sy s)"
    and wake_notifies: "armed s \<or> notified s \<or> idle s \<Longrightarrow> notified (snd (sy_wake_cond sy s))"
    and wake_idle: "idle s \<Longrightarrow> idle (snd (sy_wake_cond sy s))"
    and armed_not_notified: "armed s \<Longrightarrow> \<not> notified s"
begin

definition awake_inv :: "'h eventfd_ops \<Rightarrow> ('s, 'h) wait_state \<Rightarrow> bool" where
  "awake_inv ev w \<longleftrightarrow>
     (case wt_pc w of
        Polling \<Rightarrow> armed (wt_sync w) \<or> notified (wt_sync w) \<and> (ev_readable ev (wt_eventfd w) \<or> 0 < wt_writes w)
      | Reading \<Rightarrow> armed (wt_sync w) \<or> notified (wt_sync w)
      | Retrying \<Rightarrow> armed (wt_sync w) \<or> notified (wt_sync w)
      | _ \<Rightarrow> idle (wt_sync w))"

lemma awake_inv_init: "idle s \<Longrightarrow> awake_inv ev (wait_init s h)"
  by (simp add: awake_inv_def wait_init_def)

lemma awake_inv_step:
  assumes "eventfd_laws ev" "awake_inv ev w" "wait_step sy ev l w w'"
  shows "awake_inv ev w'"
  using assms(3)
proof cases
  case enter
  then show ?thesis using assms(2) enter_arms [of "wt_sync w"] enter_idle [of "wt_sync w"]
    by (cases "sy_enter sy (wt_sync w)") (auto simp: awake_inv_def)
next
  case retry
  then show ?thesis
    using assms(2) retry_armed [of "wt_sync w"] retry_idle [of "wt_sync w"] retry_notified [of "wt_sync w"]
    by (cases "sy_retry sy (wt_sync w)") (auto simp: awake_inv_def)
next
  case (wake hit s)
  then show ?thesis
    using assms(2) wake_hits [of "wt_sync w"] wake_notifies [of "wt_sync w"] wake_idle [of "wt_sync w"]
    by (auto simp: awake_inv_def split: wait_pc.splits)
qed (use assms(1,2) abort_idle reset_idle in \<open>auto simp: awake_inv_def eventfd_laws_def split: wait_pc.splits\<close>)

text \<open>A notified thread stays so until it returns.\<close>

definition must_return :: "('s, 'h) wait_state \<Rightarrow> bool" where
  "must_return w \<longleftrightarrow> \<not> has_returned w \<and> notified (wt_sync w)"

lemma must_return_step:
  assumes "must_return w" "awake_inv ev w" "wait_step sy ev l w w'"
  shows "must_return w' \<or> has_returned w'"
  using assms(3)
proof cases
  case enter
  then show ?thesis using assms enter_notified [of "wt_sync w"]
    by (cases "sy_enter sy (wt_sync w)") (auto simp: must_return_def has_returned_def awake_inv_def)
next
  case retry
  then show ?thesis using assms retry_notified [of "wt_sync w"]
    by (cases "sy_retry sy (wt_sync w)") (auto simp: must_return_def has_returned_def)
next
  case (wake hit s)
  then show ?thesis using assms wake_notifies [of "wt_sync w"]
    by (auto simp: must_return_def has_returned_def)
qed (use assms(1) in \<open>auto simp: must_return_def has_returned_def split: wait_pc.splits\<close>)

text \<open>How far a notified thread still has to go.\<close>

definition distance :: "('s, 'h) wait_state \<Rightarrow> nat" where
  "distance w = (case wt_pc w of Polling \<Rightarrow> 3 | Reading \<Rightarrow> 2 | Retrying \<Rightarrow> 1 | Entering \<Rightarrow> 1 | Returned _ \<Rightarrow> 0)"

lemma distance_step:
  assumes "must_return w" "awake_inv ev w" "wait_step sy ev l w w'"
  shows "has_returned w' \<or> distance w' \<le> distance w" "l = ByWaiter \<Longrightarrow> has_returned w' \<or> distance w' < distance w"
proof -
  have *: "has_returned w' \<or> distance w' \<le> distance w \<and> (l = ByWaiter \<longrightarrow> distance w' < distance w)"
    using assms(3)
  proof cases
    case enter
    then show ?thesis using assms enter_notified [of "wt_sync w"]
      by (cases "sy_enter sy (wt_sync w)") (auto simp: must_return_def has_returned_def awake_inv_def)
  next
    case retry
    then show ?thesis using assms retry_notified [of "wt_sync w"]
      by (cases "sy_retry sy (wt_sync w)") (auto simp: must_return_def has_returned_def)
  qed (use assms(1) in \<open>auto simp: must_return_def has_returned_def distance_def split: wait_pc.splits\<close>)
  then show "has_returned w' \<or> distance w' \<le> distance w" "l = ByWaiter \<Longrightarrow> has_returned w' \<or> distance w' < distance w"
    by auto
qed

text \<open>
  Along a fair run a notified thread that the wakers leave alone would be stuck only in \<open>ppoll\<close>
  with an unreadable event file, and then some waker still has to write.
\<close>

lemma run_inv:
  assumes "eventfd_laws ev" "wait_run sy ev \<sigma> lab" "awake_inv ev (\<sigma> 0)"
  shows "awake_inv ev (\<sigma> n)"
proof (induction n)
  case (Suc n)
  have "wait_step sy ev (lab n) (\<sigma> n) (\<sigma> (Suc n))" using assms(2) by (simp add: wait_run_def)
  with Suc show ?case by (rule awake_inv_step [OF assms(1)])
qed (rule assms(3))

lemma stays_unless_waiter:
  assumes "must_return w" "wait_step sy ev l w w'" "l \<noteq> ByWaiter" "\<not> has_returned w'"
  shows "wt_pc w' = wt_pc w"
  using assms(2) by cases (use assms in \<open>auto simp: must_return_def has_returned_def\<close>)

lemma stays_readable:
  assumes "eventfd_laws ev" "wait_step sy ev l w w'" "l \<noteq> ByWaiter" "\<not> has_returned w'"
    "ev_readable ev (wt_eventfd w)"
  shows "ev_readable ev (wt_eventfd w')"
  using assms(2) by cases (use assms in \<open>auto simp: eventfd_laws_def has_returned_def\<close>)

lemma waiter_enabled:
  "wt_pc w \<in> {Entering, Reading, Retrying} \<Longrightarrow> wait_enabled sy ev ByWaiter w"
  "wt_pc w = Polling \<Longrightarrow> ev_readable ev (wt_eventfd w) \<Longrightarrow> wait_enabled sy ev ByWaiter w"
  by (auto simp: wait_enabled_def by_waiter_iff)

lemma writer_enabled:
  assumes "must_return w" "awake_inv ev w" "wt_pc w = Polling" "\<not> ev_readable ev (wt_eventfd w)"
  shows "wait_enabled sy ev WakerWrites w"
proof -
  have "0 < wt_writes w" using assms armed_not_notified [of "wt_sync w"] by (auto simp: awake_inv_def must_return_def)
  then show ?thesis by (cases "wt_writes w") (simp_all add: wait_enabled_def waker_writes_iff)
qed

lemma becomes_readable:
  assumes laws: "eventfd_laws ev" and run: "wait_run sy ev \<sigma> lab" and fair: "weakly_fair sy ev \<sigma> lab WakerWrites"
    and inv: "\<And>n. awake_inv ev (\<sigma> n)"
    and must: "\<And>j. i \<le> j \<Longrightarrow> must_return (\<sigma> j)" and pc: "\<And>j. i \<le> j \<Longrightarrow> wt_pc (\<sigma> j) = Polling"
  shows "\<exists>k \<ge> i. ev_readable ev (wt_eventfd (\<sigma> k))"
proof (rule ccontr)
  assume no: "\<not> ?thesis"
  then have "wait_enabled sy ev WakerWrites (\<sigma> j)" if "i \<le> j" for j
    using that writer_enabled [OF must inv pc] by blast
  with fair obtain j where j: "i \<le> j" "lab j = WakerWrites" by (rule weakly_fairD)
  then have "wait_step sy ev WakerWrites (\<sigma> j) (\<sigma> (Suc j))" using run by (auto simp: wait_run_def dest: spec [of _ j])
  then have "ev_readable ev (wt_eventfd (\<sigma> (Suc j)))" using laws by (auto simp: waker_writes_iff eventfd_laws_def)
  then show False using no j(1) by (meson le_SucI)
qed

lemma waiter_moves:
  assumes laws: "eventfd_laws ev" and run: "wait_run sy ev \<sigma> lab"
    and fair: "weakly_fair sy ev \<sigma> lab ByWaiter" "weakly_fair sy ev \<sigma> lab WakerWrites"
    and inv: "\<And>n. awake_inv ev (\<sigma> n)" and must: "\<And>j. i \<le> j \<Longrightarrow> must_return (\<sigma> j)"
  shows "\<exists>j \<ge> i. lab j = ByWaiter"
proof (rule ccontr)
  assume "\<not> ?thesis"
  then have no: "lab j \<noteq> ByWaiter" if "i \<le> j" for j using that by blast
  have step: "wait_step sy ev (lab j) (\<sigma> j) (\<sigma> (Suc j))" for j using run by (simp add: wait_run_def)
  have nr: "\<not> has_returned (\<sigma> j)" if "i \<le> j" for j using must [OF that] by (simp add: must_return_def)
  have pc: "wt_pc (\<sigma> j) = wt_pc (\<sigma> i)" if "i \<le> j" for j
    using that
  proof (induction j rule: dec_induct)
    case (step n)
    then show ?case using stays_unless_waiter [OF must \<open>wait_step sy ev (lab n) (\<sigma> n) (\<sigma> (Suc n))\<close> no nr]
      by simp
  qed simp
  show False
  proof (cases "wt_pc (\<sigma> i) = Polling")
    case True
    obtain k where k: "i \<le> k" "ev_readable ev (wt_eventfd (\<sigma> k))"
      using becomes_readable [OF laws run fair(2) inv must] pc True by auto
    have "ev_readable ev (wt_eventfd (\<sigma> j))" if "k \<le> j" for j
      using that
    proof (induction j rule: dec_induct)
      case (step n)
      then have "i \<le> n" using k(1) by simp
      then show ?case using stays_readable [OF laws \<open>wait_step sy ev (lab n) (\<sigma> n) (\<sigma> (Suc n))\<close> no nr] step by simp
    qed (rule k(2))
    then have "wait_enabled sy ev ByWaiter (\<sigma> j)" if "k \<le> j" for j
      using that pc [of j] True k(1) by (intro waiter_enabled(2)) simp_all
    with fair(1) obtain j where "k \<le> j" "lab j = ByWaiter" by (rule weakly_fairD)
    then show False using no [of j] k(1) by simp
  next
    case False
    then have "wt_pc (\<sigma> i) \<in> {Entering, Reading, Retrying}"
      using nr [of i] by (cases "wt_pc (\<sigma> i)") (auto simp: has_returned_def)
    then have "wait_enabled sy ev ByWaiter (\<sigma> j)" if "i \<le> j" for j
      using that pc [of j] by (intro waiter_enabled(1)) simp
    with fair(1) obtain j where "i \<le> j" "lab j = ByWaiter" by (rule weakly_fairD)
    then show False using no [of j] by simp
  qed
qed

lemma notified_returns:
  assumes laws: "eventfd_laws ev" and run: "wait_run sy ev \<sigma> lab" and init: "awake_inv ev (\<sigma> 0)"
    and fair: "weakly_fair sy ev \<sigma> lab ByWaiter" "weakly_fair sy ev \<sigma> lab WakerWrites"
    and must: "must_return (\<sigma> i)"
  shows "\<exists>j \<ge> i. has_returned (\<sigma> j)"
  using must
proof (induction "distance (\<sigma> i)" arbitrary: i rule: less_induct)
  case (less i)
  note inv = run_inv [OF laws run init]
  have step: "wait_step sy ev (lab j) (\<sigma> j) (\<sigma> (Suc j))" for j using run by (simp add: wait_run_def)
  show ?case
  proof (rule ccontr)
    assume "\<not> ?case"
    then have nr: "\<not> has_returned (\<sigma> j)" if "i \<le> j" for j using that by blast
    have all: "must_return (\<sigma> j) \<and> distance (\<sigma> j) \<le> distance (\<sigma> i)" if "i \<le> j" for j
      using that
    proof (induction j rule: dec_induct)
      case (step n)
      note st = \<open>wait_step sy ev (lab n) (\<sigma> n) (\<sigma> (Suc n))\<close>
      have "must_return (\<sigma> (Suc n))" "distance (\<sigma> (Suc n)) \<le> distance (\<sigma> n)"
        using must_return_step [OF _ inv st] distance_step(1) [OF _ inv st] step nr [of "Suc n"] by auto
      then show ?case using step by simp
    qed (use less.prems in simp)
    then obtain j where j: "i \<le> j" "lab j = ByWaiter" using waiter_moves [OF laws run fair inv, of i] by auto
    have nr': "\<not> has_returned (\<sigma> (Suc j))" using nr j(1) by simp
    have "distance (\<sigma> (Suc j)) < distance (\<sigma> j)"
      using distance_step(2) [OF _ inv step [of j] j(2)] all [OF j(1)] nr' by auto
    then have "distance (\<sigma> (Suc j)) < distance (\<sigma> i)" using all [OF j(1)] by simp
    moreover have "must_return (\<sigma> (Suc j))" using all [of "Suc j"] j(1) by simp
    ultimately obtain k where "Suc j \<le> k" "has_returned (\<sigma> k)" using less.hyps by blast
    then show False using nr j(1) by simp
  qed
qed

lemma woken_returns:
  assumes "eventfd_laws ev" "wait_run sy ev \<sigma> lab" "\<sigma> 0 = wait_init s h" "idle s"
    "weakly_fair sy ev \<sigma> lab ByWaiter" "weakly_fair sy ev \<sigma> lab WakerWrites" "lab i = ByWaker"
  shows "\<exists>j > i. has_returned (\<sigma> j)"
proof (cases "has_returned (\<sigma> (Suc i))")
  case False
  have init: "awake_inv ev (\<sigma> 0)" using assms(3,4) by (simp add: awake_inv_init)
  have "wait_step sy ev ByWaker (\<sigma> i) (\<sigma> (Suc i))" using assms(2,7) by (auto simp: wait_run_def dest: spec [of _ i])
  then have "notified (wt_sync (\<sigma> (Suc i)))"
  proof cases
    case (wake hit s')
    then show ?thesis using wake_notifies [of "wt_sync (\<sigma> i)"] run_inv [OF assms(1,2) init, of i]
      by (auto simp: awake_inv_def split: wait_pc.splits)
  qed
  then have "must_return (\<sigma> (Suc i))" using False by (simp add: must_return_def)
  from notified_returns [OF assms(1,2) init assms(5,6) this] show ?thesis by (auto simp: Suc_le_eq)
qed auto

end

section \<open>The two implementations\<close>

lemmas level_defs = LevelSync_wait_def LevelSync_wake_cond_def LevelSync_reset_def
lemmas edge_defs = EdgeSync_wait_def EdgeSync_wait_mut_def EdgeSync_enter_def EdgeSync_retry_def EdgeSync_wake_cond_def
  WAIT_def INIT_def NOTIFIED_def

interpretation level: synchronizer_laws LevelSync_wait "\<lambda>_. True" "\<lambda>s. \<not> ls_is_woken s" ls_is_woken
  by unfold_locales (simp_all add: level_defs)

interpretation edge: synchronizer_laws EdgeSync_wait "\<lambda>s. es_state s \<in> {INIT, NOTIFIED}" "\<lambda>s. es_state s = WAIT"
  "\<lambda>s. es_state s = NOTIFIED"
  by unfold_locales (auto simp: edge_defs)

interpretation edge_mut: synchronizer_laws EdgeSync_wait_mut "\<lambda>s. es_state s \<in> {INIT, NOTIFIED}" "\<lambda>s. es_state s = WAIT"
  "\<lambda>s. es_state s = NOTIFIED"
  by unfold_locales (auto simp: edge_defs)

text \<open>
  C11: A wake-up is never lost: in every fair run of a thread in \<open>wait\<close> of a \<open>LevelSync\<close>, its
  wakers and the other users of its event file, interleaved at every atomic access, a thread whose
  waker has run returns from \<open>wait\<close>.
\<close>

theorem level_woken_returns:
  assumes "eventfd_laws ev" "wait_run LevelSync_wait ev \<sigma> lab" "\<sigma> 0 = wait_init (LevelSync_new fd) h"
    "weakly_fair LevelSync_wait ev \<sigma> lab ByWaiter" "weakly_fair LevelSync_wait ev \<sigma> lab WakerWrites"
    "lab i = ByWaker"
  shows "\<exists>j > i. has_returned (\<sigma> j)"
  by (rule level.woken_returns [OF assms(1,2,3) _ assms(4,5,6)]) simp

text \<open>A concrete fair run: the thread goes to sleep, is woken and returns; later wakers find it woken.\<close>

definition ex_run :: "nat \<Rightarrow> (LevelSync, nat) wait_state" where
  "ex_run n = \<lparr>wt_sync = \<lparr>ls_is_woken = (2 \<le> n), ls_host_eventfd = 3\<rparr>,
     wt_pc = (if n = 0 then Entering else if n \<le> 3 then Polling else if n = 4 then Reading else if n = 5 then Retrying
              else Returned (Ok ())),
     wt_eventfd = (if n = 3 \<or> n = 4 then 1 else 0), wt_writes = (if n = 2 then 1 else 0)\<rparr>"

definition ex_label :: "nat \<Rightarrow> wait_label" where
  "ex_label n = (if n = 1 \<or> 6 \<le> n then ByWaker else if n = 2 then WakerWrites else ByWaiter)"

lemma ex_run: "wait_run LevelSync_wait counter_eventfd ex_run ex_label"
proof -
  have "wait_step LevelSync_wait counter_eventfd (ex_label n) (ex_run n) (ex_run (Suc n))" for n
  proof -
    consider "n = 0" | "n = 1" | "n = 2" | "n = 3" | "n = 4" | "n = 5" | "6 \<le> n" by linarith
    then show ?thesis
      by cases (auto simp: wait_step.simps ex_run_def ex_label_def level_defs counter_eventfd_def)
  qed
  then show ?thesis by (simp add: wait_run_def)
qed

lemma ex_run_fair: "weakly_fair LevelSync_wait counter_eventfd ex_run ex_label l" if "l \<in> {ByWaiter, WakerWrites}"
proof -
  have "\<not> wait_enabled LevelSync_wait counter_eventfd l (ex_run (6 + n))" for n
    using that by (auto simp: wait_enabled_def by_waiter_iff waker_writes_iff ex_run_def)
  moreover have "i \<le> 6 + i" for i :: nat by simp
  ultimately show ?thesis unfolding weakly_fair_def by blast
qed

theorem level_woken_returns_witness: "\<exists>j > 1. has_returned (ex_run j)"
  by (rule level_woken_returns [OF counter_eventfd_laws ex_run _ ex_run_fair ex_run_fair])
    (simp_all add: ex_run_def ex_label_def wait_init_def LevelSync_new_def)

section \<open>Queues of waiters\<close>

text \<open>
  Waiters are identifiers; \<open>sw_syncs\<close> holds their synchronizers, \<open>None\<close> for a waiter that has
  been dropped and whose wakers can no longer be upgraded.  \<open>sw_writes\<close> is the log of the writes
  to event files.
\<close>

type_synonym waiter_id = nat

record sync_world =
  sw_syncs :: "waiter_id \<Rightarrow> LevelSync option"
  sw_writes :: "host_fd list"

definition Waiter_reset :: "sync_world \<Rightarrow> waiter_id \<Rightarrow> sync_world" where
  "Waiter_reset w x = w\<lparr>sw_syncs := (sw_syncs w)(x := map_option LevelSync_reset (sw_syncs w x))\<rparr>"

definition Waker_wake :: "sync_world \<Rightarrow> waiter_id \<Rightarrow> sync_world" where
  "Waker_wake w x =
     (case sw_syncs w x of
        None \<Rightarrow> w
      | Some inner \<Rightarrow>
          (case LevelSync_wake_cond inner of
             (hit, inner') \<Rightarrow> w\<lparr>sw_syncs := (sw_syncs w)(x \<mapsto> inner'),
                                sw_writes := sw_writes w @ (if hit then [ls_host_eventfd inner'] else [])\<rparr>))"

text \<open>The iterator chain of \<open>batch_wake\<close>: the event files to write to, collected while the flags are set.\<close>

fun wake_conds :: "(waiter_id \<Rightarrow> LevelSync option) \<Rightarrow> waiter_id list \<Rightarrow> host_fd list \<times> (waiter_id \<Rightarrow> LevelSync option)" where
  "wake_conds syncs [] = ([], syncs)"
| "wake_conds syncs (x # xs) =
     (case syncs x of
        None \<Rightarrow> wake_conds syncs xs
      | Some inner \<Rightarrow>
          (case LevelSync_wake_cond inner of
             (hit, inner') \<Rightarrow>
               (case wake_conds (syncs(x \<mapsto> inner')) xs of
                  (fds, syncs') \<Rightarrow> (if hit then ls_host_eventfd inner' # fds else fds, syncs'))))"

definition batch_wake :: "sync_world \<Rightarrow> waiter_id list \<Rightarrow> sync_world" where
  "batch_wake w xs =
     (case wake_conds (sw_syncs w) xs of
        (host_eventfds, syncs) \<Rightarrow> w\<lparr>sw_syncs := syncs, sw_writes := sw_writes w @ host_eventfds\<rparr>)"

record WaiterQueue =
  wq_count :: usize
  wq_wakers :: "waiter_id list"

definition WaiterQueue_new :: WaiterQueue where
  "WaiterQueue_new = \<lparr>wq_count = 0, wq_wakers = []\<rparr>"

definition WaiterQueue_is_empty :: "WaiterQueue \<Rightarrow> bool" where
  "WaiterQueue_is_empty q \<longleftrightarrow> wq_count q = 0"

definition reset_and_enqueue :: "sync_world \<Rightarrow> WaiterQueue \<Rightarrow> waiter_id \<Rightarrow> WaiterQueue \<times> sync_world" where
  "reset_and_enqueue w q x =
     (q\<lparr>wq_count := uadd (wq_count q) 1, wq_wakers := wq_wakers q @ [x]\<rparr>, Waiter_reset w x)"

definition dequeue_and_wake_nr :: "sync_world \<Rightarrow> WaiterQueue \<Rightarrow> usize \<Rightarrow> usize \<times> WaiterQueue \<times> sync_world" where
  "dequeue_and_wake_nr w q max_count =
     (if WaiterQueue_is_empty q then (0, q, w)
      else let max_count = min max_count (length (wq_wakers q));
               to_wake = take max_count (wq_wakers q);
               q' = q\<lparr>wq_wakers := drop max_count (wq_wakers q), wq_count := usub (wq_count q) (length to_wake)\<rparr>
           in (length to_wake, q', batch_wake w to_wake))"

definition dequeue_and_wake_one :: "sync_world \<Rightarrow> WaiterQueue \<Rightarrow> usize \<times> WaiterQueue \<times> sync_world" where
  "dequeue_and_wake_one w q = dequeue_and_wake_nr w q 1"

definition dequeue_and_wake_all :: "sync_world \<Rightarrow> WaiterQueue \<Rightarrow> usize \<times> WaiterQueue \<times> sync_world" where
  "dequeue_and_wake_all w q = dequeue_and_wake_nr w q (USIZE_MOD - 1)"

definition wq_inv :: "WaiterQueue \<Rightarrow> bool" where
  "wq_inv q \<longleftrightarrow> wq_count q = length (wq_wakers q) \<and> length (wq_wakers q) < USIZE_MOD - 1"

text \<open>What waking does: the woken waiters that are alive have their flag set, in whatever order.\<close>

definition woken_syncs :: "(waiter_id \<Rightarrow> LevelSync option) \<Rightarrow> waiter_id set \<Rightarrow> waiter_id \<Rightarrow> LevelSync option" where
  "woken_syncs syncs X = (\<lambda>x. if x \<in> X then map_option (\<lambda>s. s\<lparr>ls_is_woken := True\<rparr>) (syncs x) else syncs x)"

lemma LevelSync_wake_cond_snd: "snd (LevelSync_wake_cond s) = s\<lparr>ls_is_woken := True\<rparr>"
  by (simp add: LevelSync_wake_cond_def)

lemma snd_wake_conds: "snd (wake_conds syncs xs) = woken_syncs syncs (set xs)"
proof (induction xs arbitrary: syncs)
  case (Cons x xs)
  show ?case
  proof (cases "syncs x")
    case None
    then show ?thesis using Cons by (auto simp: woken_syncs_def)
  next
    case (Some inner)
    obtain hit inner' where c: "LevelSync_wake_cond inner = (hit, inner')" by fastforce
    then have i: "inner' = inner\<lparr>ls_is_woken := True\<rparr>" using LevelSync_wake_cond_snd [of inner] by simp
    have "snd (wake_conds syncs (x # xs)) = snd (wake_conds (syncs(x \<mapsto> inner')) xs)"
      using Some c by (simp add: case_prod_unfold)
    also have "\<dots> = woken_syncs (syncs(x \<mapsto> inner')) (set xs)" by (rule Cons)
    also have "\<dots> = woken_syncs syncs (set (x # xs))"
      using Some by (auto simp: woken_syncs_def i)
    finally show ?thesis .
  qed
qed (simp add: woken_syncs_def)

lemma batch_wake_Nil: "batch_wake w [] = w"
  by (simp add: batch_wake_def)

lemma batch_wake_Cons: "batch_wake w (x # xs) = batch_wake (Waker_wake w x) xs"
  by (cases "sw_syncs w x") (simp_all add: batch_wake_def Waker_wake_def case_prod_unfold)

text \<open>
  C25: The batched wake-up does what waking the waiters one by one does: the same flags are set and
  the same event files are written, in the same order.
\<close>

theorem batch_wake_one_by_one: "batch_wake w xs = fold (\<lambda>x w. Waker_wake w x) xs w"
  by (induction xs arbitrary: w) (simp_all add: batch_wake_Nil batch_wake_Cons)

lemma sw_syncs_batch_wake: "sw_syncs (batch_wake w xs) = woken_syncs (sw_syncs w) (set xs)"
  by (simp add: batch_wake_def case_prod_unfold snd_wake_conds)

lemma reset_and_enqueue_inv:
  "wq_inv q \<Longrightarrow> Suc (length (wq_wakers q)) < USIZE_MOD - 1 \<Longrightarrow> wq_inv (fst (reset_and_enqueue w q x))"
  by (simp add: wq_inv_def reset_and_enqueue_def usize_simps)

lemma dequeue_and_wake_nr_eq:
  assumes "wq_inv q"
  shows "dequeue_and_wake_nr w q n =
      (min n (length (wq_wakers q)),
       q\<lparr>wq_count := length (wq_wakers q) - n, wq_wakers := drop n (wq_wakers q)\<rparr>,
       batch_wake w (take n (wq_wakers q)))"
proof (cases "wq_wakers q")
  case Nil
  then show ?thesis using assms by (simp add: dequeue_and_wake_nr_def WaiterQueue_is_empty_def wq_inv_def batch_wake_def)
next
  case (Cons x xs)
  have "take (min n (length (wq_wakers q))) (wq_wakers q) = take n (wq_wakers q)"
    "drop (min n (length (wq_wakers q))) (wq_wakers q) = drop n (wq_wakers q)"
    "usub (length (wq_wakers q)) (length (take n (wq_wakers q))) = length (wq_wakers q) - n"
    by (auto simp: min_def usub_def)
  then show ?thesis
    using assms Cons unfolding dequeue_and_wake_nr_def WaiterQueue_is_empty_def wq_inv_def Let_def by (simp add: min.commute)
qed

text \<open>
  C26: Waking the first waiters of a queue takes exactly that many from its front, sets the flag of
  each that is still alive and of no other, and keeps the counter equal to the length of the queue.
\<close>

theorem dequeue_and_wake_fifo:
  assumes "wq_inv q"
  shows "fst (dequeue_and_wake_nr w q n) = min n (length (wq_wakers q)) \<and>
    wq_wakers (fst (snd (dequeue_and_wake_nr w q n))) = drop n (wq_wakers q) \<and>
    wq_inv (fst (snd (dequeue_and_wake_nr w q n))) \<and>
    sw_syncs (snd (snd (dequeue_and_wake_nr w q n))) = woken_syncs (sw_syncs w) (set (take n (wq_wakers q)))"
  using dequeue_and_wake_nr_eq [OF assms, of w n] assms by (simp add: sw_syncs_batch_wake wq_inv_def less_imp_diff_less)

theorem dequeue_and_wake_fifo_witness:
  "wq_inv \<lparr>wq_count = 3, wq_wakers = [4, 7, 9]\<rparr> \<and>
   wq_wakers (fst (snd (dequeue_and_wake_nr \<lparr>sw_syncs = (\<lambda>_. Some (LevelSync_new 5)), sw_writes = []\<rparr>
     \<lparr>wq_count = 3, wq_wakers = [4, 7, 9]\<rparr> 2))) = [9]"
proof -
  have "wq_inv \<lparr>wq_count = 3, wq_wakers = [4, 7, 9]\<rparr>" by (simp add: wq_inv_def)
  from this dequeue_and_wake_fifo [OF this, of _ 2] show ?thesis by simp
qed

end
