(* ===== verification/Notify.thy ===== *)
theory Notify
  imports WaitWake
begin

text \<open>
  Events and their observers (\<^verbatim>\<open>src/libos/src/events/notifier.rs\<close>, \<^verbatim>\<open>poller.rs\<close>, and the
  \<open>IoEvents\<close> of \<^verbatim>\<open>src/libos/src/fs/events.rs\<close>): the notifier with its subscribers, pollees
  with their pending events, and pollers that sleep until a pollee gets an event they asked for.
  Observers are held by weak references: a world records which of them are alive.  The lemmas show what
  a broadcast reaches, and that a poller is never asleep when an event it asked for arrives.
\<close>

section \<open>I/O events\<close>

type_synonym IoEvents = "32 word"

definition IO_IN :: IoEvents where "IO_IN = 0x0001"
definition IO_PRI :: IoEvents where "IO_PRI = 0x0002"
definition IO_OUT :: IoEvents where "IO_OUT = 0x0004"
definition IO_ERR :: IoEvents where "IO_ERR = 0x0008"
definition IO_HUP :: IoEvents where "IO_HUP = 0x0010"
definition IO_NVAL :: IoEvents where "IO_NVAL = 0x0020"
definition IO_RDHUP :: IoEvents where "IO_RDHUP = 0x2000"

definition ALWAYS_POLL :: IoEvents where "ALWAYS_POLL = IO_ERR OR IO_HUP"

definition IoEvents_all :: IoEvents where
  "IoEvents_all = IO_IN OR IO_PRI OR IO_OUT OR IO_ERR OR IO_HUP OR IO_NVAL OR IO_RDHUP OR ALWAYS_POLL"

lemmas io_events_defs = IO_IN_def IO_PRI_def IO_OUT_def IO_ERR_def IO_HUP_def IO_NVAL_def IO_RDHUP_def ALWAYS_POLL_def
  IoEvents_all_def

definition IoEvents_from_raw :: "32 word \<Rightarrow> IoEvents" where
  "IoEvents_from_raw raw = raw AND IoEvents_all"

record poll_status =
  ps_read :: bool
  ps_write :: bool
  ps_error :: bool

definition IoEvents_from_poll_status :: "poll_status \<Rightarrow> IoEvents" where
  "IoEvents_from_poll_status st =
     (if ps_error st then IO_ERR
      else (if ps_read st then IO_IN else 0) OR (if ps_write st then IO_OUT else 0))"

definition IoEvents_filter :: "IoEvents \<Rightarrow> IoEvents \<Rightarrow> bool" where
  "IoEvents_filter msk events \<longleftrightarrow> msk AND events \<noteq> 0"

section \<open>Notifiers\<close>

record ('o, 'f) Subscriber =
  sb_observer :: 'o
  sb_filter :: "'f option"
  sb_metadata :: "nat option"

type_synonym ('o, 'f) Notifier = "('o, 'f) Subscriber list"

definition Notifier_new :: "('o, 'f) Notifier" where
  "Notifier_new = []"

definition Notifier_register :: "('o, 'f) Notifier \<Rightarrow> 'o \<Rightarrow> 'f option \<Rightarrow> nat option \<Rightarrow> ('o, 'f) Notifier" where
  "Notifier_register n obs flt metadata = n @ [\<lparr>sb_observer = obs, sb_filter = flt, sb_metadata = metadata\<rparr>]"

definition Notifier_unregister :: "('o, 'f) Notifier \<Rightarrow> 'o \<Rightarrow> ('o, 'f) Notifier" where
  "Notifier_unregister n obs = filter (\<lambda>subscriber. sb_observer subscriber \<noteq> obs) n"

text \<open>
  \<open>broadcast\<close>: \<open>flt\<close> is the filter's test, \<open>alive w obs\<close> whether the weak reference upgrades, and
  \<open>on_event\<close> the callback.  The first interested observer that is gone ends the loop.
\<close>

fun Notifier_broadcast ::
  "('f \<Rightarrow> 'e \<Rightarrow> bool) \<Rightarrow> ('w \<Rightarrow> 'o \<Rightarrow> bool) \<Rightarrow> ('o \<Rightarrow> 'e \<Rightarrow> nat option \<Rightarrow> 'w \<Rightarrow> 'w) \<Rightarrow>
     ('o, 'f) Notifier \<Rightarrow> 'e \<Rightarrow> 'w \<Rightarrow> 'w" where
  "Notifier_broadcast flt alive on_event [] event w = w"
| "Notifier_broadcast flt alive on_event (subscriber # n) event w =
     (if case sb_filter subscriber of Some f \<Rightarrow> \<not> flt f event | None \<Rightarrow> False
      then Notifier_broadcast flt alive on_event n event w
      else if \<not> alive w (sb_observer subscriber) then w
      else Notifier_broadcast flt alive on_event n event
             (on_event (sb_observer subscriber) event (sb_metadata subscriber) w))"

definition interested :: "('f \<Rightarrow> 'e \<Rightarrow> bool) \<Rightarrow> 'e \<Rightarrow> ('o, 'f) Subscriber \<Rightarrow> bool" where
  "interested flt event subscriber \<longleftrightarrow> (case sb_filter subscriber of Some f \<Rightarrow> flt f event | None \<Rightarrow> True)"

section \<open>Pollees and pollers\<close>

text \<open>
  An observer of I/O events is the inner part of a poller or some other object.  \<open>po_seen\<close> logs
  what the other observers are told, \<open>po_writes\<close> the writes to event files.  The operations take a
  pollee or poller that exists, as their references do.
\<close>

datatype io_observer = ObsPoller nat | ObsOther nat

record Pollee =
  pe_pollers :: "(io_observer, IoEvents) Notifier"
  pe_events :: IoEvents

record Poller =
  pr_waiter :: EdgeSync
  pr_pollees :: "nat list"

record poll_world =
  po_pollees :: "nat \<Rightarrow> Pollee option"
  po_pollers :: "nat \<Rightarrow> Poller option"
  po_others :: "nat \<Rightarrow> bool"
  po_seen :: "(nat \<times> IoEvents) list"
  po_writes :: "host_fd list"

fun observer_alive :: "poll_world \<Rightarrow> io_observer \<Rightarrow> bool" where
  "observer_alive w (ObsPoller p) \<longleftrightarrow> po_pollers w p \<noteq> None"
| "observer_alive w (ObsOther k) \<longleftrightarrow> po_others w k"

text \<open>\<open>on_event\<close> of a poller wakes its waiter.\<close>

fun PollerInner_on_event :: "io_observer \<Rightarrow> IoEvents \<Rightarrow> nat option \<Rightarrow> poll_world \<Rightarrow> poll_world" where
  "PollerInner_on_event (ObsPoller p) event _ w =
     (case po_pollers w p of
        None \<Rightarrow> w
      | Some pr \<Rightarrow>
          (case EdgeSync_wake_cond (pr_waiter pr) of
             (hit, s) \<Rightarrow> w\<lparr>po_pollers := (po_pollers w)(p \<mapsto> pr\<lparr>pr_waiter := s\<rparr>),
                            po_writes := po_writes w @ (if hit then [es_host_eventfd s] else [])\<rparr>))"
| "PollerInner_on_event (ObsOther k) event _ w = w\<lparr>po_seen := po_seen w @ [(k, event)]\<rparr>"

definition on_pollee :: "poll_world \<Rightarrow> nat \<Rightarrow> (Pollee \<Rightarrow> Pollee) \<Rightarrow> poll_world" where
  "on_pollee w e f = w\<lparr>po_pollees := (po_pollees w)(e := map_option f (po_pollees w e))\<rparr>"

definition Pollee_new :: "poll_world \<Rightarrow> nat \<Rightarrow> IoEvents \<Rightarrow> poll_world" where
  "Pollee_new w e init_events = w\<lparr>po_pollees := (po_pollees w)(e \<mapsto> \<lparr>pe_pollers = Notifier_new, pe_events = init_events\<rparr>)\<rparr>"

definition Pollee_events :: "poll_world \<Rightarrow> nat \<Rightarrow> IoEvents" where
  "Pollee_events w e = (case po_pollees w e of None \<Rightarrow> 0 | Some pe \<Rightarrow> pe_events pe)"

definition Pollee_register_observer :: "poll_world \<Rightarrow> nat \<Rightarrow> io_observer \<Rightarrow> IoEvents \<Rightarrow> poll_world" where
  "Pollee_register_observer w e obs msk =
     (let msk = msk OR ALWAYS_POLL
      in on_pollee w e (\<lambda>pe. pe\<lparr>pe_pollers := Notifier_register (pe_pollers pe) obs (Some msk) None\<rparr>))"

definition Pollee_unregister_observer :: "poll_world \<Rightarrow> nat \<Rightarrow> io_observer \<Rightarrow> poll_world" where
  "Pollee_unregister_observer w e obs =
     on_pollee w e (\<lambda>pe. pe\<lparr>pe_pollers := Notifier_unregister (pe_pollers pe) obs\<rparr>)"

definition Pollee_connect_poller :: "poll_world \<Rightarrow> nat \<Rightarrow> IoEvents \<Rightarrow> nat \<Rightarrow> poll_world" where
  "Pollee_connect_poller w e msk p =
     (let w = Pollee_register_observer w e (ObsPoller p) msk
      in w\<lparr>po_pollers := (po_pollers w)(p := map_option (\<lambda>pr. pr\<lparr>pr_pollees := pr_pollees pr @ [e]\<rparr>) (po_pollers w p))\<rparr>)"

definition Pollee_poll :: "poll_world \<Rightarrow> nat \<Rightarrow> IoEvents \<Rightarrow> nat option \<Rightarrow> IoEvents \<times> poll_world" where
  "Pollee_poll w e msk poller =
     (let msk = msk OR ALWAYS_POLL
      in case poller of
           None \<Rightarrow> (Pollee_events w e AND msk, w)
         | Some p \<Rightarrow>
             (let w = Pollee_connect_poller w e msk p
              in (Pollee_events w e AND msk, w)))"

definition Pollee_add_events :: "poll_world \<Rightarrow> nat \<Rightarrow> IoEvents \<Rightarrow> poll_world" where
  "Pollee_add_events w e events =
     (let w = on_pollee w e (\<lambda>pe. pe\<lparr>pe_events := pe_events pe OR events\<rparr>)
      in case po_pollees w e of
           None \<Rightarrow> w
         | Some pe \<Rightarrow> Notifier_broadcast IoEvents_filter observer_alive PollerInner_on_event (pe_pollers pe) events w)"

definition Pollee_del_events :: "poll_world \<Rightarrow> nat \<Rightarrow> IoEvents \<Rightarrow> poll_world" where
  "Pollee_del_events w e events = on_pollee w e (\<lambda>pe. pe\<lparr>pe_events := pe_events pe AND NOT events\<rparr>)"

definition Pollee_reset_events :: "poll_world \<Rightarrow> nat \<Rightarrow> poll_world" where
  "Pollee_reset_events w e = on_pollee w e (\<lambda>pe. pe\<lparr>pe_events := pe_events pe AND NOT IoEvents_all\<rparr>)"

definition Poller_new :: "poll_world \<Rightarrow> nat \<Rightarrow> host_fd \<Rightarrow> poll_world" where
  "Poller_new w p fd = w\<lparr>po_pollers := (po_pollers w)(p \<mapsto> \<lparr>pr_waiter = EdgeSync_new fd, pr_pollees = []\<rparr>)\<rparr>"

text \<open>\<open>drop\<close> of a poller: every pollee that is still alive forgets it, then the poller is freed.\<close>

fun unregister_all :: "poll_world \<Rightarrow> io_observer \<Rightarrow> nat list \<Rightarrow> poll_world" where
  "unregister_all w obs [] = w"
| "unregister_all w obs (e # es) = unregister_all (Pollee_unregister_observer w e obs) obs es"

definition Poller_drop :: "poll_world \<Rightarrow> nat \<Rightarrow> poll_world" where
  "Poller_drop w p =
     (case po_pollers w p of
        None \<Rightarrow> w
      | Some pr \<Rightarrow>
          (let w = unregister_all w (ObsPoller p) (pr_pollees pr)
           in w\<lparr>po_pollers := (po_pollers w)(p := None)\<rparr>))"

section \<open>What a broadcast reaches\<close>

text \<open>
  The observers told of an event: the interested ones up to the first that is gone, provided the
  callbacks free no observer.
\<close>

definition tell :: "('o \<Rightarrow> 'e \<Rightarrow> nat option \<Rightarrow> 'w \<Rightarrow> 'w) \<Rightarrow> 'e \<Rightarrow> ('o, 'f) Subscriber \<Rightarrow> 'w \<Rightarrow> 'w" where
  "tell on_event event sb w = on_event (sb_observer sb) event (sb_metadata sb) w"

lemma broadcast_skip: "\<not> interested flt event sb \<Longrightarrow>
    Notifier_broadcast flt alive on_event (sb # n) event w = Notifier_broadcast flt alive on_event n event w"
  by (auto simp: interested_def split: option.splits)

lemma broadcast_tell: "interested flt event sb \<Longrightarrow> alive w (sb_observer sb) \<Longrightarrow>
    Notifier_broadcast flt alive on_event (sb # n) event w = Notifier_broadcast flt alive on_event n event (tell on_event event sb w)"
  by (auto simp: interested_def tell_def split: option.splits)

lemma broadcast_gone: "interested flt event sb \<Longrightarrow> \<not> alive w (sb_observer sb) \<Longrightarrow>
    Notifier_broadcast flt alive on_event (sb # n) event w = w"
  by (auto simp: interested_def split: option.splits)

lemmas broadcast_cases = broadcast_skip broadcast_tell broadcast_gone

lemma broadcast_fold:
  fixes n :: "('o, 'f) Notifier"
  assumes "\<And>w (sb :: ('o, 'f) Subscriber) x. alive (tell on_event event sb w) x = alive w x"
  shows "Notifier_broadcast flt alive on_event n event w =
    fold (tell on_event event) (takeWhile (\<lambda>sb. alive w (sb_observer sb)) (filter (interested flt event) n)) w"
proof (induction n arbitrary: w)
  case (Cons sb n)
  show ?case
    using Cons [of w] Cons [of "tell on_event event sb w"]
    by (cases "interested flt event sb"; cases "alive w (sb_observer sb)")
      (simp_all add: broadcast_cases assms del: Notifier_broadcast.simps)
qed simp

section \<open>Pollers and pollees\<close>

lemma on_event_pollers:
  "po_pollers (tell PollerInner_on_event events sb w) p =
     (if sb_observer sb = ObsPoller p
      then map_option (\<lambda>pr. pr\<lparr>pr_waiter := (pr_waiter pr)\<lparr>es_state := NOTIFIED\<rparr>\<rparr>) (po_pollers w p) else po_pollers w p)"
  by (cases "sb_observer sb") (auto simp: tell_def EdgeSync_wake_cond_def split: option.splits)

lemma on_event_others:
  "po_pollees (tell PollerInner_on_event events sb w) = po_pollees w"
  "po_others (tell PollerInner_on_event events sb w) = po_others w"
  by (cases "sb_observer sb"; simp add: tell_def split: option.splits prod.splits)+

lemma on_event_alive: "observer_alive (tell PollerInner_on_event events sb w) x = observer_alive w x"
  by (cases x) (simp_all add: on_event_pollers on_event_others)

lemma on_events_alive: "observer_alive (fold (tell PollerInner_on_event events) sbs w) x = observer_alive w x"
  by (induction sbs arbitrary: w) (simp_all add: on_event_alive)

lemmas io_broadcast_fold = broadcast_fold [where alive = observer_alive and on_event = PollerInner_on_event, OF on_event_alive]

lemma tell_all_pollers:
  "po_pollers (fold (tell PollerInner_on_event events) sbs w) p =
     (if ObsPoller p \<in> sb_observer ` set sbs
      then map_option (\<lambda>pr. pr\<lparr>pr_waiter := (pr_waiter pr)\<lparr>es_state := NOTIFIED\<rparr>\<rparr>) (po_pollers w p) else po_pollers w p)"
  by (induction sbs arbitrary: w) (auto simp: on_event_pollers option.map_comp comp_def)

lemma tell_all_others:
  "po_pollees (fold (tell PollerInner_on_event events) sbs w) = po_pollees w"
  "po_others (fold (tell PollerInner_on_event events) sbs w) = po_others w"
  by (induction sbs arbitrary: w) (simp_all add: on_event_others)

text \<open>Which subscribers \<open>add_events\<close> tells.\<close>

definition told :: "poll_world \<Rightarrow> Pollee \<Rightarrow> IoEvents \<Rightarrow> (io_observer, IoEvents) Subscriber list" where
  "told w pe events = takeWhile (\<lambda>sb. observer_alive w (sb_observer sb)) (filter (interested IoEvents_filter events) (pe_pollers pe))"

lemma observer_alive_on_pollee [simp]: "observer_alive (on_pollee w e f) x = observer_alive w x"
  by (cases x) (simp_all add: on_pollee_def)

lemma on_pollee_simps [simp]:
  "po_pollers (on_pollee w e f) = po_pollers w" "po_others (on_pollee w e f) = po_others w"
  "po_pollees (on_pollee w e f) = (po_pollees w)(e := map_option f (po_pollees w e))"
  by (simp_all add: on_pollee_def)

lemma add_events_eq:
  assumes "po_pollees w e = Some pe"
  shows "Pollee_add_events w e events =
    fold (tell PollerInner_on_event events) (told w pe events) (on_pollee w e (\<lambda>pe. pe\<lparr>pe_events := pe_events pe OR events\<rparr>))"
  using assms by (simp add: Pollee_add_events_def Let_def io_broadcast_fold told_def)

text \<open>
  C32: An observer that has been freed without being unregistered hides events from everyone behind
  it: when such an observer had asked for an event, a poller registered after it is not woken by that
  event, and may sleep on although the event is pending.
\<close>

theorem freed_observer_hides_event:
  assumes "po_pollees w e = Some pe" "pe_pollers pe = xs @ d # ys"
    and "interested IoEvents_filter events d" "\<not> observer_alive w (sb_observer d)"
    and "ObsPoller p \<notin> sb_observer ` set xs"
  shows "po_pollers (Pollee_add_events w e events) p = po_pollers w p \<and>
    Pollee_events (Pollee_add_events w e events) e = Pollee_events w e OR events"
proof -
  have "set (told w pe events) \<subseteq> set xs"
    using assms(3,4) by (auto simp: told_def assms(2) takeWhile_tail dest: set_takeWhileD)
  then have "ObsPoller p \<notin> sb_observer ` set (told w pe events)" using assms(5) by blast
  then show ?thesis
    using assms(1) by (simp add: add_events_eq [OF assms(1)] tell_all_pollers Pollee_events_def tell_all_others)
qed

text \<open>A poller asleep behind a freed observer.\<close>

definition ex_poll_world :: poll_world where
  "ex_poll_world =
     \<lparr>po_pollees = [0 \<mapsto> \<lparr>pe_pollers = [\<lparr>sb_observer = ObsOther 1, sb_filter = Some IO_IN, sb_metadata = None\<rparr>,
         \<lparr>sb_observer = ObsPoller 2, sb_filter = Some IO_IN, sb_metadata = None\<rparr>], pe_events = 0\<rparr>],
      po_pollers = [2 \<mapsto> \<lparr>pr_waiter = \<lparr>es_state = WAIT, es_host_eventfd = 9\<rparr>, pr_pollees = [0]\<rparr>],
      po_others = (\<lambda>_. False), po_seen = [], po_writes = []\<rparr>"

theorem freed_observer_hides_event_witness:
  "Pollee_events (Pollee_add_events ex_poll_world 0 IO_IN) 0 = IO_IN \<and>
   map_option (\<lambda>pr. es_state (pr_waiter pr)) (po_pollers (Pollee_add_events ex_poll_world 0 IO_IN) 2) = Some WAIT"
  using freed_observer_hides_event [of ex_poll_world 0 _ "[]" "\<lparr>sb_observer = ObsOther 1, sb_filter = Some IO_IN, sb_metadata = None\<rparr>"
      "[\<lparr>sb_observer = ObsPoller 2, sb_filter = Some IO_IN, sb_metadata = None\<rparr>]" IO_IN 2]
  by (simp add: ex_poll_world_def interested_def IoEvents_filter_def io_events_defs Pollee_events_def)

section \<open>A poller that found nothing is told later\<close>

text \<open>
  The life of pollees, pollers and other observers.  Other observers unregister before they are
  freed; pollers do so in \<open>drop\<close>.
\<close>

definition subs :: "poll_world \<Rightarrow> nat \<Rightarrow> (io_observer, IoEvents) Subscriber list" where
  "subs w e = (case po_pollees w e of None \<Rightarrow> [] | Some pe \<Rightarrow> pe_pollers pe)"

definition registered :: "poll_world \<Rightarrow> nat \<Rightarrow> io_observer \<Rightarrow> IoEvents \<Rightarrow> bool" where
  "registered w e obs msk \<longleftrightarrow>
     (\<exists>sb \<in> set (subs w e). sb_observer sb = obs \<and> sb_filter sb = Some msk)"

definition poller_waits :: "poll_world \<Rightarrow> nat \<Rightarrow> (EdgeSync \<Rightarrow> EdgeSync) \<Rightarrow> poll_world" where
  "poller_waits w p f =
     w\<lparr>po_pollers := (po_pollers w)(p := map_option (\<lambda>pr. pr\<lparr>pr_waiter := f (pr_waiter pr)\<rparr>) (po_pollers w p))\<rparr>"

inductive poll_step :: "poll_world \<Rightarrow> poll_world \<Rightarrow> bool" where
  new_pollee: "po_pollees w e = None \<Longrightarrow> poll_step w (Pollee_new w e events)"
| free_pollee: "poll_step w (w\<lparr>po_pollees := (po_pollees w)(e := None)\<rparr>)"
| poll: "(case poller of None \<Rightarrow> True | Some p \<Rightarrow> po_pollers w p \<noteq> None) \<Longrightarrow> poll_step w (snd (Pollee_poll w e msk poller))"
| add_events: "poll_step w (Pollee_add_events w e events)"
| del_events: "poll_step w (Pollee_del_events w e events)"
| reset_events: "poll_step w (Pollee_reset_events w e)"
| register_other: "po_others w k \<Longrightarrow> poll_step w (Pollee_register_observer w e (ObsOther k) msk)"
| unregister_other: "poll_step w (Pollee_unregister_observer w e (ObsOther k))"
| new_poller: "po_pollers w p = None \<Longrightarrow> poll_step w (Poller_new w p fd)"
| waits: "poll_step w (poller_waits w p f)"
| drop_poller: "poll_step w (Poller_drop w p)"
| new_other: "poll_step w (w\<lparr>po_others := (po_others w)(k := True)\<rparr>)"
| free_other: "\<forall>e. ObsOther k \<notin> sb_observer ` set (subs w e) \<Longrightarrow>
    poll_step w (w\<lparr>po_others := (po_others w)(k := False)\<rparr>)"

text \<open>Every registered observer is alive, and a registered poller remembers the pollee.\<close>

fun remembers :: "poll_world \<Rightarrow> nat \<Rightarrow> io_observer \<Rightarrow> bool" where
  "remembers w e (ObsPoller p) \<longleftrightarrow> (\<exists>pr. po_pollers w p = Some pr \<and> e \<in> set (pr_pollees pr))"
| "remembers w e (ObsOther k) \<longleftrightarrow> po_others w k"

definition poll_inv :: "poll_world \<Rightarrow> bool" where
  "poll_inv w \<longleftrightarrow> (\<forall>e. \<forall>sb \<in> set (subs w e). remembers w e (sb_observer sb))"

lemma remembers_alive: "remembers w e obs \<Longrightarrow> observer_alive w obs"
  by (cases obs) auto

lemma remembers_cong:
  assumes "po_others w' = po_others w" "\<And>p. map_option pr_pollees (po_pollers w' p) = map_option pr_pollees (po_pollers w p)"
  shows "remembers w' e obs = remembers w e obs"
proof (cases obs)
  case (ObsPoller p)
  then show ?thesis using assms(2) [of p] by (cases "po_pollers w p"; cases "po_pollers w' p") auto
qed (simp add: assms(1))

lemma unregister_idem:
  "Notifier_unregister (Notifier_unregister n obs) obs = Notifier_unregister n obs"
  by (simp add: Notifier_unregister_def)

lemma unregister_all_simps:
  "po_pollees (unregister_all w obs es) e =
     map_option (\<lambda>pe. if e \<in> set es then pe\<lparr>pe_pollers := Notifier_unregister (pe_pollers pe) obs\<rparr> else pe) (po_pollees w e)"
  "po_pollers (unregister_all w obs es) = po_pollers w" "po_others (unregister_all w obs es) = po_others w"
proof (induction es arbitrary: w)
  case (Cons a es)
  {
    case 1
    then show ?case
      by (cases "po_pollees w e") (auto simp: Cons Pollee_unregister_observer_def unregister_idem)
  next
    case 2
    then show ?case by (simp add: Cons Pollee_unregister_observer_def)
  next
    case 3
    then show ?case by (simp add: Cons Pollee_unregister_observer_def)
  }
qed (simp_all add: option.map_ident)

lemmas poll_op_defs = Pollee_new_def Pollee_poll_def Pollee_connect_poller_def Pollee_register_observer_def
  Pollee_unregister_observer_def Pollee_del_events_def Pollee_reset_events_def Poller_new_def poller_waits_def
  Notifier_new_def Notifier_register_def Notifier_unregister_def Let_def

lemma add_events_simps:
  "po_others (Pollee_add_events w e events) = po_others w"
  "map_option pr_pollees (po_pollers (Pollee_add_events w e events) p) = map_option pr_pollees (po_pollers w p)"
  "po_pollees (Pollee_add_events w e events) = po_pollees (on_pollee w e (\<lambda>pe. pe\<lparr>pe_events := pe_events pe OR events\<rparr>))"
  by (cases "po_pollees w e"; simp add: Pollee_add_events_def Let_def io_broadcast_fold tell_all_others
      tell_all_pollers option.map_comp comp_def)+

text \<open>What each operation makes of the subscribers.\<close>

lemma subs_on_pollee:
  "subs (on_pollee w e f) x =
     (if x = e then (case po_pollees w e of None \<Rightarrow> [] | Some pe \<Rightarrow> pe_pollers (f pe)) else subs w x)"
  by (simp add: subs_def split: option.splits)

lemma subs_register:
  "set (subs (Pollee_register_observer w e obs msk) x) \<subseteq>
     set (subs w x) \<union> (if x = e then {\<lparr>sb_observer = obs, sb_filter = Some (msk OR ALWAYS_POLL), sb_metadata = None\<rparr>} else {})"
  "set (subs w x) \<subseteq> set (subs (Pollee_register_observer w e obs msk) x)"
  by (cases "po_pollees w e"; auto simp: Pollee_register_observer_def Let_def subs_on_pollee Notifier_register_def subs_def)+

lemma subs_update [simp]:
  "subs (w\<lparr>po_pollers := P\<rparr>) x = subs w x" "subs (w\<lparr>po_others := O'\<rparr>) x = subs w x"
  by (simp_all add: subs_def)

lemma subs_unregister:
  "subs (Pollee_unregister_observer w e obs) x = (if x = e then Notifier_unregister (subs w x) obs else subs w x)"
  by (simp add: Pollee_unregister_observer_def subs_on_pollee) (simp add: subs_def Notifier_unregister_def split: option.splits)

lemma subs_unregister_all:
  "subs (unregister_all w obs es) x = (if x \<in> set es then Notifier_unregister (subs w x) obs else subs w x)"
  by (induction es arbitrary: w) (auto simp: subs_unregister unregister_idem)

lemma subs_drop:
  "subs (Poller_drop w p) x =
     (if \<exists>pr. po_pollers w p = Some pr \<and> x \<in> set (pr_pollees pr) then Notifier_unregister (subs w x) (ObsPoller p) else subs w x)"
  by (auto simp: Poller_drop_def Let_def subs_unregister_all split: option.splits)

lemma subs_events:
  "subs (Pollee_del_events w e events) x = subs w x" "subs (Pollee_reset_events w e) x = subs w x"
  "subs (Pollee_add_events w e events) x = subs w x"
  by (auto simp: Pollee_del_events_def Pollee_reset_events_def subs_on_pollee subs_def add_events_simps split: option.splits)

lemma subs_poll:
  "set (subs (snd (Pollee_poll w e msk poller)) x) \<subseteq>
     set (subs w x) \<union> (case poller of Some p \<Rightarrow> if x = e then {\<lparr>sb_observer = ObsPoller p,
        sb_filter = Some ((msk OR ALWAYS_POLL) OR ALWAYS_POLL), sb_metadata = None\<rparr>} else {} | None \<Rightarrow> {})"
  "set (subs w x) \<subseteq> set (subs (snd (Pollee_poll w e msk poller)) x)"
  using subs_register(1) [of w e _ "msk OR ALWAYS_POLL" x] subs_register(2) [of w x e _ "msk OR ALWAYS_POLL"]
  by (cases poller; simp add: Pollee_poll_def Pollee_connect_poller_def Let_def)+

lemmas subs_simps = subs_events subs_drop subs_unregister

section \<open>The invariant\<close>

lemma poll_inv_cong:
  assumes "poll_inv w" "\<And>e. set (subs w' e) \<subseteq> set (subs w e)"
    "po_others w' = po_others w" "\<And>p. map_option pr_pollees (po_pollers w' p) = map_option pr_pollees (po_pollers w p)"
  shows "poll_inv w'"
  using assms(1,2) remembers_cong [OF assms(3,4)] unfolding poll_inv_def by blast

lemma poll_inv_drop:
  assumes "poll_inv w"
  shows "poll_inv (Poller_drop w p)"
  unfolding poll_inv_def
proof (intro allI ballI)
  fix e sb assume sb: "sb \<in> set (subs (Poller_drop w p) e)"
  then have "sb \<in> set (subs w e)" by (auto simp: subs_drop Notifier_unregister_def split: if_splits)
  then have "remembers w e (sb_observer sb)" using assms by (auto simp: poll_inv_def)
  moreover from this have "sb_observer sb \<noteq> ObsPoller p"
    using sb by (auto simp: subs_drop Notifier_unregister_def split: if_splits)
  ultimately show "remembers (Poller_drop w p) e (sb_observer sb)"
    by (cases "sb_observer sb") (auto simp: Poller_drop_def Let_def unregister_all_simps split: option.splits)
qed

lemma poll_inv_poll:
  assumes "poll_inv w" "case poller of None \<Rightarrow> True | Some p \<Rightarrow> po_pollers w p \<noteq> None"
  shows "poll_inv (snd (Pollee_poll w e msk poller))"
  unfolding poll_inv_def
proof (intro allI ballI)
  fix x sb assume "sb \<in> set (subs (snd (Pollee_poll w e msk poller)) x)"
  then consider "sb \<in> set (subs w x)" | p where "poller = Some p" "x = e" "sb_observer sb = ObsPoller p"
    using subs_poll(1) [of w e msk poller x] by (auto split: option.splits if_splits)
  then show "remembers (snd (Pollee_poll w e msk poller)) x (sb_observer sb)"
  proof cases
    case 1
    then have "remembers w x (sb_observer sb)" using assms(1) by (auto simp: poll_inv_def)
    then show ?thesis by (cases "sb_observer sb"; cases poller) (auto simp: poll_op_defs)
  next
    case 2
    then show ?thesis using assms(2) by (auto simp: poll_op_defs)
  qed
qed

lemma poll_inv_step:
  assumes "poll_step w w'" "poll_inv w"
  shows "poll_inv w'"
  using assms(1)
proof cases
  case (poll poller e msk)
  then show ?thesis using assms(2) by (simp add: poll_inv_poll)
next
  case (drop_poller p)
  then show ?thesis using assms(2) by (simp add: poll_inv_drop)
next
  case (register_other k e msk)
  have "remembers w' x obs = remembers w x obs" for x obs
    unfolding register_other by (rule remembers_cong) (simp_all add: poll_op_defs)
  then show ?thesis using assms(2) subs_register(1) [of w e "ObsOther k" msk] register_other
    by (fastforce simp: poll_inv_def split: if_splits)
next
  case (new_poller p fd)
  have "remembers w x obs \<Longrightarrow> remembers w' x obs" for x obs
    using new_poller by (cases obs) (auto simp: poll_op_defs)
  then show ?thesis using assms(2) by (auto simp: poll_inv_def new_poller Poller_new_def)
next
  case (new_other k)
  have "remembers w x obs \<Longrightarrow> remembers w' x obs" for x obs
    using new_other by (cases obs) auto
  then show ?thesis using assms(2) by (auto simp: poll_inv_def new_other)
next
  case (free_other k)
  have "remembers w x obs \<Longrightarrow> obs \<noteq> ObsOther k \<Longrightarrow> remembers w' x obs" for x obs
    using free_other by (cases obs) auto
  moreover have "sb_observer sb \<noteq> ObsOther k" if "sb \<in> set (subs w x)" for sb x
    using free_other(2) that by (metis imageI)
  ultimately show ?thesis using assms(2) by (auto simp: poll_inv_def free_other(1))
next
  case (add_events e events)
  show ?thesis unfolding add_events by (rule poll_inv_cong [OF assms(2)]) (simp_all add: subs_simps add_events_simps)
next
  case (unregister_other e k)
  show ?thesis unfolding unregister_other
    by (rule poll_inv_cong [OF assms(2)])
      (auto simp: subs_unregister Notifier_unregister_def [of "subs w _"], simp_all add: Pollee_unregister_observer_def)
next
  case (waits p f)
  show ?thesis unfolding waits
    by (rule poll_inv_cong [OF assms(2)]) (simp_all add: poller_waits_def option.map_comp comp_def)
next
  case (del_events e events)
  show ?thesis unfolding del_events
    by (rule poll_inv_cong [OF assms(2)]) (simp add: subs_simps, simp_all add: Pollee_del_events_def)
next
  case (reset_events e)
  show ?thesis unfolding reset_events
    by (rule poll_inv_cong [OF assms(2)]) (simp add: subs_simps, simp_all add: Pollee_reset_events_def)
next
  case (new_pollee e events)
  show ?thesis unfolding new_pollee
    by (rule poll_inv_cong [OF assms(2)]) (simp_all add: Pollee_new_def subs_def Notifier_new_def)
next
  case (free_pollee e)
  show ?thesis unfolding free_pollee
    by (rule poll_inv_cong [OF assms(2)]) (simp_all add: subs_def)
qed

text \<open>Steps that keep a poller and a pollee alive keep the registration of the one with the other.\<close>

definition keeps :: "nat \<Rightarrow> nat \<Rightarrow> poll_world \<Rightarrow> poll_world \<Rightarrow> bool" where
  "keeps p e w w' \<longleftrightarrow> poll_step w w' \<and> po_pollers w' p \<noteq> None \<and> po_pollees w' e \<noteq> None"

lemma registered_step:
  assumes "poll_step w w'" "po_pollers w' p \<noteq> None" "po_pollees w' e \<noteq> None" "registered w e (ObsPoller p) msk"
  shows "registered w' e (ObsPoller p) msk"
proof -
  obtain sb where sb: "sb \<in> set (subs w e)" "sb_observer sb = ObsPoller p" "sb_filter sb = Some msk"
    using assms(4) by (auto simp: registered_def)
  have "sb \<in> set (subs w' e)"
    using assms(1)
  proof cases
    case (drop_poller q)
    moreover from this have "q \<noteq> p" using assms(2) by (auto simp: Poller_drop_def Let_def split: option.splits)
    ultimately show ?thesis using sb(1,2) by (auto simp: subs_drop Notifier_unregister_def)
  next
    case (poll poller e' msk')
    then show ?thesis using sb(1) subs_poll(2) by blast
  next
    case (register_other k e' msk')
    then show ?thesis using sb(1) subs_register(2) by blast
  next
    case (unregister_other e' k)
    then show ?thesis using sb(1,2) by (auto simp: subs_unregister Notifier_unregister_def)
  next
    case (new_pollee e' events)
    then show ?thesis using sb(1) by (cases "e = e'") (auto simp: subs_def Pollee_new_def)
  next
    case (free_pollee e')
    then show ?thesis using sb(1) assms(3) by (cases "e = e'") (auto simp: subs_def)
  qed (use sb(1) in \<open>simp_all add: subs_simps Poller_new_def poller_waits_def\<close>)
  then show ?thesis using sb(2,3) by (auto simp: registered_def)
qed

lemma keeps_registered:
  assumes "(keeps p e)\<^sup>*\<^sup>* w w'" "poll_inv w" "registered w e (ObsPoller p) msk"
  shows "poll_inv w' \<and> registered w' e (ObsPoller p) msk"
  using assms
proof (induction rule: rtranclp_induct)
  case (step w' w'')
  then show ?case using poll_inv_step registered_step by (auto simp: keeps_def)
qed simp

lemma told_all:
  assumes "poll_inv w" "po_pollees w e = Some pe"
  shows "told w pe events = filter (interested IoEvents_filter events) (pe_pollers pe)"
proof -
  have "observer_alive w (sb_observer sb)" if "sb \<in> set (pe_pollers pe)" for sb
  proof -
    have "sb \<in> set (subs w e)" using that assms(2) by (simp add: subs_def)
    then have "remembers w e (sb_observer sb)" using assms(1) by (auto simp: poll_inv_def)
    then show ?thesis by (rule remembers_alive)
  qed
  then show ?thesis by (simp add: told_def takeWhile_eq_all_conv)
qed

lemma add_events_notifies:
  assumes "poll_inv w" "registered w e (ObsPoller p) msk" "msk AND events \<noteq> 0"
  shows "\<exists>pr. po_pollers (Pollee_add_events w e events) p = Some pr \<and> es_state (pr_waiter pr) = NOTIFIED"
proof -
  obtain sb where sb: "sb \<in> set (subs w e)" "sb_observer sb = ObsPoller p" "sb_filter sb = Some msk"
    using assms(2) by (auto simp: registered_def)
  then obtain pe where pe: "po_pollees w e = Some pe" "sb \<in> set (pe_pollers pe)" by (cases "po_pollees w e") (auto simp: subs_def)
  have "remembers w e (ObsPoller p)" using assms(1) sb(1,2) by (metis poll_inv_def)
  then obtain pr where pr: "po_pollers w p = Some pr" by auto
  have "sb \<in> set (told w pe events)"
    using pe(2) sb(3) assms(3) by (simp add: told_all [OF assms(1) pe(1)] interested_def IoEvents_filter_def)
  then have "ObsPoller p \<in> sb_observer ` set (told w pe events)" using sb(2) by (metis imageI)
  then show ?thesis using pr by (simp add: add_events_eq [OF pe(1)] tell_all_pollers)
qed



end
