(* ===== verification/Flock.thy ===== *)
theory Flock
  imports WaitWake
begin

text \<open>
  The advisory locks of \<open>flock\<close> (\<^verbatim>\<open>src/libos/src/fs/locks/flock.rs\<close>, \<^verbatim>\<open>fs/file_ops/flock.rs\<close> and
  the two methods of \<open>INodeFile\<close>): the lock of an opened file with its queue of waiters, the list of
  locks of an inode, the flags of the system call.  Owners are identified by the address of the file;
  \<open>alive\<close> tells which weak references to owners still upgrade.  A step relation interleaves threads that take, retry,
  give up and release locks; the lemmas show that held locks never conflict and that no thread sleeps
  without a reason.
\<close>

section \<open>Flags of the system call\<close>

type_synonym FlockOps = "32 word"

definition LOCK_SH :: FlockOps where "LOCK_SH = 1"
definition LOCK_EX :: FlockOps where "LOCK_EX = 2"
definition LOCK_NB :: FlockOps where "LOCK_NB = 4"
definition LOCK_UN :: FlockOps where "LOCK_UN = 8"

lemmas lock_ops_defs = LOCK_SH_def LOCK_EX_def LOCK_NB_def LOCK_UN_def

definition ops_contains :: "FlockOps \<Rightarrow> FlockOps \<Rightarrow> bool" where
  "ops_contains ops flag \<longleftrightarrow> ops AND flag = flag"

definition FlockOps_from_i32 :: "32 word \<Rightarrow> FlockOps res" where
  "FlockOps_from_i32 bits =
     (if bits AND NOT (LOCK_SH OR LOCK_EX OR LOCK_NB OR LOCK_UN) \<noteq> 0 then Err EINVAL
      else if ops_contains bits LOCK_SH
      then (if ops_contains bits LOCK_EX \<or> ops_contains bits LOCK_UN then Err EINVAL else Ok bits)
      else if ops_contains bits LOCK_EX
      then (if ops_contains bits LOCK_UN then Err EINVAL else Ok bits)
      else if \<not> ops_contains bits LOCK_UN then Err EINVAL
      else Ok bits)"

datatype FlockType = SH_LOCK | EX_LOCK

definition FlockType_from :: "FlockOps \<Rightarrow> FlockType res" where
  "FlockType_from ops =
     (if ops_contains ops LOCK_EX then Ok EX_LOCK
      else if ops_contains ops LOCK_SH then Ok SH_LOCK
      else Panic)"

section \<open>Locks and lists of locks\<close>

record Flock =
  fl_owner :: nat
  fl_type :: FlockType
  fl_waiters :: "WaiterQueue option"

definition Flock_new :: "nat \<Rightarrow> FlockType \<Rightarrow> Flock" where
  "Flock_new owner type = \<lparr>fl_owner = owner, fl_type = type, fl_waiters = None\<rparr>"

definition Flock_same_owner_with :: "Flock \<Rightarrow> Flock \<Rightarrow> bool" where
  "Flock_same_owner_with lk other \<longleftrightarrow> fl_owner lk = fl_owner other"

definition Flock_conflict_with :: "Flock \<Rightarrow> Flock \<Rightarrow> bool" where
  "Flock_conflict_with lk other \<longleftrightarrow>
     (if Flock_same_owner_with lk other then False
      else if fl_type lk = EX_LOCK \<or> fl_type other = EX_LOCK then True
      else False)"

definition Flock_enqueue_waiter :: "sync_world \<Rightarrow> Flock \<Rightarrow> waiter_id \<Rightarrow> Flock \<times> sync_world" where
  "Flock_enqueue_waiter w lk waiter =
     (let q = (case fl_waiters lk of None \<Rightarrow> WaiterQueue_new | Some q \<Rightarrow> q)
      in case reset_and_enqueue w q waiter of (q', w') \<Rightarrow> (lk\<lparr>fl_waiters := Some q'\<rparr>, w'))"

definition Flock_dequeue_and_wake_all_waiters :: "sync_world \<Rightarrow> Flock \<Rightarrow> usize \<times> Flock \<times> sync_world" where
  "Flock_dequeue_and_wake_all_waiters w lk =
     (case fl_waiters lk of
        Some q \<Rightarrow> (case dequeue_and_wake_all w q of (n, q', w') \<Rightarrow> (n, lk\<lparr>fl_waiters := Some q'\<rparr>, w'))
      | None \<Rightarrow> (0, lk, w))"

text \<open>Dropping a lock wakes its waiters.\<close>

definition Flock_drop :: "sync_world \<Rightarrow> Flock \<Rightarrow> sync_world" where
  "Flock_drop w lk = snd (snd (Flock_dequeue_and_wake_all_waiters w lk))"

type_synonym FlockList = "Flock list"

text \<open>
  One round of the loop of \<open>set_lock\<close>: refused, asleep in the queue of a conflicting lock, or set.
  Replacing the lock of the same owner drops the old one at the end of the call.
\<close>

datatype flock_round = FlockRefused errno | FlockSleeps FlockList sync_world | FlockSet FlockList sync_world

definition FlockList_set_lock :: "sync_world \<Rightarrow> FlockList \<Rightarrow> Flock \<Rightarrow> bool \<Rightarrow> waiter_id \<Rightarrow> flock_round" where
  "FlockList_set_lock w list req_lock is_nonblocking waiter =
     (case list_position (Flock_conflict_with req_lock) list of
        Some i \<Rightarrow>
          (if is_nonblocking then FlockRefused EAGAIN
           else case Flock_enqueue_waiter w (list ! i) waiter of
                  (lk, w') \<Rightarrow> FlockSleeps (list[i := lk]) w')
      | None \<Rightarrow>
          (case list_position (Flock_same_owner_with req_lock) list of
             Some idx \<Rightarrow> FlockSet (list[idx := req_lock]) (Flock_drop w (list ! idx))
           | None \<Rightarrow> FlockSet (req_lock # list) w))"

fun FlockList_unlock :: "(nat \<Rightarrow> bool) \<Rightarrow> sync_world \<Rightarrow> FlockList \<Rightarrow> nat \<Rightarrow> FlockList \<times> sync_world" where
  "FlockList_unlock alive w [] req_owner = ([], w)"
| "FlockList_unlock alive w (lock # list) req_owner =
     (if alive (fl_owner lock) \<and> fl_owner lock \<noteq> req_owner
      then (case FlockList_unlock alive w list req_owner of (list', w') \<Rightarrow> (lock # list', w'))
      else FlockList_unlock alive (Flock_drop w lock) list req_owner)"

text \<open>
  The methods of \<open>INodeFile\<close>: \<open>None\<close> is an inode without extension, for which every lock is granted;
  the list is created on first use.
\<close>

type_synonym inode_ext = "FlockList option"

definition INodeFile_set_flock :: "sync_world \<Rightarrow> inode_ext option \<Rightarrow> Flock \<Rightarrow> bool \<Rightarrow> waiter_id \<Rightarrow> flock_round option" where
  "INodeFile_set_flock w ext lock is_nonblocking waiter =
     (case ext of
        None \<Rightarrow> None
      | Some stored \<Rightarrow>
          Some (FlockList_set_lock w (case stored of Some list \<Rightarrow> list | None \<Rightarrow> []) lock is_nonblocking waiter))"

definition INodeFile_unlock_flock ::
  "(nat \<Rightarrow> bool) \<Rightarrow> sync_world \<Rightarrow> inode_ext option \<Rightarrow> nat \<Rightarrow> inode_ext option \<times> sync_world" where
  "INodeFile_unlock_flock alive w ext self =
     (case ext of
        None \<Rightarrow> (None, w)
      | Some None \<Rightarrow> (Some None, w)
      | Some (Some list) \<Rightarrow>
          (case FlockList_unlock alive w list self of (list', w') \<Rightarrow> (Some (Some list'), w')))"

text \<open>
  \<open>do_flock\<close>: what the call asks of the opened file, which the file table gives as a parameter.
\<close>

datatype flock_request = AskUnlock nat | AskLock Flock bool

definition do_flock :: "(nat \<Rightarrow> nat res) \<Rightarrow> nat \<Rightarrow> FlockOps \<Rightarrow> flock_request res" where
  "do_flock inode_file fd ops =
     res_bind (inode_file fd) (\<lambda>file_ref.
       if ops_contains ops LOCK_UN then Ok (AskUnlock file_ref)
       else let is_nonblocking = ops_contains ops LOCK_NB
            in res_bind (FlockType_from ops) (\<lambda>type. Ok (AskLock (Flock_new file_ref type) is_nonblocking)))"

definition sys_flock :: "(nat \<Rightarrow> nat res) \<Rightarrow> nat \<Rightarrow> 32 word \<Rightarrow> flock_request res" where
  "sys_flock inode_file fd operation =
     res_bind (FlockOps_from_i32 operation) (\<lambda>flock_ops. do_flock inode_file fd flock_ops)"

section \<open>Threads taking and releasing locks\<close>

text \<open>
  The state of an inode's locks: the list, the waiters, and for every waiter whose thread is in
  \<open>wait\<close> the lock the thread asks for.
\<close>

record flock_state =
  fs_list :: FlockList
  fs_world :: sync_world
  fs_asks :: "waiter_id \<Rightarrow> Flock option"
  fs_alive :: "nat \<Rightarrow> bool"

definition queue_of :: "Flock \<Rightarrow> waiter_id list" where
  "queue_of lk = (case fl_waiters lk of None \<Rightarrow> [] | Some q \<Rightarrow> wq_wakers q)"

definition is_woken :: "sync_world \<Rightarrow> waiter_id \<Rightarrow> bool" where
  "is_woken w x \<longleftrightarrow> (case sw_syncs w x of Some s \<Rightarrow> ls_is_woken s | None \<Rightarrow> False)"

definition new_waiter :: "sync_world \<Rightarrow> waiter_id \<Rightarrow> host_fd \<Rightarrow> sync_world" where
  "new_waiter w x fd = w\<lparr>sw_syncs := (sw_syncs w)(x \<mapsto> LevelSync_new fd)\<rparr>"

definition unused :: "flock_state \<Rightarrow> waiter_id \<Rightarrow> bool" where
  "unused s x \<longleftrightarrow> sw_syncs (fs_world s) x = None \<and> fs_asks s x = None \<and> (\<forall>lk \<in> set (fs_list s). x \<notin> set (queue_of lk))"

definition room :: "flock_state \<Rightarrow> bool" where
  "room s \<longleftrightarrow> (\<forall>lk \<in> set (fs_list s). Suc (length (queue_of lk)) < USIZE_MOD - 1)"

text \<open>A thread that goes to sleep has just created its waiter; one that wakes up drops it and tries again.\<close>

inductive flock_step :: "flock_state \<Rightarrow> flock_state \<Rightarrow> bool" where
  sets: "fl_waiters req = None \<Longrightarrow> FlockList_set_lock (fs_world s) (fs_list s) req nb x = FlockSet list' w' \<Longrightarrow>
    flock_step s (s\<lparr>fs_list := list', fs_world := w'\<rparr>)"
| sleeps: "fl_waiters req = None \<Longrightarrow> unused s x \<Longrightarrow> room s \<Longrightarrow>
    FlockList_set_lock (new_waiter (fs_world s) x fd) (fs_list s) req False x = FlockSleeps list' w' \<Longrightarrow>
    flock_step s (s\<lparr>fs_list := list', fs_world := w', fs_asks := (fs_asks s)(x \<mapsto> req)\<rparr>)"
| wakes_up: "fs_asks s x = Some req \<Longrightarrow> is_woken (fs_world s) x \<Longrightarrow>
    flock_step s (s\<lparr>fs_asks := (fs_asks s)(x := None), fs_world := (fs_world s)\<lparr>sw_syncs := (sw_syncs (fs_world s))(x := None)\<rparr>\<rparr>)"
| gives_up: "fs_asks s x = Some req \<Longrightarrow>
    flock_step s (s\<lparr>fs_asks := (fs_asks s)(x := None), fs_world := (fs_world s)\<lparr>sw_syncs := (sw_syncs (fs_world s))(x := None)\<rparr>\<rparr>)"
| unlocks: "FlockList_unlock (fs_alive s) (fs_world s) (fs_list s) owner = (list', w') \<Longrightarrow>
    flock_step s (s\<lparr>fs_list := list', fs_world := w'\<rparr>)"
| owner_changes: "flock_step s (s\<lparr>fs_alive := alive'\<rparr>)"

definition flock_init :: "flock_state \<Rightarrow> bool" where
  "flock_init s \<longleftrightarrow> fs_list s = [] \<and> fs_asks s = (\<lambda>_. None)"

text \<open>
  The invariant: no two held locks conflict, an owner has one lock, the queues are well formed, a
  thread in the queue of a lock asks for something that conflicts with it, and a thread in \<open>wait\<close> is in a
  queue or woken.
\<close>

definition flock_inv :: "flock_state \<Rightarrow> bool" where
  "flock_inv s \<longleftrightarrow>
     distinct (map fl_owner (fs_list s)) \<and>
     (\<forall>l \<in> set (fs_list s). \<forall>m \<in> set (fs_list s). \<not> Flock_conflict_with l m) \<and>
     (\<forall>l \<in> set (fs_list s). case fl_waiters l of None \<Rightarrow> True | Some q \<Rightarrow> wq_inv q) \<and>
     (\<forall>l \<in> set (fs_list s). \<forall>x \<in> set (queue_of l). \<forall>r. fs_asks s x = Some r \<longrightarrow> Flock_conflict_with r l) \<and>
     (\<forall>x r. fs_asks s x = Some r \<longrightarrow> sw_syncs (fs_world s) x \<noteq> None \<and>
        ((\<exists>l \<in> set (fs_list s). x \<in> set (queue_of l)) \<or> is_woken (fs_world s) x))"

section \<open>What the operations do\<close>

lemma woken_syncs_un: "woken_syncs (woken_syncs syncs X) Y = woken_syncs syncs (X \<union> Y)"
  by (auto simp: woken_syncs_def fun_eq_iff option.map_comp comp_def)

lemma woken_syncs_empty [simp]: "woken_syncs syncs {} = syncs"
  by (simp add: woken_syncs_def)

lemma woken_syncs_None [simp]: "woken_syncs syncs X x = None \<longleftrightarrow> syncs x = None"
  by (simp add: woken_syncs_def)

lemma is_woken_woken_syncs:
  "sw_syncs w' = woken_syncs (sw_syncs w) X \<Longrightarrow> is_woken w' x \<longleftrightarrow> is_woken w x \<or> x \<in> X \<and> sw_syncs w x \<noteq> None"
  by (cases "sw_syncs w x") (auto simp: is_woken_def woken_syncs_def)

abbreviation queue_ok :: "Flock \<Rightarrow> bool" where
  "queue_ok lk \<equiv> case fl_waiters lk of None \<Rightarrow> True | Some q \<Rightarrow> wq_inv q"

lemma sw_syncs_drop: "queue_ok lk \<Longrightarrow> sw_syncs (Flock_drop w lk) = woken_syncs (sw_syncs w) (set (queue_of lk))"
proof (cases "fl_waiters lk")
  case (Some q)
  assume "queue_ok lk"
  then have "wq_inv q" using Some by simp
  then show ?thesis
    using Some dequeue_and_wake_nr_eq [of q w "USIZE_MOD - 1"]
    by (simp add: Flock_drop_def Flock_dequeue_and_wake_all_waiters_def dequeue_and_wake_all_def queue_of_def
        sw_syncs_batch_wake wq_inv_def)
qed (simp add: Flock_drop_def Flock_dequeue_and_wake_all_waiters_def queue_of_def)

lemma FlockList_unlock_eq:
  assumes "\<forall>lk \<in> set list. queue_ok lk"
  shows "fst (FlockList_unlock alive w list owner) = filter (\<lambda>lk. alive (fl_owner lk) \<and> fl_owner lk \<noteq> owner) list \<and>
    sw_syncs (snd (FlockList_unlock alive w list owner)) =
      woken_syncs (sw_syncs w) (\<Union>lk \<in> {lk \<in> set list. \<not> (alive (fl_owner lk) \<and> fl_owner lk \<noteq> owner)}. set (queue_of lk))"
  using assms
proof (induction list arbitrary: w)
  case (Cons lk list)
  have eq: "{x \<in> set (lk # list). \<not> (alive (fl_owner x) \<and> fl_owner x \<noteq> owner)} =
      (if alive (fl_owner lk) \<and> fl_owner lk \<noteq> owner then {} else {lk}) \<union> {x \<in> set list. \<not> (alive (fl_owner x) \<and> fl_owner x \<noteq> owner)}"
    by auto
  show ?case
  proof (cases "alive (fl_owner lk) \<and> fl_owner lk \<noteq> owner")
    case True
    then show ?thesis using Cons.IH [of w] Cons.prems unfolding eq by (simp add: case_prod_unfold)
  next
    case False
    have "queue_ok lk" using Cons.prems by simp
    then show ?thesis
      using False Cons.IH [of "Flock_drop w lk"] Cons.prems unfolding eq
      by (auto simp: sw_syncs_drop woken_syncs_un)
  qed
qed simp

lemma conflict_sym: "Flock_conflict_with l m \<longleftrightarrow> Flock_conflict_with m l"
  by (auto simp: Flock_conflict_with_def Flock_same_owner_with_def)

lemma conflict_cong: "fl_owner m' = fl_owner m \<Longrightarrow> fl_type m' = fl_type m \<Longrightarrow> Flock_conflict_with l m' = Flock_conflict_with l m"
  by (simp add: Flock_conflict_with_def Flock_same_owner_with_def)

lemma enqueue_simps:
  assumes "Flock_enqueue_waiter w lk x = (lk', w')"
  shows "fl_owner lk' = fl_owner lk" "fl_type lk' = fl_type lk" "queue_of lk' = queue_of lk @ [x]"
    and "sw_syncs w' = (sw_syncs w)(x := map_option LevelSync_reset (sw_syncs w x))"
    and "queue_ok lk \<Longrightarrow> Suc (length (queue_of lk)) < USIZE_MOD - 1 \<Longrightarrow> queue_ok lk'"
  using assms
  by (auto simp: Flock_enqueue_waiter_def Let_def reset_and_enqueue_def queue_of_def Waiter_reset_def WaiterQueue_new_def
      wq_inv_def usize_simps split: option.splits prod.splits)

text \<open>The three outcomes of a round of \<open>set_lock\<close>.\<close>

lemma set_lock_sleeps:
  assumes "FlockList_set_lock w list req nb x = FlockSleeps list' w'"
  obtains ys lk zs lk' where "list = ys @ lk # zs" "list' = ys @ lk' # zs" "Flock_conflict_with req lk"
    "Flock_enqueue_waiter w lk x = (lk', w')" "\<not> nb"
proof -
  obtain i where i: "list_position (Flock_conflict_with req) list = Some i"
    using assms by (auto simp: FlockList_set_lock_def split: option.splits)
  from list_position_split [OF i] obtain ys lk zs where l: "list = ys @ lk # zs" "length ys = i" "Flock_conflict_with req lk"
    by blast
  obtain lk' w0 where e: "Flock_enqueue_waiter w lk x = (lk', w0)" by fastforce
  have "list ! i = lk" "list[i := lk'] = ys @ lk' # zs" unfolding l(1) l(2) [symmetric] by simp_all
  moreover from this have "w0 = w'" "list' = list[i := lk']" "\<not> nb"
    using assms i e by (simp_all add: FlockList_set_lock_def split: if_splits)
  ultimately show ?thesis using that [OF l(1) _ l(3), of lk'] e by simp
qed

lemma set_lock_sets:
  assumes "FlockList_set_lock w list req nb x = FlockSet list' w'"
  shows "\<forall>lk \<in> set list. \<not> Flock_conflict_with req lk"
    and "(\<exists>ys lk zs. list = ys @ lk # zs \<and> fl_owner lk = fl_owner req \<and> list' = ys @ req # zs \<and> w' = Flock_drop w lk) \<or>
         (fl_owner req \<notin> fl_owner ` set list \<and> list' = req # list \<and> w' = w)"
proof -
  have n: "list_position (Flock_conflict_with req) list = None"
    using assms by (auto simp: FlockList_set_lock_def split: option.splits if_splits prod.splits)
  then show "\<forall>lk \<in> set list. \<not> Flock_conflict_with req lk" by (simp add: list_position_None)
  show "(\<exists>ys lk zs. list = ys @ lk # zs \<and> fl_owner lk = fl_owner req \<and> list' = ys @ req # zs \<and> w' = Flock_drop w lk) \<or>
         (fl_owner req \<notin> fl_owner ` set list \<and> list' = req # list \<and> w' = w)"
  proof (cases "list_position (Flock_same_owner_with req) list")
    case None
    then have "list' = req # list" "w' = w" using assms n by (simp_all add: FlockList_set_lock_def)
    then show ?thesis using None by (auto simp: list_position_None Flock_same_owner_with_def)
  next
    case (Some i)
    from list_position_split [OF Some] obtain ys lk zs where l: "list = ys @ lk # zs" "length ys = i" "Flock_same_owner_with req lk"
      by blast
    have "list ! i = lk" "list[i := req] = ys @ req # zs" unfolding l(1) l(2) [symmetric] by simp_all
    then have "list' = ys @ req # zs" "w' = Flock_drop w lk" using assms n Some by (auto simp: FlockList_set_lock_def)
    then show ?thesis using l by (auto simp: Flock_same_owner_with_def)
  qed
qed

section \<open>The invariant holds\<close>

lemma flock_invI:
  assumes "distinct (map fl_owner (fs_list s))"
    "\<And>l m. l \<in> set (fs_list s) \<Longrightarrow> m \<in> set (fs_list s) \<Longrightarrow> \<not> Flock_conflict_with l m"
    "\<And>l. l \<in> set (fs_list s) \<Longrightarrow> queue_ok l"
    "\<And>l x r. l \<in> set (fs_list s) \<Longrightarrow> x \<in> set (queue_of l) \<Longrightarrow> fs_asks s x = Some r \<Longrightarrow> Flock_conflict_with r l"
    "\<And>x r. fs_asks s x = Some r \<Longrightarrow> sw_syncs (fs_world s) x \<noteq> None \<and>
        ((\<exists>l \<in> set (fs_list s). x \<in> set (queue_of l)) \<or> is_woken (fs_world s) x)"
  shows "flock_inv s"
  unfolding flock_inv_def using assms by blast

lemma flock_invD:
  assumes "flock_inv s"
  shows "distinct (map fl_owner (fs_list s))"
    "l \<in> set (fs_list s) \<Longrightarrow> m \<in> set (fs_list s) \<Longrightarrow> \<not> Flock_conflict_with l m"
    "l \<in> set (fs_list s) \<Longrightarrow> queue_ok l"
    "l \<in> set (fs_list s) \<Longrightarrow> x \<in> set (queue_of l) \<Longrightarrow> fs_asks s x = Some r \<Longrightarrow> Flock_conflict_with r l"
    "fs_asks s x = Some r \<Longrightarrow> sw_syncs (fs_world s) x \<noteq> None"
    "fs_asks s x = Some r \<Longrightarrow> (\<exists>l \<in> set (fs_list s). x \<in> set (queue_of l)) \<or> is_woken (fs_world s) x"
  using assms unfolding flock_inv_def by blast+

lemma flock_inv_sets:
  assumes "flock_inv s" "fl_waiters req = None" "FlockList_set_lock (fs_world s) (fs_list s) req nb x = FlockSet list' w'"
  shows "flock_inv (s\<lparr>fs_list := list', fs_world := w'\<rparr>)"
  using set_lock_sets(2) [OF assms(3)]
proof (elim disjE exE conjE)
  note inv = flock_invD [OF assms(1)] and nc = set_lock_sets(1) [OF assms(3)]
  have q: "queue_of req = []" "queue_ok req" using assms(2) by (simp_all add: queue_of_def)
  have ncr: "\<not> Flock_conflict_with req req" by (simp add: Flock_conflict_with_def Flock_same_owner_with_def)
  {
    fix ys lk zs
    assume l: "fs_list s = ys @ lk # zs" "fl_owner lk = fl_owner req" "list' = ys @ req # zs" "w' = Flock_drop (fs_world s) lk"
    have w: "sw_syncs w' = woken_syncs (sw_syncs (fs_world s)) (set (queue_of lk))"
      using l inv(3) [of lk] by (simp add: sw_syncs_drop)
    have sub: "m \<in> set list' \<Longrightarrow> m = req \<or> m \<in> set (fs_list s)" for m using l by auto
    show ?thesis
    proof (rule flock_invI, goal_cases)
      case 1
      then show ?case using inv(1) l by simp
    next
      case (2 l m)
      then show ?case using sub [of l] sub [of m] nc ncr inv(2) conflict_sym by (auto simp del: conflict_sym)
    next
      case (3 l)
      then show ?case using sub [of l] q inv(3) by auto
    next
      case (4 l x r)
      then show ?case using sub [of l] q inv(4) by auto
    next
      case (5 x r)
      then have "sw_syncs (fs_world s) x \<noteq> None" "(\<exists>l \<in> set (fs_list s). x \<in> set (queue_of l)) \<or> is_woken (fs_world s) x"
        using inv(5,6) by simp_all
      moreover from this have "sw_syncs w' x \<noteq> None" using w by simp
      ultimately show ?case using l(1,3) is_woken_woken_syncs [OF w, of x] by auto
    qed
  next
    assume l: "fl_owner req \<notin> fl_owner ` set (fs_list s)" "list' = req # fs_list s" "w' = fs_world s"
    show ?thesis
    proof (rule flock_invI, goal_cases)
      case (2 l m)
      then show ?case using l nc ncr inv(2) conflict_sym by auto
    qed (use l inv q in auto)
  }
qed

lemma flock_inv_sleeps:
  assumes "flock_inv s" "unused s x" "room s"
    "FlockList_set_lock (new_waiter (fs_world s) x fd) (fs_list s) req False x = FlockSleeps list' w'"
  shows "flock_inv (s\<lparr>fs_list := list', fs_world := w', fs_asks := (fs_asks s)(x \<mapsto> req)\<rparr>)"
proof -
  note inv = flock_invD [OF assms(1)]
  obtain ys lk zs lk' where l: "fs_list s = ys @ lk # zs" "list' = ys @ lk' # zs" "Flock_conflict_with req lk"
    and e: "Flock_enqueue_waiter (new_waiter (fs_world s) x fd) lk x = (lk', w')"
    using assms(4) by (rule set_lock_sleeps)
  note q = enqueue_simps [OF e]
  have cc: "Flock_conflict_with m lk' = Flock_conflict_with m lk" "Flock_conflict_with lk' m = Flock_conflict_with lk m" for m
    using conflict_cong [OF q(1,2)] conflict_sym by metis+
  have sub: "m \<in> set list' \<Longrightarrow> m = lk' \<or> m \<in> set (fs_list s)" for m using l by auto
  have lk: "lk \<in> set (fs_list s)" using l by simp
  have other: "sw_syncs w' y = sw_syncs (fs_world s) y" if "y \<noteq> x" for y using q(4) that by (simp add: new_waiter_def)
  then have woken: "is_woken w' y = is_woken (fs_world s) y" if "y \<noteq> x" for y using that by (simp add: is_woken_def)
  show ?thesis
  proof (rule flock_invI, goal_cases)
    case 1
    then show ?case using inv(1) l q(1) by simp
  next
    case (2 m n)
    then show ?case using sub [of m] sub [of n] inv(2) cc lk by auto
  next
    case (3 m)
    then show ?case using sub [of m] inv(3) q(5) lk assms(3) by (auto simp: room_def)
  next
    case (4 m y r)
    then show ?case using sub [of m] inv(4) q(3) cc lk assms(2) l(3) by (auto simp: unused_def split: if_splits)
  next
    case (5 y r)
    show ?case
    proof (cases "y = x")
      case True
      then show ?thesis using q(3,4) l(2) by (simp add: new_waiter_def)
    next
      case False
      then have "fs_asks s y = Some r" using 5 by simp
      then show ?thesis using inv(5,6) [of y r] False l q(3) by (auto simp: other woken)
    qed
  qed
qed

lemma flock_inv_unlocks:
  assumes "flock_inv s" "FlockList_unlock (fs_alive s) (fs_world s) (fs_list s) owner = (list', w')"
  shows "flock_inv (s\<lparr>fs_list := list', fs_world := w'\<rparr>)"
proof -
  note inv = flock_invD [OF assms(1)]
  let ?keep = "\<lambda>lk. fs_alive s (fl_owner lk) \<and> fl_owner lk \<noteq> owner"
  have u: "list' = filter ?keep (fs_list s)"
    "sw_syncs w' = woken_syncs (sw_syncs (fs_world s)) (\<Union>lk \<in> {lk \<in> set (fs_list s). \<not> ?keep lk}. set (queue_of lk))"
    using FlockList_unlock_eq [of "fs_list s" "fs_alive s" "fs_world s" owner] inv(3) assms(2) by auto
  show ?thesis
  proof (rule flock_invI, goal_cases)
    case 1
    then show ?case using inv(1) u(1) by (simp add: distinct_map_filter)
  next
    case (5 x r)
    then have "sw_syncs (fs_world s) x \<noteq> None" "(\<exists>l \<in> set (fs_list s). x \<in> set (queue_of l)) \<or> is_woken (fs_world s) x"
      using inv(5,6) by simp_all
    moreover from this have "sw_syncs w' x \<noteq> None" using u(2) by simp
    ultimately show ?case using is_woken_woken_syncs [OF u(2), of x] by (auto simp: u(1))
  qed (use inv u(1) in auto)
qed

lemma flock_inv_step: "flock_step s s' \<Longrightarrow> flock_inv s \<Longrightarrow> flock_inv s'"
proof (induction rule: flock_step.induct)
  case (wakes_up s x req)
  show ?case
    by (rule flock_invI) (use flock_invD [OF wakes_up(3)] in \<open>auto simp: is_woken_def split: if_splits\<close>)
next
  case (gives_up s x req)
  show ?case
    by (rule flock_invI) (use flock_invD [OF gives_up(2)] in \<open>auto simp: is_woken_def split: if_splits\<close>)
next
  case (owner_changes s alive')
  then show ?case by (simp add: flock_inv_def)
qed (simp_all add: flock_inv_sets flock_inv_sleeps flock_inv_unlocks)

lemma flock_inv_reachable:
  assumes "flock_init s" "flock_step\<^sup>*\<^sup>* s s'"
  shows "flock_inv s'"
  using assms(2)
proof (induction rule: rtranclp_induct)
  case base
  then show ?case using assms(1) by (simp add: flock_init_def flock_inv_def)
qed (rule flock_inv_step)

text \<open>
  C14: Whatever threads take, convert, wait for and release the locks of a file, in whatever order,
  an opened file holds at most one lock and no exclusive lock is held beside another lock.
\<close>

theorem flock_exclusive:
  assumes "flock_init s" "flock_step\<^sup>*\<^sup>* s s'"
  shows "distinct (map fl_owner (fs_list s')) \<and>
    (\<forall>l \<in> set (fs_list s'). fl_type l = EX_LOCK \<longrightarrow> fs_list s' = [l])"
proof
  note inv = flock_invD [OF flock_inv_reachable [OF assms]]
  show "distinct (map fl_owner (fs_list s'))" by (rule inv(1))
  show "\<forall>l \<in> set (fs_list s'). fl_type l = EX_LOCK \<longrightarrow> fs_list s' = [l]"
  proof (intro ballI impI)
    fix l assume l: "l \<in> set (fs_list s')" "fl_type l = EX_LOCK"
    have "m = l" if "m \<in> set (fs_list s')" for m
    proof -
      have "fl_owner m = fl_owner l"
        using inv(2) [OF l(1) that] l(2) by (auto simp: Flock_conflict_with_def Flock_same_owner_with_def split: if_splits)
      then show ?thesis using inv(1) l(1) that by (auto simp: distinct_map dest: inj_onD)
    qed
    moreover have "distinct (fs_list s')" using inv(1) by (simp add: distinct_map)
    ultimately show "fs_list s' = [l]"
      using l(1) by (metis distinct_length_2_or_more list.set_cases list.set_intros(1) list.set_intros(2) neq_Nil_conv)
  qed
qed

text \<open>
  C23: No thread sleeps in \<open>flock\<close> without a reason, and releasing the reason wakes it: a thread in
  \<open>wait\<close> that has not been woken is in the queue of a held lock that conflicts with the one it asks
  for, and unlocking by that lock's owner wakes it.
\<close>

theorem flock_sleeper_justified:
  assumes "flock_init s" "flock_step\<^sup>*\<^sup>* s s'" "fs_asks s' x = Some req" "\<not> is_woken (fs_world s') x"
  shows "\<exists>l \<in> set (fs_list s'). Flock_conflict_with req l \<and>
    is_woken (snd (FlockList_unlock (fs_alive s') (fs_world s') (fs_list s') (fl_owner l))) x"
proof -
  note inv = flock_invD [OF flock_inv_reachable [OF assms(1,2)]]
  obtain l where l: "l \<in> set (fs_list s')" "x \<in> set (queue_of l)" using inv(6) [OF assms(3)] assms(4) by blast
  have "\<forall>lk \<in> set (fs_list s'). queue_ok lk" using inv(3) by blast
  from FlockList_unlock_eq [OF this, of "fs_alive s'" "fs_world s'" "fl_owner l"]
  have "sw_syncs (snd (FlockList_unlock (fs_alive s') (fs_world s') (fs_list s') (fl_owner l))) =
      woken_syncs (sw_syncs (fs_world s')) (\<Union>lk \<in> {lk \<in> set (fs_list s'). \<not> (fs_alive s' (fl_owner lk) \<and> fl_owner lk \<noteq> fl_owner l)}. set (queue_of lk))"
    by blast
  from is_woken_woken_syncs [OF this, of x]
  have "is_woken (snd (FlockList_unlock (fs_alive s') (fs_world s') (fs_list s') (fl_owner l))) x"
    using l inv(5) [OF assms(3)] by auto
  then show ?thesis using l inv(4) [OF l assms(3)] by blast
qed

text \<open>One file holds an exclusive lock, another waits for a shared one.\<close>

definition ex_flock_held :: flock_state where
  "ex_flock_held = \<lparr>fs_list = [Flock_new 1 EX_LOCK], fs_world = \<lparr>sw_syncs = Map.empty, sw_writes = []\<rparr>,
     fs_asks = Map.empty, fs_alive = (\<lambda>_. True)\<rparr>"

definition ex_flock_waits :: flock_state where
  "ex_flock_waits = \<lparr>fs_list = [\<lparr>fl_owner = 1, fl_type = EX_LOCK, fl_waiters = Some \<lparr>wq_count = 1, wq_wakers = [7]\<rparr>\<rparr>],
     fs_world = \<lparr>sw_syncs = [7 \<mapsto> LevelSync_new 3], sw_writes = []\<rparr>,
     fs_asks = [7 \<mapsto> Flock_new 2 SH_LOCK], fs_alive = (\<lambda>_. True)\<rparr>"

lemmas flock_eval = FlockList_set_lock_def Flock_new_def Flock_conflict_with_def Flock_same_owner_with_def
  Flock_enqueue_waiter_def WaiterQueue_new_def reset_and_enqueue_def Waiter_reset_def new_waiter_def LevelSync_new_def
  LevelSync_reset_def uadd_def

lemma ex_flock_run: "flock_step\<^sup>*\<^sup>* (ex_flock_held\<lparr>fs_list := []\<rparr>) ex_flock_held" "flock_step\<^sup>*\<^sup>* (ex_flock_held\<lparr>fs_list := []\<rparr>) ex_flock_waits"
proof -
  have "flock_step (ex_flock_held\<lparr>fs_list := []\<rparr>) (ex_flock_held\<lparr>fs_list := [Flock_new 1 EX_LOCK], fs_world := fs_world ex_flock_held\<rparr>)"
    using flock_step.sets [of "Flock_new 1 EX_LOCK" "ex_flock_held\<lparr>fs_list := []\<rparr>" True 0] by (simp add: ex_flock_held_def flock_eval)
  then show 1: "flock_step\<^sup>*\<^sup>* (ex_flock_held\<lparr>fs_list := []\<rparr>) ex_flock_held" by (simp add: ex_flock_held_def)
  have "flock_step ex_flock_held ex_flock_waits"
    using flock_step.sleeps [of "Flock_new 2 SH_LOCK" ex_flock_held 7 3 "fs_list ex_flock_waits" "fs_world ex_flock_waits"]
    by (simp add: ex_flock_held_def ex_flock_waits_def flock_eval unused_def room_def queue_of_def)
  with 1 show "flock_step\<^sup>*\<^sup>* (ex_flock_held\<lparr>fs_list := []\<rparr>) ex_flock_waits" by (rule rtranclp.rtrancl_into_rtrancl)
qed

theorem flock_exclusive_witness: "fs_list ex_flock_waits = [hd (fs_list ex_flock_waits)]"
  using flock_exclusive [OF _ ex_flock_run(2)] by (simp add: ex_flock_held_def ex_flock_waits_def flock_init_def)

theorem flock_sleeper_justified_witness:
  "\<exists>l \<in> set (fs_list ex_flock_waits). Flock_conflict_with (Flock_new 2 SH_LOCK) l \<and>
    is_woken (snd (FlockList_unlock (\<lambda>_. True) (fs_world ex_flock_waits) (fs_list ex_flock_waits) (fl_owner l))) 7"
  using flock_sleeper_justified [OF _ ex_flock_run(2), of 7 "Flock_new 2 SH_LOCK"]
  by (simp add: ex_flock_held_def ex_flock_waits_def flock_init_def is_woken_def LevelSync_new_def)

section \<open>The system call\<close>

lemma ops_small: "(bits :: 32 word) AND NOT 15 = 0 \<Longrightarrow> bits \<in> {0, 1, 2, 3, 4, 5, 6, 7, 8, 9, 10, 11, 12, 13, 14, 15}"
proof -
  assume a: "bits AND NOT 15 = 0"
  have m: "(15 :: 32 word) = mask 4" by (simp add: mask_eq_exp_minus_1)
  have "unat bits - unat bits mod 2 ^ 4 = 0" using a unat_and_not_mask [of bits 4] unfolding m by simp
  moreover have "unat bits mod 16 < 16" by simp
  ultimately have "unat bits < 16" by simp
  then have n: "unat bits < 16" by simp
  define n where "n = unat bits"
  have "n \<in> {0, 1, 2, 3, 4, 5, 6, 7, 8, 9, 10, 11, 12, 13, 14, 15}"
    using n(1) unfolding n_def [symmetric] insert_iff empty_iff simp_thms by presburger
  moreover have "bits = word_of_nat n" by (simp add: n_def)
  ultimately show ?thesis by (elim insertE emptyE) simp_all
qed

lemma from_i32_Ok: "FlockOps_from_i32 bits = Ok ops \<longleftrightarrow> ops = bits \<and> bits \<in> {1, 2, 5, 6, 8, 12}"
proof (cases "bits AND NOT 15 = 0")
  case True
  from ops_small [OF True] show ?thesis
    by (elim insertE emptyE) (simp_all add: FlockOps_from_i32_def lock_ops_defs ops_contains_def)
next
  case False
  then have "bits \<notin> {1, 2, 5, 6, 8, 12}" by auto
  with False show ?thesis by (auto simp: FlockOps_from_i32_def lock_ops_defs)
qed

text \<open>
  The system call accepts exactly a shared, an exclusive or an unlock operation, each with or
  without the non-blocking flag, asks for the matching lock, and never panics on the flags, whatever
  the caller passes.
\<close>

theorem sys_flock_correct:
  assumes "inode_file fd = Ok f"
  shows "sys_flock inode_file fd bits =
    (if bits \<in> {8, 12} then Ok (AskUnlock f)
     else if bits \<in> {1, 5} then Ok (AskLock (Flock_new f SH_LOCK) (bits = 5))
     else if bits \<in> {2, 6} then Ok (AskLock (Flock_new f EX_LOCK) (bits = 6))
     else Err EINVAL)"
proof (cases "bits \<in> {1, 2, 5, 6, 8, 12}")
  case True
  then have "FlockOps_from_i32 bits = Ok bits" by (simp add: from_i32_Ok)
  then show ?thesis using True assms
    by (elim insertE emptyE) (simp_all add: sys_flock_def do_flock_def FlockType_from_def lock_ops_defs ops_contains_def)
next
  case False
  then have "FlockOps_from_i32 bits \<noteq> Ok bits" by (simp add: from_i32_Ok)
  then have "FlockOps_from_i32 bits = Err EINVAL" by (auto simp: FlockOps_from_i32_def split: if_splits)
  then show ?thesis using False by (simp add: sys_flock_def)
qed

theorem sys_flock_correct_witness:
  "sys_flock Ok 4 6 = Ok (AskLock (Flock_new 4 EX_LOCK) True) \<and> sys_flock Ok 4 3 = Err EINVAL"
  using sys_flock_correct [of Ok 4 4 6] sys_flock_correct [of Ok 4 4 3] by simp

end
