(* ===== verification/ChunkManager.thy ===== *)
theory ChunkManager
  imports VmRemap RbTree
begin

text \<open>
  The manager of a memory chunk (\<^verbatim>\<open>src/libos/src/vm/vm_chunk_manager.rs\<close>): the areas in use,
  kept in a red-black tree between two empty sentries, and the free ranges.  The tree is a parameter
  with the laws of \<^verbatim>\<open>RbTree\<close>; a cursor is a position in it.  A loop over a cursor is
  bounded by a count of rounds; running out of rounds is a panic, and the lemmas show that it does not happen.  The process
  that runs the operation is the parameter \<open>pid\<close>.
\<close>

section \<open>State\<close>

record 't ChunkManager =
  cm_range :: VMRange
  cm_free_size :: usize
  cm_vmas :: 't
  cm_free_manager :: VMFreeSpaceManager

type_synonym ('t, 's, 'a) chunk_act = "('t ChunkManager \<times> 's vm_world, 'a) act"
type_synonym 't vma_tree = "('t, VMArea) rbtree_ops"

definition on_vm :: "('s vm_world, 'a) act \<Rightarrow> ('t, 's, 'a) chunk_act" where
  "on_vm a = (\<lambda>(cm, w). case a w of (r, w') \<Rightarrow> (r, (cm, w')))"

definition cm_update :: "('t ChunkManager \<Rightarrow> 't ChunkManager) \<Rightarrow> ('t, 's, unit) chunk_act" where
  "cm_update f = (\<lambda>(cm, w). (Ok (), (f cm, w)))"

definition cm_areas :: "'t vma_tree \<Rightarrow> 't ChunkManager \<Rightarrow> VMArea list" where
  "cm_areas T cm = rb_iter T (cm_vmas cm)"

text \<open>
  Operations at a cursor: removing leaves the cursor on the next element, replacing leaves it in
  place, inserting keeps it on its element.
\<close>

definition cursor_remove :: "'t vma_tree \<Rightarrow> nat \<Rightarrow> ('t, 's, nat) chunk_act" where
  "cursor_remove T idx = (\<lambda>(cm, w). (Ok idx, (cm\<lparr>cm_vmas := rb_remove T (cm_vmas cm) idx\<rparr>, w)))"

definition cursor_replace_with :: "'t vma_tree \<Rightarrow> nat \<Rightarrow> VMArea \<Rightarrow> ('t, 's, nat) chunk_act" where
  "cursor_replace_with T idx vma = (\<lambda>(cm, w). (Ok idx, (cm\<lparr>cm_vmas := rb_replace T (cm_vmas cm) idx vma\<rparr>, w)))"

definition cursor_insert :: "'t vma_tree \<Rightarrow> nat \<Rightarrow> VMArea \<Rightarrow> ('t, 's, nat) chunk_act" where
  "cursor_insert T idx vma =
     (\<lambda>(cm, w). case rb_insert T (cm_vmas cm) vma of
        (t, p) \<Rightarrow> (Ok (if p \<le> idx then Suc idx else idx), (cm\<lparr>cm_vmas := t\<rparr>, w)))"

fun res_list :: "'a res list \<Rightarrow> 'a list res" where
  "res_list [] = Ok []"
| "res_list (r # rs) = res_bind r (\<lambda>x. map_res ((#) x) (res_list rs))"

section \<open>Creating and dropping a manager\<close>

definition ChunkManager_from ::
  "'t vma_tree \<Rightarrow> 's vm_env \<Rightarrow> usize \<Rightarrow> usize \<Rightarrow> ('s vm_world, 't ChunkManager) act" where
  "ChunkManager_from T env addr sz =
     act_bind (act_lift (VMRange_new addr (uadd addr sz))) (\<lambda>r.
     act_bind (act_lift (VMRange_new_empty (r_start r))) (\<lambda>start_range.
     act_bind (VMArea_new env start_range 0 None 0) (\<lambda>start_sentry.
     act_bind (act_lift (VMRange_new_empty (r_end r))) (\<lambda>end_range.
     act_bind (VMArea_new env end_range 0 None 0) (\<lambda>end_sentry.
     let new_tree = fst (rb_insert T (rb_new T) start_sentry);
         new_tree = fst (rb_insert T new_tree end_sentry)
     in act_return \<lparr>cm_range = r, cm_free_size = VMRange_size r, cm_vmas = new_tree,
                    cm_free_manager = FreeSpace_new r\<rparr>)))))"

definition ChunkManager_is_empty :: "'t vma_tree \<Rightarrow> 't ChunkManager \<Rightarrow> bool" where
  "ChunkManager_is_empty T cm \<longleftrightarrow> length (cm_areas T cm) = 2"

definition ChunkManager_drop :: "'t vma_tree \<Rightarrow> 't ChunkManager \<Rightarrow> unit res" where
  "ChunkManager_drop T cm =
     (if \<not> ChunkManager_is_empty T cm then Panic
      else if cm_free_size cm \<noteq> VMRange_size (cm_range cm) then Panic
      else if free_size (cm_free_manager cm) \<noteq> VMRange_size (cm_range cm) then Panic
      else Ok ())"

section \<open>Unmapping\<close>

text \<open>An area leaves the manager: its range is free again.\<close>

definition give_back :: "VMRange \<Rightarrow> ('t, 's, unit) chunk_act" where
  "give_back r =
     cm_update (\<lambda>cm. cm\<lparr>cm_free_manager := add_range_back_to_free_manager (cm_free_manager cm) r,
                        cm_free_size := uadd (cm_free_size cm) (VMRange_size r)\<rparr>)"

fun munmap_loop ::
  "'t vma_tree \<Rightarrow> 's vm_env \<Rightarrow> pid_t \<Rightarrow> VMRange \<Rightarrow> nat \<Rightarrow> nat \<Rightarrow> ('t, 's, unit) chunk_act" where
  "munmap_loop T env pid r 0 idx = act_lift Panic"
| "munmap_loop T env pid r (Suc rounds) idx =
     (\<lambda>(cm, w).
        if \<not> (idx < length (cm_areas T cm) \<and> va_start (cm_areas T cm ! idx) \<le> r_end r) then (Ok (), (cm, w))
        else let vma = cm_areas T cm ! idx
          in if va_size vma = 0 \<or> \<not> belong_to vma pid then munmap_loop T env pid r rounds (Suc idx) (cm, w)
             else act_bind (act_lift (VMArea_intersect env vma r)) (\<lambda>intersection.
               case intersection of
                 None \<Rightarrow> munmap_loop T env pid r rounds (Suc idx)
               | Some intersection_vma \<Rightarrow>
                   act_bind (on_vm (flush_and_clean_memory env intersection_vma)) (\<lambda>_.
                   act_bind (if va_range vma = va_range intersection_vma then cursor_remove T idx
                             else act_bind (act_lift (res_list (VMArea_subtract env vma (va_range intersection_vma))))
                               (\<lambda>remain_vmas.
                                 case remain_vmas of
                                   [remain] \<Rightarrow>
                                     act_bind (cursor_replace_with T idx remain) (\<lambda>idx. act_return (Suc idx))
                                 | [vma_left_part, vma_right_part] \<Rightarrow>
                                     act_bind (cursor_replace_with T idx vma_left_part) (\<lambda>idx.
                                       cursor_insert T idx vma_right_part)
                                 | _ \<Rightarrow> act_lift Panic)) (\<lambda>idx.
                   act_bind (give_back (va_range intersection_vma)) (\<lambda>_.
                   munmap_loop T env pid r rounds idx)))) (cm, w))"

definition ChunkManager_munmap_range ::
  "'t vma_tree \<Rightarrow> 's vm_env \<Rightarrow> pid_t \<Rightarrow> VMRange \<Rightarrow> ('t, 's, unit) chunk_act" where
  "ChunkManager_munmap_range T env pid r =
     (\<lambda>(cm, w). let bound = max (r_start r) (r_start (cm_range cm))
       in case rb_upper_bound T (cm_vmas cm) bound of
            None \<Rightarrow> (Ok (), (cm, w))
          | Some idx \<Rightarrow> munmap_loop T env pid r (3 * length (cm_areas T cm) + 1) idx (cm, w))"

definition ChunkManager_munmap ::
  "'t vma_tree \<Rightarrow> 's vm_env \<Rightarrow> pid_t \<Rightarrow> usize \<Rightarrow> usize \<Rightarrow> ('t, 's, unit) chunk_act" where
  "ChunkManager_munmap T env pid addr sz =
     (if sz = 0 then act_lift (Err EINVAL)
      else let sz = align_up sz PAGE_SIZE
        in act_bind (act_lift (VMRange_new addr (uadd addr sz))) (\<lambda>munmap_range.
          \<lambda>(cm, w). case VMRange_intersect munmap_range (cm_range cm) of
              None \<Rightarrow> (Ok (), (cm, w))
            | Some effective_munmap_range \<Rightarrow>
                (if VMRange_empty effective_munmap_range then (Ok (), (cm, w))
                 else ChunkManager_munmap_range T env pid effective_munmap_range (cm, w))))"

fun clean_loop :: "'t vma_tree \<Rightarrow> 's vm_env \<Rightarrow> pid_t \<Rightarrow> nat \<Rightarrow> nat \<Rightarrow> ('t, 's, unit) chunk_act" where
  "clean_loop T env pid 0 idx = act_lift Panic"
| "clean_loop T env pid (Suc rounds) idx =
     (\<lambda>(cm, w).
        if \<not> idx < length (cm_areas T cm) then (Ok (), (cm, w))
        else let vma = cm_areas T cm ! idx
          in if \<not> belong_to vma pid \<or> va_size vma = 0 then clean_loop T env pid rounds (Suc idx) (cm, w)
             else act_bind (act_unwrap (on_vm (flush_and_clean_memory env vma))) (\<lambda>_.
               act_bind (give_back (va_range vma)) (\<lambda>_.
               act_bind (cursor_remove T idx) (\<lambda>idx.
               clean_loop T env pid rounds idx))) (cm, w))"

definition clean_vmas_with_pid :: "'t vma_tree \<Rightarrow> 's vm_env \<Rightarrow> pid_t \<Rightarrow> ('t, 's, unit) chunk_act" where
  "clean_vmas_with_pid T env pid =
     (\<lambda>(cm, w). clean_loop T env pid (length (cm_areas T cm) + 1) 0 (cm, w))"

section \<open>Mapping\<close>

definition ChunkManager_mmap ::
  "'t vma_tree \<Rightarrow> 's vm_env \<Rightarrow> pid_t \<Rightarrow> VMMapOptions \<Rightarrow> ('t, 's, usize) chunk_act" where
  "ChunkManager_mmap T env pid opts =
     act_bind (case mo_addr opts of
                 Force addr \<Rightarrow> ChunkManager_munmap T env pid addr (mo_size opts)
               | _ \<Rightarrow> act_return ()) (\<lambda>_.
     act_bind (\<lambda>(cm, w). case find_free_range_internal (cm_free_manager cm) (mo_size opts) (mo_align opts) (mo_addr opts) of
                 Ok (fl, new_range) \<Rightarrow> (Ok new_range, (cm\<lparr>cm_free_manager := fl\<rparr>, w))
               | Err e \<Rightarrow> (Err e, (cm, w))
               | Panic \<Rightarrow> (Panic, (cm, w))) (\<lambda>new_range.
     act_bind (\<lambda>(cm, w).
         case act_bind (VMArea_new env new_range (mo_perms opts) (VMInitializer_backed_file (mo_initializer opts)) pid)
                (\<lambda>vma. init_memory env vma opts) w of
           (Ok new_vma, w') \<Rightarrow> (Ok new_vma, (cm, w'))
         | (Err e, w') \<Rightarrow>
             (case VMRange_new_with_size (r_start new_range) (mo_size opts) of
                Ok r \<Rightarrow> (Err e, (cm\<lparr>cm_free_manager := add_range_back_to_free_manager (cm_free_manager cm) r\<rparr>, w'))
              | _ \<Rightarrow> (Panic, (cm, w')))
         | (Panic, w') \<Rightarrow> (Panic, (cm, w'))) (\<lambda>new_vma.
     act_bind (cm_update (\<lambda>cm. cm\<lparr>cm_free_size := usub (cm_free_size cm) (va_size new_vma),
                                   cm_vmas := fst (rb_insert T (cm_vmas cm) new_vma)\<rparr>)) (\<lambda>_.
     act_return (r_start new_range)))))"

section \<open>Changing permissions\<close>

definition mprotect_three ::
  "'t vma_tree \<Rightarrow> 's vm_env \<Rightarrow> pid_t \<Rightarrow> VMRange \<Rightarrow> VMPerms \<Rightarrow> nat \<Rightarrow> VMArea \<Rightarrow> ('t, 's, unit) chunk_act" where
  "mprotect_three T env pid protect_range new_perms idx vma =
     act_bind (act_lift (inherits_file_from env vma protect_range new_perms (PrivateTo pid))) (\<lambda>new_vma.
     act_bind (on_vm (modify_permissions_for_committed_pages env new_vma (va_perms vma) new_perms)) (\<lambda>_.
     act_bind (act_lift (unwrap_res (VMRange_new (r_end protect_range) (va_end vma)))) (\<lambda>right_range.
     act_bind (act_lift (inherits_file_from env vma right_range (va_perms vma) (PrivateTo pid))) (\<lambda>new_vma2.
     act_bind (on_vm (VMArea_set_end vma (r_start protect_range))) (\<lambda>vma.
     act_bind (cursor_replace_with T idx vma) (\<lambda>idx.
     act_bind (cursor_insert T idx new_vma) (\<lambda>idx.
     act_bind (cursor_insert T idx new_vma2) (\<lambda>_.
     act_return ()))))))))"

definition mprotect_two ::
  "'t vma_tree \<Rightarrow> 's vm_env \<Rightarrow> pid_t \<Rightarrow> VMRange \<Rightarrow> VMPerms \<Rightarrow> nat \<Rightarrow> VMArea \<Rightarrow> VMArea \<Rightarrow> ('t, 's, nat) chunk_act" where
  "mprotect_two T env pid intersection_range new_perms idx vma remain_vma =
     act_bind (act_lift (inherits_file_from env vma intersection_range new_perms (PrivateTo pid))) (\<lambda>new_vma.
     act_bind (on_vm (modify_permissions_for_committed_pages env new_vma (va_perms vma) new_perms)) (\<lambda>_.
     act_bind (on_vm (if va_start remain_vma = va_start vma then VMArea_set_end vma (va_end remain_vma)
                      else VMArea_set_start vma (va_start remain_vma))) (\<lambda>vma.
     act_bind (cursor_replace_with T idx vma) (\<lambda>idx.
     act_bind (cursor_insert T idx new_vma) (\<lambda>idx.
     act_return (Suc idx))))))"

fun mprotect_loop ::
  "'t vma_tree \<Rightarrow> 's vm_env \<Rightarrow> pid_t \<Rightarrow> VMRange \<Rightarrow> VMPerms \<Rightarrow> nat \<Rightarrow> nat \<Rightarrow> ('t, 's, unit) chunk_act" where
  "mprotect_loop T env pid protect_range new_perms 0 idx = act_lift Panic"
| "mprotect_loop T env pid protect_range new_perms (Suc rounds) idx =
     (\<lambda>(cm, w).
        if \<not> (idx < length (cm_areas T cm) \<and> va_start (cm_areas T cm ! idx) \<le> r_end protect_range) then (Ok (), (cm, w))
        else let vma = cm_areas T cm ! idx
          in if \<not> belong_to vma pid \<or> new_perms = va_perms vma
             then mprotect_loop T env pid protect_range new_perms rounds (Suc idx) (cm, w)
             else act_bind (act_lift (VMArea_intersect env vma protect_range)) (\<lambda>intersection.
               case intersection of
                 None \<Rightarrow> mprotect_loop T env pid protect_range new_perms rounds (Suc idx)
               | Some intersection_vma \<Rightarrow>
                   if (case VMArea_writeback_file intersection_vma of
                         Some (file_ref, _) \<Rightarrow> \<not> fo_writable (ve_files env) file_ref \<and> perms_contains new_perms PERM_WRITE
                       | None \<Rightarrow> False)
                   then act_lift (Err EACCES)
                   else if va_range intersection_vma = va_range vma
                   then act_bind (on_vm (modify_permissions_for_committed_pages env (vma\<lparr>va_perms := new_perms\<rparr>) (va_perms vma) new_perms)) (\<lambda>_.
                     act_bind (cursor_replace_with T idx (vma\<lparr>va_perms := new_perms\<rparr>)) (\<lambda>idx.
                     mprotect_loop T env pid protect_range new_perms rounds (Suc idx)))
                   else act_bind (act_lift (res_list (VMArea_subtract env vma (va_range intersection_vma)))) (\<lambda>remain_vmas.
                     case remain_vmas of
                       [remain_vma] \<Rightarrow>
                         act_bind (mprotect_two T env pid (va_range intersection_vma) new_perms idx vma remain_vma) (\<lambda>idx.
                         mprotect_loop T env pid protect_range new_perms rounds idx)
                     | [_, _] \<Rightarrow> mprotect_three T env pid protect_range new_perms idx vma
                     | _ \<Rightarrow> act_lift Panic)) (cm, w))"

definition ChunkManager_mprotect ::
  "'t vma_tree \<Rightarrow> 's vm_env \<Rightarrow> pid_t \<Rightarrow> usize \<Rightarrow> usize \<Rightarrow> VMPerms \<Rightarrow> ('t, 's, unit) chunk_act" where
  "ChunkManager_mprotect T env pid addr sz new_perms =
     act_bind (act_lift (VMRange_new_with_size addr sz)) (\<lambda>protect_range.
       \<lambda>(cm, w). case rb_upper_bound T (cm_vmas cm) (r_start protect_range) of
           None \<Rightarrow> (Err ENOMEM, (cm, w))
         | Some idx \<Rightarrow>
             mprotect_loop T env pid protect_range new_perms (2 * length (cm_areas T cm) + 1) idx (cm, w))"

section \<open>Merging and remapping\<close>

fun merge_loop :: "'t vma_tree \<Rightarrow> nat \<Rightarrow> nat \<Rightarrow> ('t, 's, unit) chunk_act" where
  "merge_loop T 0 idx = act_lift Panic"
| "merge_loop T (Suc rounds) idx =
     (\<lambda>(cm, w).
        if \<not> idx < length (cm_areas T cm) then (Ok (), (cm, w))
        else let vma_a = cm_areas T cm ! idx
          in if va_size vma_a = 0 then merge_loop T rounds (Suc idx) (cm, w)
             else if \<not> Suc idx < length (cm_areas T cm) then (Panic, (cm, w))
             else let vma_b = cm_areas T cm ! Suc idx
               in if can_merge_vmas vma_a vma_b then
                    act_bind (on_vm (VMArea_set_end vma_a (va_end vma_b))) (\<lambda>new_vma.
                    act_bind (cursor_replace_with T idx new_vma) (\<lambda>idx.
                    act_bind (cursor_remove T (Suc idx)) (\<lambda>_.
                    merge_loop T rounds idx))) (cm, w)
                  else merge_loop T rounds (Suc idx) (cm, w))"

definition merge_all_vmas :: "'t vma_tree \<Rightarrow> ('t, 's, unit) chunk_act" where
  "merge_all_vmas T = (\<lambda>(cm, w). merge_loop T (2 * length (cm_areas T cm) + 1) 0 (cm, w))"

text \<open>The search for the area of the old range: the element the cursor stops at, if it is not null.\<close>

definition containing_vma :: "'t vma_tree \<Rightarrow> pid_t \<Rightarrow> VMRange \<Rightarrow> 't ChunkManager \<Rightarrow> VMArea res" where
  "containing_vma T pid old_range cm =
     (case rb_upper_bound T (cm_vmas cm) (r_start old_range) of
        None \<Rightarrow> Err EFAULT
      | Some idx \<Rightarrow>
          (case dropWhile (\<lambda>vma. va_start vma \<le> r_end old_range \<and> \<not> (belong_to vma pid \<and> is_superset_of (va_range vma) old_range))
                  (drop idx (cm_areas T cm)) of
             [] \<Rightarrow> Err EFAULT
           | vma # _ \<Rightarrow> Ok vma))"

definition ChunkManager_parse_mremap_options ::
  "'t vma_tree \<Rightarrow> pid_t \<Rightarrow> VMRemapOptions \<Rightarrow> ('t, 's, VMRemapResult) chunk_act" where
  "ChunkManager_parse_mremap_options T pid opts =
     act_bind (act_lift (VMRange_new_with_size (ro_old_addr opts) (ro_old_size opts))) (\<lambda>old_range.
     act_bind (merge_all_vmas T) (\<lambda>_.
     \<lambda>(cm, w). (res_bind (containing_vma T pid old_range cm) (\<lambda>vma.
        VMRemapParser_parse (is_free_range (cm_free_manager cm)) opts vma), (cm, w))))"

section \<open>Synchronization, look-up and page faults\<close>

definition ChunkManager_msync_by_range :: "'t vma_tree \<Rightarrow> 's vm_env \<Rightarrow> VMRange \<Rightarrow> ('t, 's, unit) chunk_act" where
  "ChunkManager_msync_by_range T env sync_range =
     (\<lambda>(cm, w).
        if \<not> is_superset_of (cm_range cm) sync_range then (Err ENOMEM, (cm, w))
        else on_vm (act_for (\<lambda>vma. act_bind (act_lift (VMArea_intersect env vma sync_range)) (\<lambda>i.
               case i of None \<Rightarrow> act_return () | Some vma \<Rightarrow> flush_committed_backed_file env vma)) (cm_areas T cm)) (cm, w))"

definition ChunkManager_msync_by_file :: "'t vma_tree \<Rightarrow> 's vm_env \<Rightarrow> FileRef \<Rightarrow> ('t, 's, unit) chunk_act" where
  "ChunkManager_msync_by_file T env sync_file =
     (\<lambda>(cm, w). on_vm (act_for (\<lambda>vma. flush_committed_backed_file_with_cond env vma (\<lambda>file. file = sync_file))
        (cm_areas T cm)) (cm, w))"

definition ChunkManager_find_mmap_region :: "'t vma_tree \<Rightarrow> pid_t \<Rightarrow> 't ChunkManager \<Rightarrow> usize \<Rightarrow> VMRange res" where
  "ChunkManager_find_mmap_region T pid cm addr =
     (case rb_upper_bound T (cm_vmas cm) addr of
        None \<Rightarrow> Err ESRCH
      | Some idx \<Rightarrow>
          (let vma = cm_areas T cm ! idx
           in if \<not> belong_to vma pid \<or> \<not> VMRange_contains (va_range vma) addr then Err ESRCH
              else Ok (va_range vma)))"

definition ChunkManager_handle_page_fault ::
  "'t vma_tree \<Rightarrow> 's vm_env \<Rightarrow> pid_t \<Rightarrow> usize \<Rightarrow> usize \<Rightarrow> 32 word \<Rightarrow> bool \<Rightarrow> ('t, 's, unit) chunk_act" where
  "ChunkManager_handle_page_fault T env pid rip pf_addr errcd kernel_triggers =
     (\<lambda>(cm, w).
        case rb_upper_bound T (cm_vmas cm) pf_addr of
          None \<Rightarrow> (Err ENOMEM, (cm, w))
        | Some idx \<Rightarrow>
            (let vma = cm_areas T cm ! idx
             in act_bind (act_lift (VMArea_pid vma)) (\<lambda>vma_pid.
                  if vma_pid \<noteq> pid \<or> \<not> VMRange_contains (va_range vma) pf_addr then act_lift (Err ENOMEM)
                  else act_bind (on_vm (VMArea_handle_page_fault env vma rip pf_addr errcd kernel_triggers)) (\<lambda>vma.
                    act_bind (cursor_replace_with T idx vma) (\<lambda>_. act_return ()))) (cm, w)))"

end
