(* ===== verification/ChunkInv.thy ===== *)
theory ChunkInv
  imports ChunkManager
begin

text \<open>
  The invariant of the chunk manager and the correctness of unmapping.  The areas of a chunk lie one
  behind the other between the sentries, and the free list holds exactly the addresses that no area
  covers.  The loop over a cursor is shown equal to a recursion over the list of areas, which also shows
  that its bound on the rounds is enough.  What an operation does is stated on \<open>view\<close>, which
  maps an address to the permissions, the owner and the file position behind it.
\<close>

section \<open>Areas in order\<close>

definition apart_areas :: "VMArea list \<Rightarrow> bool" where
  "apart_areas xs \<longleftrightarrow> sorted_wrt (\<lambda>a b. va_end a \<le> va_start b) xs \<and> (\<forall>v \<in> set xs. va_start v \<le> va_end v)"

definition area_set :: "VMArea list \<Rightarrow> nat set" where
  "area_set xs = \<Union> ((\<lambda>v. addrs (va_range v)) ` set xs)"

lemma area_set_simps [simp]:
  "area_set [] = {}" "area_set (v # xs) = addrs (va_range v) \<union> area_set xs" "area_set (xs @ ys) = area_set xs \<union> area_set ys"
  by (auto simp: area_set_def)

lemma finite_area_set [simp]: "finite (area_set xs)"
  by (simp add: area_set_def)

lemma apart_areas_append:
  "apart_areas (xs @ ys) \<longleftrightarrow> apart_areas xs \<and> apart_areas ys \<and> (\<forall>x \<in> set xs. \<forall>y \<in> set ys. va_end x \<le> va_start y)"
  by (auto simp: apart_areas_def sorted_wrt_append)

lemma apart_areas_Cons:
  "apart_areas (v # xs) \<longleftrightarrow> va_start v \<le> va_end v \<and> (\<forall>x \<in> set xs. va_end v \<le> va_start x) \<and> apart_areas xs"
  by (auto simp: apart_areas_def)

lemma apart_areas_Nil [simp]: "apart_areas []"
  by (simp add: apart_areas_def)

lemmas apart_simps = apart_areas_append apart_areas_Cons

lemma apart_sorted: "apart_areas xs \<Longrightarrow> rb_sorted va_start xs"
proof (induction xs)
  case (Cons v xs)
  then show ?case by (auto simp: rb_sorted_def apart_simps intro: order_trans)
qed (simp add: rb_sorted_def)

lemma apart_le: "apart_areas xs \<Longrightarrow> x \<in> set xs \<Longrightarrow> va_start x \<le> va_end x"
  by (simp add: apart_areas_def)

lemma apart_before: "apart_areas (xs @ v # ys) \<Longrightarrow> x \<in> set xs \<Longrightarrow> va_start x \<le> va_start v"
  using apart_le by (fastforce simp: apart_simps)

lemma apart_disjoint: "apart_areas (v # xs) \<Longrightarrow> addrs (va_range v) \<inter> area_set xs = {}"
  by (fastforce simp: apart_simps area_set_def range_simps)

text \<open>The laws the manager needs of its tree.\<close>

definition tree_ok :: "'t vma_tree \<Rightarrow> bool" where
  "tree_ok T \<longleftrightarrow> rbtree_laws va_start T \<and> rb_insert_last va_start T"

lemma tree_insert:
  assumes "tree_ok T" "apart_areas (rb_iter T t)" "rb_iter T t = xs @ ys"
    and "\<forall>x \<in> set xs. va_start x \<le> va_start v" "\<forall>y \<in> set ys. va_start v < va_start y"
  shows "snd (rb_insert T t v) = length xs" "rb_iter T (fst (rb_insert T t v)) = xs @ v # ys"
  using rb_insert_at [OF _ _ apart_sorted [OF assms(2)] assms(3,4,5)] assms(1) by (simp_all add: tree_ok_def)

lemma tree_remove:
  assumes "tree_ok T" "rb_iter T t = xs @ v # ys"
  shows "rb_iter T (rb_remove T t (length xs)) = xs @ ys"
  using assms rb_iter_remove [of va_start T "length xs" t] by (simp add: tree_ok_def)

lemma tree_replace:
  assumes "tree_ok T" "rb_iter T t = xs @ v # ys"
  shows "rb_iter T (rb_replace T t (length xs) v') = xs @ v' # ys"
  using assms rb_iter_replace [of va_start T "length xs" t] by (simp add: tree_ok_def)

text \<open>Where a search starts: everything before lies below the address, everything after starts above it.\<close>

lemma tree_upper_bound:
  assumes "tree_ok T" "apart_areas (rb_iter T t)" "rb_upper_bound T t b = Some i"
  obtains xs v ys where "rb_iter T t = xs @ v # ys" "length xs = i" "va_start v \<le> b" "\<forall>y \<in> set ys. b < va_start y"
    "\<forall>x \<in> set xs. va_end x \<le> va_start v"
proof -
  note u = rb_upper_bound_Some [OF _ apart_sorted [OF assms(2)] assms(3)]
  have i: "i < length (rb_iter T t)" "va_start (rb_iter T t ! i) \<le> b" using u assms(1) by (auto simp: tree_ok_def)
  have s: "rb_iter T t = take i (rb_iter T t) @ rb_iter T t ! i # drop (Suc i) (rb_iter T t)"
    using i(1) by (rule id_take_nth_drop)
  have "\<forall>y \<in> set (drop (Suc i) (rb_iter T t)). b < va_start y"
    using u(3) assms(1) by (auto simp: tree_ok_def in_set_conv_nth)
  moreover have "\<forall>x \<in> set (take i (rb_iter T t)). va_end x \<le> va_start (rb_iter T t ! i)"
    using assms(2) s by (metis apart_areas_append list.set_intros(1))
  ultimately show ?thesis using that [OF s] i by simp
qed

section \<open>What an address stands for\<close>

type_synonym addr_view = "VMPerms \<times> VMAccess \<times> (FileRef \<times> usize \<times> bool) option"

definition view_of :: "VMArea \<Rightarrow> nat \<Rightarrow> addr_view" where
  "view_of v a = (va_perms v, va_access v,
     map_option (\<lambda>f. (fb_file f, uadd (fb_offset f) (usub a (va_start v)), fb_write_back f)) (va_file_backed v))"

fun view :: "VMArea list \<Rightarrow> nat \<Rightarrow> addr_view option" where
  "view [] a = None"
| "view (v # xs) a = (if a \<in> addrs (va_range v) then Some (view_of v a) else view xs a)"

lemma view_append: "view (xs @ ys) a = (case view xs a of Some s \<Rightarrow> Some s | None \<Rightarrow> view ys a)"
  by (induction xs) auto

lemma view_None: "view xs a = None \<longleftrightarrow> a \<notin> area_set xs"
  by (induction xs) auto

lemma view_skip: "a \<notin> area_set xs \<Longrightarrow> view (xs @ ys) a = view ys a"
  using view_None [of xs a] by (simp add: view_append)

text \<open>Parts of an area keep what their addresses stand for.\<close>

lemma inherits_simps:
  assumes "inherits_file_from env v r p ac = Ok x"
  shows "va_range x = r" "va_perms x = p" "va_access x = ac"
    "va_file_backed x = map_option (\<lambda>f. f\<lparr>fb_offset := uadd (fb_offset f) (usub (r_start r) (va_start v))\<rparr>) (va_file_backed v)"
  using assms by (auto simp: inherits_file_from_def Let_def new_with_page_tracker_def elim!: map_res_OkE)

lemma uadd_split:
  assumes "a \<le> b" "b \<le> c"
  shows "uadd (uadd off (usub b a)) (usub c b) = uadd off (usub c a)"
proof -
  have "off + (b - a) + (c - b) = off + (c - a)" using assms by simp
  then have "((off + (b - a)) mod USIZE_MOD + (c - b)) mod USIZE_MOD = (off + (c - a)) mod USIZE_MOD"
    by (simp only: mod_add_left_eq)
  moreover have "usub b a = b - a" "usub c b = c - b" "usub c a = c - a" using assms by (simp_all add: usub_def)
  ultimately show ?thesis by (simp only: uadd_def)
qed

lemma inherits_view:
  assumes "inherits_file_from env v r p ac = Ok x" "va_start v \<le> r_start r" "a \<in> addrs r"
  shows "view_of x a = (p, ac, snd (snd (view_of v a)))"
  using assms(2,3) uadd_split [of "va_start v" "r_start r" a]
  by (auto simp: view_of_def inherits_simps [OF assms(1)] option.map_comp comp_def range_simps)

lemma res_list_map:
  assumes "res_list (map f rs) = Ok xs"
  shows "list_all2 (\<lambda>r x. f r = Ok x) rs xs"
  using assms
proof (induction rs arbitrary: xs)
  case (Cons r rs)
  then show ?case by (auto elim!: res_bind_OkE map_res_OkE)
qed simp

text \<open>
  The parts of an area outside a range that cuts it, in order.
\<close>

definition outer_ranges :: "VMRange \<Rightarrow> VMRange \<Rightarrow> VMRange list" where
  "outer_ranges r i =
     (if r_start r < r_start i then [mk_range (r_start r) (r_start i)] else []) @
     (if r_end i < r_end r then [mk_range (r_end i) (r_end r)] else [])"

lemma subtract_outer:
  assumes "VMRange_intersect r other = Some i"
  shows "VMRange_subtract r i = outer_ranges r i"
  using VMRange_intersect_Some [OF assms] VMRange_subtract_inside [of r "r_start i" "r_end i"]
  by (simp add: outer_ranges_def)

lemma outer_disjoint:
  assumes "VMRange_intersect r other = Some i" "q \<in> set (outer_ranges r i)"
  shows "addrs q \<inter> addrs other = {}"
proof -
  have "r_start r \<le> r_start i" "r_start i < r_end i" "r_end i \<le> r_end r" using VMRange_intersect_Some [OF assms(1)] by simp_all
  then have "addrs q \<subseteq> addrs r - addrs i"
    using assms(2) by (auto simp: outer_ranges_def addrs_def split: if_splits)
  moreover have "addrs i = addrs r \<inter> addrs other" using VMRange_intersect_Some [OF assms(1)] by simp
  ultimately show ?thesis by blast
qed

section \<open>Unmapping as a recursion over the areas\<close>

type_synonym 's free_state = "VMFreeSpaceManager \<times> usize \<times> 's vm_world"

fun keep_areas :: "VMArea list \<Rightarrow> unit res \<times> VMArea list \<times> 's free_state \<Rightarrow> unit res \<times> VMArea list \<times> 's free_state" where
  "keep_areas ps (res, vs, st) = (res, ps @ vs, st)"

text \<open>What a round does at an area: end the loop, go on, or cut a range out and go on.\<close>

datatype 's munmap_round = Stop "unit res" "'s vm_world" | Skip | Cut VMRange "VMArea list" "'s vm_world"

definition munmap_at :: "'s vm_env \<Rightarrow> pid_t \<Rightarrow> VMRange \<Rightarrow> VMArea \<Rightarrow> 's vm_world \<Rightarrow> 's munmap_round" where
  "munmap_at env pid r v w =
     (if \<not> va_start v \<le> r_end r then Stop (Ok ()) w
      else if va_size v = 0 \<or> \<not> belong_to v pid then Skip
      else case VMArea_intersect env v r of
             Err e \<Rightarrow> Stop (Err e) w
           | Panic \<Rightarrow> Stop Panic w
           | Ok None \<Rightarrow> Skip
           | Ok (Some i) \<Rightarrow>
               (case flush_and_clean_memory env i w of
                  (Err e, w') \<Rightarrow> Stop (Err e) w'
                | (Panic, w') \<Rightarrow> Stop Panic w'
                | (Ok _, w') \<Rightarrow>
                    (case if va_range v = va_range i then Ok [] else res_list (VMArea_subtract env v (va_range i)) of
                       Ok ps \<Rightarrow> Cut (va_range i) ps w'
                     | _ \<Rightarrow> Stop Panic w')))"

fun munmap_list ::
  "'s vm_env \<Rightarrow> pid_t \<Rightarrow> VMRange \<Rightarrow> VMArea list \<Rightarrow> 's free_state \<Rightarrow> unit res \<times> VMArea list \<times> 's free_state" where
  "munmap_list env pid r [] st = (Ok (), [], st)"
| "munmap_list env pid r (v # vs) (fl, fs, w) =
     (case munmap_at env pid r v w of
        Stop res w' \<Rightarrow> (res, v # vs, (fl, fs, w'))
      | Skip \<Rightarrow> keep_areas [v] (munmap_list env pid r vs (fl, fs, w))
      | Cut i ps w' \<Rightarrow>
          keep_areas ps (munmap_list env pid r vs (add_range_back_to_free_manager fl i, uadd fs (VMRange_size i), w')))"

text \<open>The part of an area in a range, and the parts outside.\<close>

lemma intersect_Some:
  assumes "VMArea_intersect env v r = Ok (Some i)"
  shows "VMRange_intersect (va_range v) r = Some (va_range i)"
  using assms by (auto simp: VMArea_intersect_def map_res_Ok_iff inherits_simps split: option.splits)

lemma intersect_disjoint: "addrs (va_range v) \<inter> addrs r = {} \<Longrightarrow> VMArea_intersect env v r = Ok None"
  using VMRange_intersect_None [of "va_range v" r] by (simp add: VMArea_intersect_def)

lemma intersect_None: "VMArea_intersect env v r = Ok None \<Longrightarrow> addrs (va_range v) \<inter> addrs r = {}"
  using VMRange_intersect_None [of "va_range v" r]
  by (auto simp: VMArea_intersect_def map_res_Ok_iff split: option.splits)

lemma pieces_of:
  assumes "VMArea_intersect env v r = Ok (Some i)"
    and "(if va_range v = va_range i then Ok [] else res_list (VMArea_subtract env v (va_range i))) = Ok ps"
  shows "list_all2 (\<lambda>q x. inherits_file_from env v q (va_perms v) (va_access v) = Ok x) (outer_ranges (va_range v) (va_range i)) ps"
proof (cases "va_range v = va_range i")
  case True
  then show ?thesis using assms(2) by (simp add: outer_ranges_def)
next
  case False
  then have "res_list (VMArea_subtract env v (va_range i)) = Ok ps" using assms(2) by simp
  then show ?thesis
    unfolding VMArea_subtract_def subtract_outer [OF intersect_Some [OF assms(1)]] by (rule res_list_map)
qed

lemma pieces_ranges:
  assumes "list_all2 (\<lambda>q x. inherits_file_from env v q p ac = Ok x) qs ps"
  shows "map va_range ps = qs"
  using assms by (induction rule: list_all2_induct) (simp_all add: inherits_simps)

lemma pieces_simps:
  assumes "list_all2 (\<lambda>q x. inherits_file_from env v q p ac = Ok x) qs ps" "x \<in> set ps"
  shows "va_perms x = p" "va_access x = ac" "va_range x \<in> set qs"
  using assms by (induction rule: list_all2_induct) (auto simp: inherits_simps)

text \<open>Running actions.\<close>

lemma act_simps [simp]:
  "act_bind (act_lift (Ok x)) f = f x" "act_bind (act_return x) f = f x"
  "act_bind (act_lift (Err e)) f = act_lift (Err e)" "act_bind (act_lift Panic) f = act_lift Panic"
  "act_lift res st = (res, st)"
  by (simp_all add: act_bind_def act_lift_def act_return_def fun_eq_iff)

lemma act_run:
  "a st = (Ok x, st') \<Longrightarrow> act_bind a f st = f x st'"
  "a st = (Err e, st') \<Longrightarrow> act_bind a f st = (Err e, st')"
  "a st = (Panic, st') \<Longrightarrow> act_bind a f st = (Panic, st')"
  by (simp_all add: act_bind_def)

lemma cursor_run [simp]:
  "cursor_remove T idx (cm, w) = (Ok idx, (cm\<lparr>cm_vmas := rb_remove T (cm_vmas cm) idx\<rparr>, w))"
  "cursor_replace_with T idx vma (cm, w) = (Ok idx, (cm\<lparr>cm_vmas := rb_replace T (cm_vmas cm) idx vma\<rparr>, w))"
  "cursor_insert T idx vma (cm, w) =
     (Ok (if snd (rb_insert T (cm_vmas cm) vma) \<le> idx then Suc idx else idx), (cm\<lparr>cm_vmas := fst (rb_insert T (cm_vmas cm) vma)\<rparr>, w))"
  "give_back r (cm, w) = (Ok (), (cm\<lparr>cm_free_manager := add_range_back_to_free_manager (cm_free_manager cm) r,
                        cm_free_size := uadd (cm_free_size cm) (VMRange_size r)\<rparr>, w))"
  "act_return x (cm, w) = (Ok x, (cm, w))"
  by (simp_all add: cursor_remove_def cursor_replace_with_def cursor_insert_def give_back_def cm_update_def act_return_def
      split: prod.split)

lemma on_vm_run: "a w = (res, w') \<Longrightarrow> on_vm a (cm, w) = (res, (cm, w'))"
  by (simp add: on_vm_def)

text \<open>One round of the loop at an area, and skipping an area that does not meet the range.\<close>

declare munmap_loop.simps(2) [simp del]

lemma munmap_round:
  assumes "rb_iter T (cm_vmas cm) = pre @ v # vs" "va_start v \<le> r_end r"
  shows "munmap_loop T env pid r (Suc rounds) (length pre) (cm, w) =
    (if va_size v = 0 \<or> \<not> belong_to v pid then munmap_loop T env pid r rounds (Suc (length pre)) (cm, w)
     else act_bind (act_lift (VMArea_intersect env v r)) (\<lambda>i. case i of
        None \<Rightarrow> munmap_loop T env pid r rounds (Suc (length pre))
      | Some i \<Rightarrow> act_bind (on_vm (flush_and_clean_memory env i)) (\<lambda>_.
          act_bind (if va_range v = va_range i then cursor_remove T (length pre)
            else act_bind (act_lift (res_list (VMArea_subtract env v (va_range i))))
               (\<lambda>remain_vmas. case remain_vmas of
                   [remain] \<Rightarrow> act_bind (cursor_replace_with T (length pre) remain) (\<lambda>idx. act_return (Suc idx))
                 | [l, q] \<Rightarrow> act_bind (cursor_replace_with T (length pre) l) (\<lambda>idx. cursor_insert T idx q)
                 | _ \<Rightarrow> act_lift Panic)) (\<lambda>idx.
          act_bind (give_back (va_range i)) (\<lambda>_. munmap_loop T env pid r rounds idx)))) (cm, w))"
  using assms by (simp add: munmap_loop.simps(2) cm_areas_def Let_def)

lemma munmap_skip:
  assumes "rb_iter T (cm_vmas cm) = pre @ v # vs" "va_start v \<le> r_end r" "addrs (va_range v) \<inter> addrs r = {}"
  shows "munmap_loop T env pid r (Suc rounds) (length pre) (cm, w) = munmap_loop T env pid r rounds (Suc (length pre)) (cm, w)"
  using intersect_disjoint [OF assms(3), of env] by (simp add: munmap_round [OF assms(1,2)])

lemma munmap_loop_split:
  assumes T: "tree_ok T" and it: "rb_iter T (cm_vmas cm) = pre @ v # vs" and ap: "apart_areas (pre @ v # vs)"
    and st: "va_start v \<le> r_end r" "va_size v \<noteq> 0" "belong_to v pid"
    and i: "VMArea_intersect env v r = Ok (Some i)" and fl: "flush_and_clean_memory env i w = (Ok u, w')"
    and ps: "(if va_range v = va_range i then Ok [] else res_list (VMArea_subtract env v (va_range i))) = Ok ps"
  shows "\<exists>t'. rb_iter T t' = (pre @ ps) @ vs \<and> apart_areas ((pre @ ps) @ vs) \<and>
    munmap_loop T env pid r (Suc (Suc (Suc rounds))) (length pre) (cm, w) =
    munmap_loop T env pid r (if length ps = 2 then rounds else Suc (Suc rounds)) (length (pre @ ps))
      (cm\<lparr>cm_vmas := t', cm_free_manager := add_range_back_to_free_manager (cm_free_manager cm) (va_range i),
          cm_free_size := uadd (cm_free_size cm) (VMRange_size (va_range i))\<rparr>, w')"
proof -
  let ?upd = "\<lambda>t. cm\<lparr>cm_vmas := t, cm_free_manager := add_range_back_to_free_manager (cm_free_manager cm) (va_range i),
          cm_free_size := uadd (cm_free_size cm) (VMRange_size (va_range i))\<rparr>"
  note ib = VMRange_intersect_Some [OF intersect_Some [OF i]]
  note pc = pieces_of [OF i ps]
  have rg: "map va_range ps = outer_ranges (va_range v) (va_range i)" by (rule pieces_ranges [OF pc])
  have unf: "munmap_loop T env pid r (Suc (Suc (Suc rounds))) (length pre) (cm, w) =
     act_bind (if va_range v = va_range i then cursor_remove T (length pre)
        else act_bind (act_lift (res_list (VMArea_subtract env v (va_range i))))
           (\<lambda>remain_vmas. case remain_vmas of
               [remain] \<Rightarrow> act_bind (cursor_replace_with T (length pre) remain) (\<lambda>idx. act_return (Suc idx))
             | [l, q] \<Rightarrow> act_bind (cursor_replace_with T (length pre) l) (\<lambda>idx. cursor_insert T idx q)
             | _ \<Rightarrow> act_lift Panic)) (\<lambda>idx.
       act_bind (give_back (va_range i)) (\<lambda>_. munmap_loop T env pid r (Suc (Suc rounds)) idx)) (cm, w')"
    using st(2,3) by (simp add: munmap_round [OF it st(1)] i act_bind_def on_vm_def fl)
  consider (none) "ps = []" "va_range v = va_range i" | (one) x where "ps = [x]" "va_range v \<noteq> va_range i"
    | (two) l q where "ps = [l, q]" "va_range v \<noteq> va_range i" "va_range l = mk_range (va_start v) (r_start (va_range i))"
        "va_range q = mk_range (r_end (va_range i)) (va_end v)" "va_start v < r_start (va_range i)" "r_end (va_range i) < va_end v"
    using rg ib ps
    by (auto simp: outer_ranges_def map_eq_Cons_conv map_eq_append_conv split: if_splits)
  then show ?thesis
  proof cases
    case none
    have "rb_iter T (rb_remove T (cm_vmas cm) (length pre)) = pre @ vs" by (rule tree_remove [OF T it])
    moreover have "apart_areas (pre @ vs)" using ap by (simp add: apart_simps)
    ultimately show ?thesis
      using none by (intro exI [of _ "rb_remove T (cm_vmas cm) (length pre)"]) (simp add: unf act_bind_def)
  next
    case (one x)
    have "res_list (VMArea_subtract env v (va_range i)) = Ok [x]" using ps one by simp
    moreover have "rb_iter T (rb_replace T (cm_vmas cm) (length pre) x) = pre @ x # vs" by (rule tree_replace [OF T it])
    moreover have "va_start v \<le> va_start x" "va_end x \<le> va_end v" "va_start x \<le> va_end x"
      using rg ib one by (auto simp: outer_ranges_def split: if_splits)
    ultimately show ?thesis
      using one ap by (intro exI [of _ "rb_replace T (cm_vmas cm) (length pre) x"])
        (auto simp: unf act_bind_def apart_simps intro: order_trans)
  next
    case (two l q)
    have rl: "res_list (VMArea_subtract env v (va_range i)) = Ok [l, q]" using ps two by simp
    let ?t = "rb_replace T (cm_vmas cm) (length pre) l"
    let ?t' = "fst (rb_insert T ?t q)"
    have t: "rb_iter T ?t = pre @ l # vs" by (rule tree_replace [OF T it])
    have apl: "apart_areas (pre @ l # vs)" using ap two ib by (auto simp: apart_simps)
    have sep: "\<forall>x \<in> set (pre @ [l]). va_start x \<le> va_start q" "\<forall>y \<in> set vs. va_start q < va_start y"
      using apart_before [OF ap] ap two ib by (force simp: apart_simps)+
    have "snd (rb_insert T ?t q) = length (pre @ [l])" "rb_iter T ?t' = (pre @ [l]) @ q # vs"
      using tree_insert [OF T _ _ sep, of ?t] t apl by simp_all
    then have t': "snd (rb_insert T ?t q) = Suc (length pre)" "rb_iter T ?t' = pre @ l # q # vs" by simp_all
    have apt: "apart_areas (pre @ l # q # vs)" using ap two ib by (auto simp: apart_simps)
    have "va_range l \<in> set (outer_ranges (va_range v) (va_range i))" "va_range q \<in> set (outer_ranges (va_range v) (va_range i))"
      unfolding rg [symmetric] using two by simp_all
    note dj = this [THEN outer_disjoint [OF intersect_Some [OF i]]]
    have skip: "va_start q \<le> r_end r" "va_start l \<le> r_end r" using two ib st(1) by simp_all
    have "munmap_loop T env pid r (Suc (Suc (Suc rounds))) (length pre) (cm, w) =
        munmap_loop T env pid r (Suc (Suc rounds)) (length pre) (?upd ?t', w')"
      using two rl t' by (simp add: unf act_bind_def)
    also have "\<dots> = munmap_loop T env pid r (Suc rounds) (length (pre @ [l])) (?upd ?t', w')"
      using t'(2) skip dj by (subst munmap_skip [of _ _ pre l "q # vs"]) simp_all
    also have "\<dots> = munmap_loop T env pid r rounds (length (pre @ ps)) (?upd ?t', w')"
      using t'(2) skip dj two by (subst munmap_skip [of _ _ "pre @ [l]" q vs]) simp_all
    finally show ?thesis using t' apt two by (intro exI [of _ ?t']) simp
  qed
qed

text \<open>The state of the manager after a recursion.\<close>

definition cm_after :: "'t ChunkManager \<Rightarrow> 't \<Rightarrow> 's free_state \<Rightarrow> 't ChunkManager \<times> 's vm_world" where
  "cm_after cm t st = (cm\<lparr>cm_vmas := t, cm_free_manager := fst st, cm_free_size := fst (snd st)\<rparr>, snd (snd st))"

lemma cm_after_same: "cm_after cm (cm_vmas cm) (cm_free_manager cm, cm_free_size cm, w) = (cm, w)"
  by (simp add: cm_after_def)

lemma cm_after_again: "cm_after (cm\<lparr>cm_vmas := t, cm_free_manager := fl, cm_free_size := fs\<rparr>) t' st = cm_after cm t' st"
  by (simp add: cm_after_def)

lemma munmap_stop:
  assumes "rb_iter T (cm_vmas cm) = pre @ vs" "0 < rounds" "case vs of [] \<Rightarrow> True | v # _ \<Rightarrow> \<not> va_start v \<le> r_end r"
  shows "munmap_loop T env pid r rounds (length pre) (cm, w) = (Ok (), (cm, w))"
  using assms by (cases rounds; cases vs) (simp_all add: munmap_loop.simps(2) cm_areas_def)

text \<open>Cutting an area has no error but a panic.\<close>

lemma inherits_not_Err: "inherits_file_from env v r p ac \<noteq> Err e"
  by (auto simp: inherits_file_from_def split_pages_def split_for_new_range_def Let_def split: option.split)

lemma res_list_not_Err: "\<forall>q \<in> set qs. q \<noteq> Err e \<Longrightarrow> res_list qs \<noteq> Err e"
proof (induction qs)
  case (Cons q qs)
  then show ?case by (cases q; cases "res_list qs") auto
qed simp

lemma subtract_not_Err: "res_list (VMArea_subtract env v r) \<noteq> Err e"
  by (rule res_list_not_Err) (auto simp: VMArea_subtract_def inherits_not_Err)

lemma munmap_at_Stop:
  assumes "rb_iter T (cm_vmas cm) = pre @ v # vs" "munmap_at env pid r v w = Stop res w'"
  shows "munmap_loop T env pid r (Suc rounds) (length pre) (cm, w) = (res, (cm, w'))"
proof (cases "va_start v \<le> r_end r")
  case True
  show ?thesis
    using assms(2) True unfolding munmap_round [OF assms(1) True]
    by (auto simp: munmap_at_def act_bind_def on_vm_def subtract_not_Err split: if_splits res.splits option.splits prod.splits)
next
  case False
  then show ?thesis using assms munmap_stop [OF assms(1), of "Suc rounds" r] by (simp add: munmap_at_def)
qed

lemma munmap_at_Skip:
  assumes "rb_iter T (cm_vmas cm) = pre @ v # vs" "munmap_at env pid r v w = Skip"
  shows "munmap_loop T env pid r (Suc rounds) (length pre) (cm, w) = munmap_loop T env pid r rounds (length (pre @ [v])) (cm, w)"
proof -
  have st: "va_start v \<le> r_end r" using assms(2) by (auto simp: munmap_at_def split: if_splits)
  show ?thesis
    using assms(2) st unfolding munmap_round [OF assms(1) st]
    by (auto simp: munmap_at_def split: if_splits res.splits option.splits prod.splits)
qed

lemma munmap_at_Cut:
  assumes "munmap_at env pid r v w = Cut ir ps w'"
  obtains i where "va_start v \<le> r_end r" "va_size v \<noteq> 0" "belong_to v pid" "VMArea_intersect env v r = Ok (Some i)"
    "flush_and_clean_memory env i w = (Ok (), w')" "ir = va_range i"
    "(if va_range v = va_range i then Ok [] else res_list (VMArea_subtract env v (va_range i))) = Ok ps"
  using assms by (auto simp: munmap_at_def split: if_splits res.splits option.splits prod.splits)

lemma munmap_loop_list:
  assumes T: "tree_ok T" and "rb_iter T (cm_vmas cm) = pre @ vs" "apart_areas (pre @ vs)" "3 * length vs < rounds"
    and "munmap_list env pid r vs (cm_free_manager cm, cm_free_size cm, w) = (res, vs', st')"
  shows "\<exists>t'. munmap_loop T env pid r rounds (length pre) (cm, w) = (res, cm_after cm t' st') \<and> rb_iter T t' = pre @ vs'"
  using assms(2-)
proof (induction vs arbitrary: pre cm w rounds vs' st')
  case Nil
  then show ?case using munmap_stop [of T cm pre "[]" rounds r env pid w]
    by (intro exI [of _ "cm_vmas cm"]) (auto simp: cm_after_same)
next
  case (Cons v vs)
  obtain k where k: "rounds = Suc (Suc (Suc k))" "3 * length vs < k"
    using Cons.prems(3) by (intro that [of "rounds - 3"]) simp_all
  show ?case
  proof (cases "munmap_at env pid r v w")
    case (Stop res' w')
    then show ?thesis using Cons.prems munmap_at_Stop [OF Cons.prems(1) Stop, of "Suc (Suc k)"] k(1)
      by (intro exI [of _ "cm_vmas cm"]) (auto simp: cm_after_def)
  next
    case Skip
    obtain vs'' where l: "munmap_list env pid r vs (cm_free_manager cm, cm_free_size cm, w) = (res, vs'', st')" "v # vs'' = vs'"
      using Cons.prems(4) Skip by (cases "munmap_list env pid r vs (cm_free_manager cm, cm_free_size cm, w)") auto
    have "\<exists>t'. munmap_loop T env pid r (Suc (Suc k)) (length (pre @ [v])) (cm, w) = (res, cm_after cm t' st') \<and>
        rb_iter T t' = (pre @ [v]) @ vs''"
      by (rule Cons.IH) (use Cons.prems k l in auto)
    then show ?thesis using munmap_at_Skip [OF Cons.prems(1) Skip, of "Suc (Suc k)"] k(1) l(2) by auto
  next
    case (Cut ir ps w1)
    from Cut obtain i where c: "va_start v \<le> r_end r" "va_size v \<noteq> 0" "belong_to v pid" "VMArea_intersect env v r = Ok (Some i)"
      "flush_and_clean_memory env i w = (Ok (), w1)" "ir = va_range i"
      "(if va_range v = va_range i then Ok [] else res_list (VMArea_subtract env v (va_range i))) = Ok ps"
      by (rule munmap_at_Cut)
    let ?fl = "add_range_back_to_free_manager (cm_free_manager cm) ir" and ?fs = "uadd (cm_free_size cm) (VMRange_size ir)"
    let ?cm = "\<lambda>t. cm\<lparr>cm_vmas := t, cm_free_manager := ?fl, cm_free_size := ?fs\<rparr>"
    obtain t where t: "rb_iter T t = (pre @ ps) @ vs" "apart_areas ((pre @ ps) @ vs)"
      "munmap_loop T env pid r rounds (length pre) (cm, w) =
       munmap_loop T env pid r (if length ps = 2 then k else Suc (Suc k)) (length (pre @ ps)) (?cm t, w1)"
      using munmap_loop_split [OF T Cons.prems(1,2) c(1-5,7), of k] c(6) k(1) by blast
    obtain vs'' where l: "munmap_list env pid r vs (?fl, ?fs, w1) = (res, vs'', st')" "ps @ vs'' = vs'"
      using Cons.prems(4) Cut by (cases "munmap_list env pid r vs (?fl, ?fs, w1)") auto
    have "\<exists>t'. munmap_loop T env pid r (if length ps = 2 then k else Suc (Suc k)) (length (pre @ ps)) (?cm t, w1) =
        (res, cm_after (?cm t) t' st') \<and> rb_iter T t' = (pre @ ps) @ vs''"
      by (rule Cons.IH) (use k l t in auto)
    then show ?thesis using t(3) l(2) by (auto simp: cm_after_again)
  qed
qed

section \<open>What unmapping does\<close>

lemma pieces_view:
  assumes "list_all2 (\<lambda>q x. inherits_file_from env v q (va_perms v) (va_access v) = Ok x) qs ps"
    "\<forall>q \<in> set qs. va_start v \<le> r_start q"
  shows "view ps a = (if \<exists>q \<in> set qs. a \<in> addrs q then Some (view_of v a) else None)"
  using assms
proof (induction rule: list_all2_induct)
  case (Cons q qs x ps)
  then show ?case
    using inherits_view [OF Cons.hyps(1), of a] by (auto simp: inherits_simps [OF Cons.hyps(1)] view_of_def)
qed simp

lemma outer_ranges_bounds:
  assumes "VMRange_intersect r other = Some i" "q \<in> set (outer_ranges r i)"
  shows "r_start r \<le> r_start q" "r_start q < r_end q" "r_end q \<le> r_end r"
  using VMRange_intersect_Some [OF assms(1)] assms(2) by (auto simp: outer_ranges_def split: if_splits)

lemma outer_ranges_set:
  assumes "VMRange_intersect r other = Some i"
  shows "(\<exists>q \<in> set (outer_ranges r i). a \<in> addrs q) \<longleftrightarrow> a \<in> addrs r \<and> a \<notin> addrs other"
proof -
  have "addrs i = addrs r \<inter> addrs other" using VMRange_intersect_Some [OF assms] by simp
  moreover have "r_start r \<le> r_start i" "r_start i < r_end i" "r_end i \<le> r_end r" using VMRange_intersect_Some [OF assms] by simp_all
  then have "(\<exists>q \<in> set (outer_ranges r i). a \<in> addrs q) \<longleftrightarrow> a \<in> addrs r \<and> a \<notin> addrs i"
    by (auto simp: outer_ranges_def range_simps)
  ultimately show ?thesis by auto
qed

lemma outer_ranges_aligned:
  "page_aligned r \<Longrightarrow> page_aligned i \<Longrightarrow> q \<in> set (outer_ranges r i) \<Longrightarrow> page_aligned q"
  by (auto simp: outer_ranges_def page_aligned_def split: if_splits)

text \<open>An area of the result is an area of the input or a part of one.\<close>

definition part_of_area :: "VMRange \<Rightarrow> VMArea \<Rightarrow> VMArea \<Rightarrow> bool" where
  "part_of_area r x v \<longleftrightarrow> va_start v \<le> va_start x \<and> va_start x < va_end x \<and> va_end x \<le> va_end v \<and> va_access x = va_access v \<and>
     (page_aligned (va_range v) \<and> page_aligned r \<longrightarrow> page_aligned (va_range x))"

definition parts_of :: "VMRange \<Rightarrow> VMArea list \<Rightarrow> VMArea list \<Rightarrow> bool" where
  "parts_of r vs' vs \<longleftrightarrow> (\<forall>x \<in> set vs'. x \<in> set vs \<or> (\<exists>v \<in> set vs. part_of_area r x v))"

lemma parts_of_simps [simp]:
  "parts_of r [] vs" "parts_of r vs vs"
  "parts_of r (us @ vs') vs \<longleftrightarrow> parts_of r us vs \<and> parts_of r vs' vs"
  by (auto simp: parts_of_def)

lemma parts_of_mono: "parts_of r vs' vs \<Longrightarrow> set vs \<subseteq> set us \<Longrightarrow> parts_of r vs' us"
  by (fastforce simp: parts_of_def)

lemma parts_bounds:
  assumes "parts_of r vs' vs" "x \<in> set vs'"
  obtains v where "v \<in> set vs" "va_start v \<le> va_start x" "va_end x \<le> va_end v" "va_access x = va_access v"
  using assms by (force simp: parts_of_def part_of_area_def)

lemma cut_pieces:
  assumes "munmap_at env pid r v w = Cut ir ps w'" "va_start v \<le> va_end v"
  shows "VMRange_intersect (va_range v) r = Some ir" "belong_to v pid" "apart_areas ps" "parts_of r ps [v]"
    "view ps a = (if a \<in> addrs (va_range v) \<and> a \<notin> addrs r then Some (view_of v a) else None)"
proof -
  from assms(1) obtain i where c: "va_start v \<le> r_end r" "va_size v \<noteq> 0" "belong_to v pid" "VMArea_intersect env v r = Ok (Some i)"
    "flush_and_clean_memory env i w = (Ok (), w')" "ir = va_range i"
    "(if va_range v = va_range i then Ok [] else res_list (VMArea_subtract env v (va_range i))) = Ok ps"
    by (rule munmap_at_Cut)
  show int: "VMRange_intersect (va_range v) r = Some ir" "belong_to v pid" using intersect_Some [OF c(4)] c(3,6) by simp_all
  note pc = pieces_of [OF c(4,7), folded c(6)]
  have rg: "map va_range ps = outer_ranges (va_range v) ir" by (rule pieces_ranges [OF pc])
  show "apart_areas ps"
    using rg VMRange_intersect_Some [OF int(1)]
    by (auto simp: outer_ranges_def map_eq_Cons_conv map_eq_append_conv apart_simps split: if_splits
        dest!: sym [of "mk_range lo hi" for lo hi])
  have "part_of_area r x v" if "x \<in> set ps" for x
  proof -
    have x: "va_range x \<in> set (outer_ranges (va_range v) ir)" "va_access x = va_access v"
      using pieces_simps [OF pc that] by simp_all
    have "page_aligned (va_range v) \<and> page_aligned r \<longrightarrow> page_aligned (va_range x)"
      using outer_ranges_aligned [OF _ _ x(1)] VMRange_intersect_aligned [OF int(1)] by blast
    then show ?thesis using outer_ranges_bounds [OF int(1) x(1)] x(2) by (simp add: part_of_area_def)
  qed
  then show "parts_of r ps [v]" by (auto simp: parts_of_def)
  have "\<forall>q \<in> set (outer_ranges (va_range v) ir). va_start v \<le> r_start q" using outer_ranges_bounds [OF int(1)] by blast
  from pieces_view [OF pc this] outer_ranges_set [OF int(1)]
  show "view ps a = (if a \<in> addrs (va_range v) \<and> a \<notin> addrs r then Some (view_of v a) else None)" by simp
qed

text \<open>The free list stays the complement of the areas.\<close>

definition free_ok :: "VMFreeSpaceManager \<Rightarrow> usize \<Rightarrow> bool" where
  "free_ok fl fs \<longleftrightarrow> fl_inv fl \<and> fs = card (free_set fl)"

lemma free_ok_bound: "free_ok fl fs \<Longrightarrow> fs \<le> ADDR_LIMIT"
  using card_mono [OF _ free_set_bound, of fl] by (simp add: free_ok_def)

lemma free_ok_back:
  assumes "free_ok fl fs" "proper d" "addrs d \<inter> free_set fl = {}"
  shows "free_ok (add_range_back_to_free_manager fl d) (uadd fs (VMRange_size d))"
    "free_set (add_range_back_to_free_manager fl d) = free_set fl \<union> addrs d"
proof -
  have b: "fl_inv (add_range_back_to_free_manager fl d)"
    "free_set (add_range_back_to_free_manager fl d) = free_set fl \<union> addrs d"
    using add_range_back_spec [of fl d] assms by (simp_all add: free_ok_def)
  then have "card (free_set fl \<union> addrs d) = fs + VMRange_size d"
    using assms by (simp add: free_ok_def card_Un_disjoint Int_commute VMRange_size_card proper_ok)
  moreover have "card (free_set fl \<union> addrs d) \<le> ADDR_LIMIT"
    using card_mono [OF _ free_set_bound [OF b(1)]] b(2) by simp
  ultimately show "free_ok (add_range_back_to_free_manager fl d) (uadd fs (VMRange_size d))"
    using b by (simp add: free_ok_def usize_simps)
  show "free_set (add_range_back_to_free_manager fl d) = free_set fl \<union> addrs d" by (rule b(2))
qed

text \<open>The addresses an unmapping takes away from a process.\<close>

definition gone :: "pid_t \<Rightarrow> VMRange \<Rightarrow> VMArea list \<Rightarrow> nat \<Rightarrow> bool" where
  "gone pid r vs a \<longleftrightarrow> a \<in> addrs r \<and> (\<exists>v \<in> set vs. a \<in> addrs (va_range v) \<and> belong_to v pid)"

definition unmapped :: "pid_t \<Rightarrow> VMRange \<Rightarrow> VMArea list \<Rightarrow> VMArea list \<Rightarrow> bool" where
  "unmapped pid r vs vs' \<longleftrightarrow> (\<forall>a. view vs' a = (if gone pid r vs a then None else view vs a))"

definition partly_unmapped :: "pid_t \<Rightarrow> VMRange \<Rightarrow> VMArea list \<Rightarrow> VMArea list \<Rightarrow> bool" where
  "partly_unmapped pid r vs vs' \<longleftrightarrow> (\<forall>a. view vs' a = view vs a \<or> gone pid r vs a \<and> view vs' a = None)"

lemma gone_simps [simp]:
  "\<not> gone pid r [] a"
  "gone pid r (v # vs) a \<longleftrightarrow> a \<in> addrs r \<and> a \<in> addrs (va_range v) \<and> belong_to v pid \<or> gone pid r vs a"
  "gone pid r (us @ vs) a \<longleftrightarrow> gone pid r us a \<or> gone pid r vs a"
  by (auto simp: gone_def)

lemma gone_area: "gone pid r vs a \<Longrightarrow> a \<in> area_set vs"
  by (auto simp: gone_def area_set_def)

text \<open>One area before the others.\<close>

lemma unmapped_step:
  assumes ap: "apart_areas (v # vs)" and ps: "\<And>a. view ps a = (if gone pid r [v] a then None else view [v] a)"
    and sub: "area_set ps \<subseteq> addrs (va_range v)"
  shows "unmapped pid r vs vs' \<Longrightarrow> unmapped pid r (v # vs) (ps @ vs')"
    "partly_unmapped pid r vs vs' \<Longrightarrow> partly_unmapped pid r (v # vs) (ps @ vs')"
proof -
  have in_v: "view vs a = None \<and> \<not> gone pid r vs a" if "a \<in> addrs (va_range v)" for a
    using apart_disjoint [OF ap] that gone_area view_None by blast
  have out_v: "view (ps @ us) a = view us a" if "a \<notin> addrs (va_range v)" for a us
    using that sub by (intro view_skip) blast
  show "unmapped pid r (v # vs) (ps @ vs')" if "unmapped pid r vs vs'"
    unfolding unmapped_def
  proof
    fix a
    show "view (ps @ vs') a = (if gone pid r (v # vs) a then None else view (v # vs) a)"
      using that in_v [of a] out_v [of a vs'] ps [of a]
      by (cases "a \<in> addrs (va_range v)") (auto simp: unmapped_def view_append)
  qed
  show "partly_unmapped pid r (v # vs) (ps @ vs')" if "partly_unmapped pid r vs vs'"
    unfolding partly_unmapped_def
  proof
    fix a
    show "view (ps @ vs') a = view (v # vs) a \<or> gone pid r (v # vs) a \<and> view (ps @ vs') a = None"
      using that [unfolded partly_unmapped_def, rule_format, of a] in_v [of a] out_v [of a vs'] ps [of a]
      by (cases "a \<in> addrs (va_range v)") (auto simp: view_append)
  qed
qed

lemma parts_apart:
  assumes "apart_areas (us @ vs)" "apart_areas vs'" "parts_of r vs' vs"
  shows "apart_areas (us @ vs')"
proof -
  have "va_end u \<le> va_start x" if u: "u \<in> set us" and x: "x \<in> set vs'" for u x
  proof -
    obtain v where "v \<in> set vs" "va_start v \<le> va_start x" by (rule parts_bounds [OF assms(3) x])
    then show ?thesis using assms(1) u by (fastforce simp: apart_areas_append)
  qed
  then show ?thesis using assms by (simp add: apart_areas_append)
qed

lemma parts_apart_before:
  assumes "apart_areas (vs @ us)" "apart_areas vs'" "parts_of r vs' vs"
  shows "apart_areas (vs' @ us)"
proof -
  have "va_end x \<le> va_start u" if u: "u \<in> set us" and x: "x \<in> set vs'" for u x
  proof -
    obtain v where "v \<in> set vs" "va_end x \<le> va_end v" by (rule parts_bounds [OF assms(3) x])
    then show ?thesis using assms(1) u by (fastforce simp: apart_areas_append)
  qed
  then show ?thesis using assms by (simp add: apart_areas_append)
qed

lemma parts_area_set: "parts_of r vs' vs \<Longrightarrow> area_set vs' \<subseteq> area_set vs"
  by (auto simp: area_set_def range_simps) (meson order_trans order_less_le_trans parts_bounds)

text \<open>What the recursion over the areas leaves, whatever its outcome.\<close>

definition munmap_done ::
  "pid_t \<Rightarrow> VMRange \<Rightarrow> VMArea list \<Rightarrow> VMFreeSpaceManager \<Rightarrow> unit res \<times> VMArea list \<times> 's free_state \<Rightarrow> bool" where
  "munmap_done pid r vs fl out = (case out of (res, vs', fl', fs', w') \<Rightarrow>
     apart_areas vs' \<and> parts_of r vs' vs \<and> free_ok fl' fs' \<and> free_set fl' = free_set fl \<union> (area_set vs - area_set vs') \<and>
     partly_unmapped pid r vs vs' \<and> (res = Ok () \<longrightarrow> unmapped pid r vs vs'))"

lemma munmap_at_beyond:
  assumes "munmap_at env pid r v w = Stop (Ok ()) w'" "apart_areas (v # vs)"
  shows "\<not> gone pid r (v # vs) a"
proof -
  have "r_end r < va_start v"
    using assms(1) by (auto simp: munmap_at_def split: if_splits res.splits option.splits prod.splits)
  then have "\<forall>x \<in> set (v # vs). r_end r < va_start x" using assms(2) by (fastforce simp: apart_simps)
  then show ?thesis by (auto simp: gone_def range_simps)
qed

lemma munmap_at_skipped:
  assumes "munmap_at env pid r v w = Skip" "va_start v \<le> va_end v" "va_end v \<le> ADDR_LIMIT"
  shows "\<not> gone pid r [v] a"
proof -
  have "va_size v = 0 \<or> \<not> belong_to v pid \<or> VMArea_intersect env v r = Ok None"
    using assms(1) by (auto simp: munmap_at_def split: if_splits res.splits option.splits prod.splits)
  moreover have "va_size v = 0 \<Longrightarrow> addrs (va_range v) = {}"
    using assms(2,3) VMRange_size_card [of "va_range v"] by (simp add: range_ok_def)
  ultimately show ?thesis using intersect_None [of env v r] by (auto simp: gone_def)
qed

lemma munmap_done_step:
  assumes ap: "apart_areas (v # vs)" and ps: "\<And>a. view ps a = (if gone pid r [v] a then None else view [v] a)"
    and parts: "apart_areas ps" "parts_of r ps [v]"
    and fb: "free_set fl1 = free_set fl \<union> (addrs (va_range v) - area_set ps)"
    and IH: "munmap_done pid r vs fl1 out"
  shows "munmap_done pid r (v # vs) fl (keep_areas ps out)"
proof -
  obtain res vs' fl' fs' w' where out: "out = (res, vs', fl', fs', w')" by (metis prod_cases5)
  have d: "apart_areas vs'" "parts_of r vs' vs" "free_ok fl' fs'" "free_set fl' = free_set fl1 \<union> (area_set vs - area_set vs')"
    "partly_unmapped pid r vs vs'" "res = Ok () \<longrightarrow> unmapped pid r vs vs'"
    using IH by (simp_all add: munmap_done_def out)
  have sub: "area_set ps \<subseteq> addrs (va_range v)" "area_set vs' \<subseteq> area_set vs"
    using parts_area_set [OF parts(2)] parts_area_set [OF d(2)] by simp_all
  have "apart_areas ([v] @ vs')" using ap d(1,2) parts_apart [of "[v]" vs vs' r] by simp
  then have "apart_areas (ps @ vs')" using parts_apart_before [of "[v]" vs' ps r] parts by simp
  moreover have "parts_of r (ps @ vs') (v # vs)"
    using parts(2) d(2) by (auto intro: parts_of_mono)
  moreover have "free_set fl' = free_set fl \<union> (area_set (v # vs) - area_set (ps @ vs'))"
    using d(4) fb sub apart_disjoint [OF ap] by auto
  ultimately show ?thesis
    using d(3,5,6) unmapped_step [OF ap ps sub(1), of vs'] by (simp add: munmap_done_def out)
qed

lemma munmap_list_spec:
  assumes "fst (munmap_list env pid r vs (fl, fs, w)) \<noteq> Panic"
    and "apart_areas vs" "\<forall>v \<in> set vs. va_end v \<le> ADDR_LIMIT" "free_ok fl fs" "free_set fl \<inter> area_set vs = {}"
  shows "munmap_done pid r vs fl (munmap_list env pid r vs (fl, fs, w))"
  using assms
proof (induction vs arbitrary: fl fs w)
  case Nil
  then show ?case by (simp add: munmap_done_def partly_unmapped_def unmapped_def)
next
  case (Cons v vs)
  have ap: "apart_areas (v # vs)" "apart_areas vs" "va_start v \<le> va_end v" "va_end v \<le> ADDR_LIMIT"
    using Cons.prems by (simp_all add: apart_simps)
  have keep: "fst out \<noteq> Panic" if "fst (keep_areas ps out) \<noteq> Panic" for ps and out :: "unit res \<times> VMArea list \<times> 'a free_state"
    using that by (cases out) simp
  show ?case
  proof (cases "munmap_at env pid r v w")
    case (Stop res w')
    have "res = Ok () \<Longrightarrow> \<not> gone pid r (v # vs) a" for a
      using munmap_at_beyond [OF _ ap(1)] Stop by blast
    then show ?thesis
      using Stop Cons.prems by (simp add: munmap_done_def partly_unmapped_def unmapped_def)
  next
    case Skip
    have "munmap_done pid r vs fl (munmap_list env pid r vs (fl, fs, w))"
      using Cons.prems ap Skip by (intro Cons.IH) (auto dest: keep)
    then show ?thesis
      using Skip munmap_at_skipped [OF Skip ap(3,4)] by (simp add: munmap_done_step [OF ap(1), of "[v]"] apart_simps ap(3))
  next
    case (Cut i ps w')
    note c = cut_pieces [OF Cut ap(3)]
    note ib = VMRange_intersect_Some [OF c(1)]
    have pr: "proper i" "addrs i \<inter> free_set fl = {}"
      using ib ap(4) Cons.prems(5) by (auto simp: proper_def)
    note fb = free_ok_back [OF Cons.prems(4) pr]
    have "munmap_done pid r vs (add_range_back_to_free_manager fl i)
      (munmap_list env pid r vs (add_range_back_to_free_manager fl i, uadd fs (VMRange_size i), w'))"
      using Cons.prems ap Cut fb ib apart_disjoint [OF ap(1)] by (intro Cons.IH) (auto dest: keep)
    moreover have "area_set ps = addrs (va_range v) - addrs r"
      using c(5) view_None [of ps] by (fastforce split: if_splits)
    ultimately show ?thesis
      using Cut ib c(2,5) fb by (simp add: munmap_done_step [OF ap(1) _ c(3,4)] Diff_Diff_Int)
  qed
qed

section \<open>The invariant of a chunk\<close>

text \<open>
  An empty sentry at either end, and non-empty, page-aligned areas of single processes in order between them.
\<close>

definition is_private :: "VMArea \<Rightarrow> bool" where
  "is_private v \<longleftrightarrow> get_private_pid (va_access v) \<noteq> None"

definition area_ok :: "VMArea \<Rightarrow> bool" where
  "area_ok v \<longleftrightarrow> va_start v < va_end v \<and> page_aligned (va_range v) \<and> is_private v"

definition chunk_areas :: "VMRange \<Rightarrow> VMArea list \<Rightarrow> bool" where
  "chunk_areas rg xs \<longleftrightarrow> 2 \<le> length xs \<and> va_range (hd xs) = mk_range (r_start rg) (r_start rg) \<and>
     va_range (last xs) = mk_range (r_end rg) (r_end rg) \<and> apart_areas xs \<and> (\<forall>v \<in> set (butlast (tl xs)). area_ok v)"

definition cm_inv :: "'t vma_tree \<Rightarrow> 't ChunkManager \<Rightarrow> bool" where
  "cm_inv T cm \<longleftrightarrow> proper (cm_range cm) \<and> page_aligned (cm_range cm) \<and> chunk_areas (cm_range cm) (cm_areas T cm) \<and>
     free_ok (cm_free_manager cm) (cm_free_size cm) \<and>
     free_set (cm_free_manager cm) = addrs (cm_range cm) - area_set (cm_areas T cm)"

lemma chunk_areasI:
  assumes "va_range s0 = mk_range (r_start rg) (r_start rg)" "va_range s1 = mk_range (r_end rg) (r_end rg)"
    "apart_areas (s0 # vs @ [s1])" "\<forall>v \<in> set vs. area_ok v"
  shows "chunk_areas rg (s0 # vs @ [s1])"
  using assms by (simp add: chunk_areas_def)

lemma chunk_areasE:
  assumes "chunk_areas rg xs"
  obtains s0 vs s1 where "xs = s0 # vs @ [s1]" "va_range s0 = mk_range (r_start rg) (r_start rg)"
    "va_range s1 = mk_range (r_end rg) (r_end rg)" "apart_areas (s0 # vs @ [s1])" "\<forall>v \<in> set vs. area_ok v"
proof -
  obtain s0 s ys' where xs: "xs = s0 # s # ys'"
    using assms by (auto simp: chunk_areas_def numeral_2_eq_2 Suc_le_length_iff)
  obtain vs s1 where "s # ys' = vs @ [s1]" by (metis rev_exhaust list.distinct(1))
  then show thesis using assms xs by (intro that [of s0 vs s1]) (simp_all add: chunk_areas_def)
qed

lemma chunk_areas_apart: "chunk_areas rg xs \<Longrightarrow> apart_areas xs"
  by (simp add: chunk_areas_def)

lemma chunk_areas_bounds:
  assumes "chunk_areas rg xs" "v \<in> set xs"
  shows "r_start rg \<le> va_start v" "va_end v \<le> r_end rg" "va_start v \<le> va_end v"
proof -
  obtain s0 vs s1 where "xs = s0 # vs @ [s1]" "va_range s0 = mk_range (r_start rg) (r_start rg)"
    "va_range s1 = mk_range (r_end rg) (r_end rg)" "apart_areas (s0 # vs @ [s1])"
    by (rule chunk_areasE [OF assms(1)])
  then show "r_start rg \<le> va_start v" "va_end v \<le> r_end rg" "va_start v \<le> va_end v"
    using assms(2) apart_le [of xs v] by (auto simp: apart_simps)
qed

lemma chunk_areas_set: "chunk_areas rg xs \<Longrightarrow> area_set xs \<subseteq> addrs rg"
  using chunk_areas_bounds [of rg xs] by (fastforce simp: area_set_def range_simps)

text \<open>Sentries stay where they are.\<close>

lemma munmap_at_sentry: "va_size v = 0 \<Longrightarrow> munmap_at env pid r v w = Stop (Ok ()) w \<or> munmap_at env pid r v w = Skip"
  by (simp add: munmap_at_def)

lemma keep_areas_eq: "keep_areas ps out = (fst out, ps @ fst (snd out), snd (snd out))"
  by (cases out) simp

lemma munmap_list_last:
  assumes "va_size s = 0" "\<forall>v \<in> set vs. va_start v \<le> va_end v"
  shows "\<exists>us. fst (snd (munmap_list env pid r (vs @ [s]) st)) = us @ [s] \<and> parts_of r us vs"
  using assms(2)
proof (induction vs arbitrary: st)
  case Nil
  then show ?case
    using munmap_at_sentry [OF assms(1), of env pid r "snd (snd st)"] by (cases st) (auto simp: keep_areas_eq)
next
  case (Cons v vs)
  obtain fl fs w where st: "st = (fl, fs, w)" by (cases st)
  have step: "\<exists>us. fst (snd (keep_areas ps (munmap_list env pid r (vs @ [s]) st'))) = us @ [s] \<and> parts_of r us (v # vs)"
    if "parts_of r ps [v]" for ps st'
  proof -
    obtain us where "fst (snd (munmap_list env pid r (vs @ [s]) st')) = us @ [s]" "parts_of r us vs"
      using Cons by fastforce
    then show ?thesis
      using that by (intro exI [of _ "ps @ us"]) (auto simp: keep_areas_eq intro: parts_of_mono)
  qed
  show ?case
  proof (cases "munmap_at env pid r v w")
    case (Stop res w')
    then show ?thesis by (auto simp: st intro!: exI [of _ "v # vs"])
  next
    case Skip
    then show ?thesis using step [of "[v]" st] by (simp add: st)
  next
    case (Cut i ps w')
    have "parts_of r ps [v]" using cut_pieces(4) [OF Cut] Cons.prems by simp
    then show ?thesis using step Cut by (simp add: st)
  qed
qed

lemma munmap_list_both:
  assumes "va_size s0 = 0" "va_size s = 0" "\<forall>v \<in> set vs. va_start v \<le> va_end v"
  shows "\<exists>us. fst (snd (munmap_list env pid r (s0 # vs @ [s]) st)) = s0 # us @ [s] \<and> parts_of r us vs"
  using munmap_at_sentry [OF assms(1), of env pid r "snd (snd st)"] munmap_list_last [OF assms(2,3), of env pid r st]
  by (cases st) (auto simp: keep_areas_eq)

lemma parts_ok:
  assumes "parts_of r vs' vs" "page_aligned r" "\<forall>v \<in> set vs. area_ok v" "x \<in> set vs'"
  shows "area_ok x"
  using assms by (fastforce simp: parts_of_def part_of_area_def area_ok_def is_private_def)

text \<open>The areas before the start of the search are not in the range.\<close>

lemma unmapped_before:
  assumes "apart_areas (xs @ vs)" "\<And>a. \<not> gone pid r xs a" "partly_unmapped pid r vs vs'"
  shows "partly_unmapped pid r (xs @ vs) (xs @ vs') \<and> (unmapped pid r vs vs' \<longrightarrow> unmapped pid r (xs @ vs) (xs @ vs'))"
  using assms(1,2)
proof (induction xs)
  case Nil
  then show ?case using assms(3) by simp
next
  case (Cons x xs)
  have x: "apart_areas (x # xs @ vs)" "\<And>a. view [x] a = (if gone pid r [x] a then None else view [x] a)"
    "area_set [x] \<subseteq> addrs (va_range x)"
    using Cons.prems by auto
  have "\<And>a. \<not> gone pid r xs a" "apart_areas (xs @ vs)" using Cons.prems by (auto simp: apart_simps)
  then show ?case using unmapped_step [OF x] Cons.IH by simp
qed

lemma chunk_areas_cut:
  assumes ca: "chunk_areas rg (xs @ v # ys)" and r: "page_aligned r"
    and out: "munmap_list env pid r (v # ys) st = (res, vs', st')" "apart_areas (xs @ vs')"
  shows "chunk_areas rg (xs @ vs')"
proof -
  obtain s0 us s1 where c: "xs @ v # ys = s0 # us @ [s1]" "va_range s0 = mk_range (r_start rg) (r_start rg)"
    "va_range s1 = mk_range (r_end rg) (r_end rg)" "apart_areas (s0 # us @ [s1])" "\<forall>v \<in> set us. area_ok v"
    by (rule chunk_areasE [OF ca])
  have z: "va_size s0 = 0" "va_size s1 = 0" using c(2,3) by (simp_all add: VMRange_size_def usub_def)
  have le: "\<forall>v \<in> set us. va_start v \<le> va_end v" using c(5) by (auto simp: area_ok_def)
  have "\<exists>us'. xs @ vs' = s0 # us' @ [s1] \<and> parts_of r us' us"
  proof (cases xs)
    case Nil
    then show ?thesis using munmap_list_both [OF z le, of env pid r st] out(1) c(1) by auto
  next
    case (Cons x xs')
    obtain zs where zs: "v # ys = zs @ [s1]" "us = xs' @ zs"
      using c(1) Cons by (cases ys rule: rev_cases) (auto simp: append_eq_append_conv2 Cons_eq_append_conv)
    obtain zs' where "vs' = zs' @ [s1]" "parts_of r zs' zs"
      using munmap_list_last [OF z(2), of zs env pid r st] le out(1) unfolding zs by auto
    then show ?thesis using Cons c(1) zs(2) by (auto intro!: exI [of _ "xs' @ zs'"] intro: parts_of_mono [OF parts_of_simps(2)] parts_of_mono)
  qed
  then obtain us' where us': "xs @ vs' = s0 # us' @ [s1]" "parts_of r us' us" by blast
  then show ?thesis using out(2) c(2,3,5) parts_ok [OF us'(2) r] by (auto intro!: chunk_areasI)
qed

lemma chunk_search:
  assumes "tree_ok T" "cm_inv T cm" "r_start (cm_range cm) \<le> b"
  obtains i xs v ys where "rb_upper_bound T (cm_vmas cm) b = Some i" "cm_areas T cm = xs @ v # ys" "length xs = i" "va_start v \<le> b"
    "\<forall>y \<in> set ys. b < va_start y" "\<forall>x \<in> set xs. va_end x \<le> va_start v"
proof -
  have ca: "chunk_areas (cm_range cm) (cm_areas T cm)" using assms(2) by (simp add: cm_inv_def)
  have ap: "apart_areas (rb_iter T (cm_vmas cm))" using chunk_areas_apart [OF ca] by (simp add: cm_areas_def)
  have "rb_upper_bound T (cm_vmas cm) b \<noteq> None"
  proof
    assume "rb_upper_bound T (cm_vmas cm) b = None"
    from rb_upper_bound_None [OF _ apart_sorted [OF ap] this] assms(1)
    have "\<forall>v \<in> set (cm_areas T cm). b < va_start v" by (simp add: tree_ok_def cm_areas_def)
    moreover have "hd (cm_areas T cm) \<in> set (cm_areas T cm)" "va_start (hd (cm_areas T cm)) = r_start (cm_range cm)"
      using ca by (auto simp: chunk_areas_def intro!: hd_in_set)
    ultimately show False using assms(3) by fastforce
  qed
  then obtain i where i: "rb_upper_bound T (cm_vmas cm) b = Some i" by blast
  show thesis
    by (rule tree_upper_bound [OF assms(1) ap i]) (use that i in \<open>auto simp: cm_areas_def\<close>)
qed

text \<open>Between two states of a chunk, an unmapping.\<close>

definition chunk_unmaps :: "'t vma_tree \<Rightarrow> pid_t \<Rightarrow> VMRange \<Rightarrow> 't ChunkManager \<Rightarrow> unit res \<Rightarrow> 't ChunkManager \<Rightarrow> bool" where
  "chunk_unmaps T pid r cm res cm' \<longleftrightarrow> cm_inv T cm' \<and> cm_range cm' = cm_range cm \<and>
     partly_unmapped pid r (cm_areas T cm) (cm_areas T cm') \<and>
     (res = Ok () \<longrightarrow> unmapped pid r (cm_areas T cm) (cm_areas T cm'))"

lemma chunk_unmaps_none:
  assumes "cm_inv T cm" "addrs r \<inter> addrs (cm_range cm) = {}"
  shows "chunk_unmaps T pid r cm res cm"
proof -
  have "\<not> gone pid r (cm_areas T cm) a" for a
    using gone_area [of pid r "cm_areas T cm" a] chunk_areas_set [of "cm_range cm" "cm_areas T cm"] assms
    by (auto simp: cm_inv_def gone_def)
  then show ?thesis using assms(1) by (simp add: chunk_unmaps_def partly_unmapped_def unmapped_def)
qed

text \<open>Unmapping a range leaves the areas before the start of the search and runs the recursion over the others.\<close>

lemma munmap_range_run:
  assumes T: "tree_ok T" and inv: "cm_inv T cm"
    and out: "ChunkManager_munmap_range T env pid r (cm, w) = (res, (cm', w'))"
  obtains xs v ys vs' t' fl' fs' where "cm_areas T cm = xs @ v # ys" "\<And>a. \<not> gone pid r xs a"
    "munmap_list env pid r (v # ys) (cm_free_manager cm, cm_free_size cm, w) = (res, vs', fl', fs', w')"
    "rb_iter T t' = xs @ vs'" "cm' = cm\<lparr>cm_vmas := t', cm_free_manager := fl', cm_free_size := fs'\<rparr>"
proof -
  let ?b = "max (r_start r) (r_start (cm_range cm))"
  obtain i xs v ys where u: "rb_upper_bound T (cm_vmas cm) ?b = Some i" "cm_areas T cm = xs @ v # ys" "length xs = i" "va_start v \<le> ?b"
    "\<forall>x \<in> set xs. va_end x \<le> va_start v"
    by (rule chunk_search [OF T inv, of ?b]) simp_all
  have ca: "chunk_areas (cm_range cm) (xs @ v # ys)" using inv by (simp add: cm_inv_def u(2))
  obtain res1 vs' fl' fs' w1 where l: "munmap_list env pid r (v # ys) (cm_free_manager cm, cm_free_size cm, w) = (res1, vs', fl', fs', w1)"
    by (metis prod_cases5)
  obtain t' where t': "ChunkManager_munmap_range T env pid r (cm, w) = (res1, cm_after cm t' (fl', fs', w1))" "rb_iter T t' = xs @ vs'"
    using munmap_loop_list [OF T _ chunk_areas_apart [OF ca] _ l, of "3 * length (cm_areas T cm) + 1"] u(1-3)
    by (auto simp: ChunkManager_munmap_range_def cm_areas_def)
  have "\<not> gone pid r xs a" for a
    using u(4,5) chunk_areas_bounds [OF ca] by (fastforce simp: gone_def range_simps)
  then show thesis using that [OF u(2) _ _ t'(2)] l t'(1) out by (simp add: cm_after_def)
qed

lemma munmap_range_unmaps:
  assumes T: "tree_ok T" and inv: "cm_inv T cm" and r: "page_aligned r"
    and out: "ChunkManager_munmap_range T env pid r (cm, w) = (res, (cm', w'))" "res \<noteq> Panic"
  shows "chunk_unmaps T pid r cm res cm'"
proof -
  obtain xs v ys vs' t' fl' fs' where u: "cm_areas T cm = xs @ v # ys" and ng: "\<And>a. \<not> gone pid r xs a"
    and l: "munmap_list env pid r (v # ys) (cm_free_manager cm, cm_free_size cm, w) = (res, vs', fl', fs', w')"
    and t': "rb_iter T t' = xs @ vs'" "cm' = cm\<lparr>cm_vmas := t', cm_free_manager := fl', cm_free_size := fs'\<rparr>"
    by (rule munmap_range_run [OF T inv out(1)]) (rule that; assumption)
  have ca: "chunk_areas (cm_range cm) (xs @ v # ys)" "proper (cm_range cm)" "free_ok (cm_free_manager cm) (cm_free_size cm)"
    "free_set (cm_free_manager cm) = addrs (cm_range cm) - area_set (xs @ v # ys)"
    using inv by (simp_all add: cm_inv_def u)
  note ap = chunk_areas_apart [OF ca(1)] and bd = chunk_areas_bounds [OF ca(1)]
  have "munmap_done pid r (v # ys) (cm_free_manager cm) (munmap_list env pid r (v # ys) (cm_free_manager cm, cm_free_size cm, w))"
    by (rule munmap_list_spec)
      (use ca ap bd l out(2) in \<open>auto simp: apart_simps proper_def simp del: munmap_list.simps intro: order_trans\<close>)
  then have d: "apart_areas vs'" "parts_of r vs' (v # ys)" "free_ok fl' fs'"
    "free_set fl' = free_set (cm_free_manager cm) \<union> (area_set (v # ys) - area_set vs')"
    "partly_unmapped pid r (v # ys) vs'" "res = Ok () \<longrightarrow> unmapped pid r (v # ys) vs'"
    unfolding munmap_done_def l by simp_all
  have ap': "apart_areas (xs @ vs')" by (rule parts_apart [OF ap d(1,2)])
  have "area_set xs \<inter> area_set (v # ys) = {}"
    using ap by (fastforce simp: apart_areas_append area_set_def range_simps)
  then have "free_set fl' = addrs (cm_range cm) - area_set (xs @ vs')"
    using d(4) ca(4) parts_area_set [OF d(2)] chunk_areas_set [OF ca(1)] by auto
  then show ?thesis
    using chunk_areas_cut [OF ca(1) r l ap'] inv d(3,6) unmapped_before [OF ap ng d(5)] t'(1) u
    by (simp add: chunk_unmaps_def cm_inv_def t'(2) cm_areas_def)
qed

lemma munmap_unmaps:
  assumes T: "tree_ok T" and inv: "cm_inv T cm" and out: "ChunkManager_munmap T env pid addr sz (cm, w) = (res, (cm', w'))" "res \<noteq> Panic"
  shows "chunk_unmaps T pid (mk_range addr (uadd addr (align_up sz PAGE_SIZE))) cm res cm'"
proof (cases "sz = 0 \<or> VMRange_new addr (uadd addr (align_up sz PAGE_SIZE)) = Err EINVAL")
  case True
  then have "cm' = cm" "res = Err EINVAL" using out(1) by (cases "sz = 0"; simp add: ChunkManager_munmap_def Let_def)+
  then show ?thesis using inv by (simp add: chunk_unmaps_def partly_unmapped_def)
next
  case False
  let ?r = "mk_range addr (uadd addr (align_up sz PAGE_SIZE))"
  have r: "VMRange_new addr (uadd addr (align_up sz PAGE_SIZE)) = Ok ?r" "page_aligned ?r"
    using False by (auto simp: VMRange_new_def page_aligned_def split: if_splits)
  show ?thesis
  proof (cases "VMRange_intersect ?r (cm_range cm)")
    case None
    then have "cm' = cm" using out(1) False r by (simp add: ChunkManager_munmap_def Let_def)
    then show ?thesis using chunk_unmaps_none [OF inv] None VMRange_intersect_None by blast
  next
    case (Some e)
    note ib = VMRange_intersect_Some [OF Some]
    have "ChunkManager_munmap_range T env pid e (cm, w) = (res, (cm', w'))"
      using out(1) False r Some ib by (simp add: ChunkManager_munmap_def Let_def VMRange_empty_def)
    then have u: "chunk_unmaps T pid e cm res cm'"
      using VMRange_intersect_aligned [OF Some r(2)] inv by (intro munmap_range_unmaps [OF T inv _ _ out(2)]) (simp_all add: cm_inv_def)
    have "gone pid e (cm_areas T cm) a \<longleftrightarrow> gone pid ?r (cm_areas T cm) a" for a
      using gone_area [of pid ?r "cm_areas T cm" a] chunk_areas_set [of "cm_range cm" "cm_areas T cm"] inv ib
      by (auto simp: cm_inv_def gone_def)
    then show ?thesis using u by (simp add: chunk_unmaps_def unmapped_def partly_unmapped_def)
  qed
qed

end
