(* ===== verification/ChunkMap.thy ===== *)
theory ChunkMap
  imports ChunkInv
begin

text \<open>
  The other operations of the chunk manager keep its invariant: creating and dropping a manager,
  mapping, cleaning up after a process, handling a page fault and merging areas.
\<close>

section \<open>Mapping\<close>

text \<open>What a new area stands for does not depend on how it is filled.\<close>

definition same_area :: "VMArea \<Rightarrow> VMArea \<Rightarrow> bool" where
  "same_area x v \<longleftrightarrow> va_range x = va_range v \<and> va_perms x = va_perms v \<and> va_access x = va_access v \<and> va_file_backed x = va_file_backed v"

lemma same_area_view: "same_area x v \<Longrightarrow> view_of x a = view_of v a"
  by (simp add: same_area_def view_of_def)

lemma act_bind_OkE:
  assumes "act_bind a f w = (Ok y, w')"
  obtains x w1 where "a w = (Ok x, w1)" "f x w1 = (Ok y, w')"
  using assms by (auto simp: act_bind_def split: prod.splits res.splits)

lemma init_memory_same: "init_memory env vma opts w = (Ok v, w') \<Longrightarrow> same_area v vma"
  by (auto simp: init_memory_def same_area_def act_return_def elim!: act_bind_OkE split: if_splits option.splits prod.splits res.splits)

lemma VMArea_new_Ok:
  assumes "VMArea_new env r perms fb pid w = (Ok v, w')"
  shows "va_range v = r" "va_perms v = perms" "va_access v = PrivateTo pid" "va_file_backed v = fb"
  using assms by (auto simp: VMArea_new_def Let_def act_return_def elim!: act_bind_OkE)

text \<open>A free range has a place among the areas.\<close>

lemma gap_insert:
  assumes "apart_areas (xs @ ys)" "va_start v < va_end v" "\<forall>x \<in> set xs. va_end x \<le> va_start v" "\<forall>y \<in> set ys. va_end v \<le> va_start y"
  shows "apart_areas (xs @ v # ys)"
  using assms by (auto simp: apart_simps)

lemma areas_gap:
  assumes "apart_areas us" "\<forall>u \<in> set us. va_end u \<le> va_start v \<or> va_end v \<le> va_start u" "va_start v < va_end v"
  shows "\<exists>lo hi. us = lo @ hi \<and> (\<forall>x \<in> set lo. va_end x \<le> va_start v) \<and> (\<forall>y \<in> set hi. va_end v \<le> va_start y)"
  using assms(1,2)
proof (induction us)
  case (Cons u us)
  show ?case
  proof (cases "va_end u \<le> va_start v")
    case True
    obtain lo hi where "us = lo @ hi" "\<forall>x \<in> set lo. va_end x \<le> va_start v" "\<forall>y \<in> set hi. va_end v \<le> va_start y"
      using Cons by (auto simp: apart_simps)
    then show ?thesis using True by (intro exI [of _ "u # lo"] exI [of _ hi]) simp
  next
    case False
    then show ?thesis using Cons.prems by (intro exI [of _ "[]"] exI [of _ "u # us"]) (fastforce simp: apart_simps)
  qed
qed simp

lemma chunk_areas_insert:
  assumes ca: "chunk_areas rg zs" and n: "addrs (va_range v) \<subseteq> addrs rg - area_set zs" "area_ok v"
  obtains xs ys where "zs = xs @ ys" "\<forall>x \<in> set xs. va_start x \<le> va_start v" "\<forall>y \<in> set ys. va_start v < va_start y"
    "chunk_areas rg (xs @ v # ys)"
proof -
  obtain s0 us s1 where c: "zs = s0 # us @ [s1]" "va_range s0 = mk_range (r_start rg) (r_start rg)"
    "va_range s1 = mk_range (r_end rg) (r_end rg)" "apart_areas (s0 # us @ [s1])" "\<forall>v \<in> set us. area_ok v"
    by (rule chunk_areasE [OF ca])
  have v: "va_start v < va_end v" using n(2) by (simp add: area_ok_def)
  have "va_start v \<in> addrs (va_range v)" "va_end v - 1 \<in> addrs (va_range v)" using v by (auto simp: range_simps)
  then have "va_start v \<in> addrs rg" "va_end v - 1 \<in> addrs rg" using n(1) by auto
  then have b: "r_start rg \<le> va_start v" "va_end v \<le> r_end rg" using v by (auto simp: range_simps)
  have sep: "va_end u \<le> va_start v \<or> va_end v \<le> va_start u" if u: "u \<in> set us" for u
  proof (rule ccontr)
    assume "\<not> ?thesis"
    then have "max (va_start u) (va_start v) \<in> addrs (va_range u) \<inter> addrs (va_range v)"
      using u c(5) v by (auto simp: range_simps area_ok_def)
    then show False using n(1) c(1) u by (auto simp: area_set_def)
  qed
  obtain lo hi where us: "us = lo @ hi" and lo: "\<forall>x \<in> set lo. va_end x \<le> va_start v" and hi: "\<forall>y \<in> set hi. va_end v \<le> va_start y"
    using areas_gap [of us v] sep v c(4) by (auto simp: apart_simps)
  have "apart_areas (s0 # (lo @ v # hi) @ [s1])"
    using gap_insert [of "s0 # lo" "hi @ [s1]" v] c(1-4) lo hi b v us by simp
  then have "chunk_areas rg (s0 # (lo @ v # hi) @ [s1])" using c n(2) us by (intro chunk_areasI) auto
  moreover have "\<forall>x \<in> set lo. va_start x \<le> va_start v" using lo apart_le [OF c(4)] us by fastforce
  ultimately show thesis
    using c(1-3) b v hi us by (intro that [of "s0 # lo" "hi @ [s1]"]) auto
qed

text \<open>The options \<open>mmap\<close> is called with: a size in pages and an alignment of at least a page.\<close>

definition opts_ok :: "VMMapOptions \<Rightarrow> bool" where
  "opts_ok opts \<longleftrightarrow> 0 < mo_size opts \<and> mo_size opts \<le> ADDR_LIMIT \<and> mo_size opts mod PAGE_SIZE = 0 \<and>
     is_power_of_two (mo_align opts) \<and> mo_align opts mod PAGE_SIZE = 0"

definition mapped_view :: "pid_t \<Rightarrow> VMMapOptions \<Rightarrow> usize \<Rightarrow> nat \<Rightarrow> addr_view" where
  "mapped_view pid opts a x = (mo_perms opts, PrivateTo pid,
     map_option (\<lambda>f. (fb_file f, uadd (fb_offset f) (usub x a), fb_write_back f)) (VMInitializer_backed_file (mo_initializer opts)))"

definition new_area :: "'s vm_env \<Rightarrow> pid_t \<Rightarrow> VMMapOptions \<Rightarrow> VMRange \<Rightarrow> ('s vm_world, VMArea) act" where
  "new_area env pid opts r =
     act_bind (VMArea_new env r (mo_perms opts) (VMInitializer_backed_file (mo_initializer opts)) pid) (\<lambda>vma. init_memory env vma opts)"

lemma new_area_Ok:
  assumes "new_area env pid opts r w = (Ok v, w')"
  shows "va_range v = r" "va_access v = PrivateTo pid" "view_of v x = mapped_view pid opts (r_start r) x"
  using assms unfolding new_area_def
  by (auto simp: same_area_def mapped_view_def view_of_def VMArea_new_Ok dest!: init_memory_same elim!: act_bind_OkE)

text \<open>The part of \<open>mmap\<close> behind the unmapping of a forced range.\<close>

definition mmap_place :: "'t vma_tree \<Rightarrow> 's vm_env \<Rightarrow> pid_t \<Rightarrow> VMMapOptions \<Rightarrow> ('t, 's, usize) chunk_act" where
  "mmap_place T env pid opts = (\<lambda>(cm, w).
     case find_free_range_internal (cm_free_manager cm) (mo_size opts) (mo_align opts) (mo_addr opts) of
       Err e \<Rightarrow> (Err e, (cm, w))
     | Panic \<Rightarrow> (Panic, (cm, w))
     | Ok (fl, r) \<Rightarrow>
         (case new_area env pid opts r w of
            (Ok v, w') \<Rightarrow> (Ok (r_start r), (cm\<lparr>cm_free_manager := fl, cm_free_size := usub (cm_free_size cm) (va_size v),
                                            cm_vmas := fst (rb_insert T (cm_vmas cm) v)\<rparr>, w'))
          | (Err e, w') \<Rightarrow>
              (case VMRange_new_with_size (r_start r) (mo_size opts) of
                 Ok r \<Rightarrow> (Err e, (cm\<lparr>cm_free_manager := add_range_back_to_free_manager fl r\<rparr>, w'))
               | _ \<Rightarrow> (Panic, (cm\<lparr>cm_free_manager := fl\<rparr>, w')))
          | (Panic, w') \<Rightarrow> (Panic, (cm\<lparr>cm_free_manager := fl\<rparr>, w'))))"

lemma mmap_eq:
  "ChunkManager_mmap T env pid opts =
     act_bind (case mo_addr opts of Force addr \<Rightarrow> ChunkManager_munmap T env pid addr (mo_size opts) | _ \<Rightarrow> act_return ())
       (\<lambda>_. mmap_place T env pid opts)"
  by (auto simp: ChunkManager_mmap_def mmap_place_def act_bind_def new_area_def cm_update_def act_return_def fun_eq_iff
      split: res.split prod.split VMMapAddr.split)

text \<open>Between two states of a chunk, a mapping.\<close>

definition chunk_maps :: "'t vma_tree \<Rightarrow> pid_t \<Rightarrow> VMMapOptions \<Rightarrow> 't ChunkManager \<Rightarrow> usize \<Rightarrow> 't ChunkManager \<Rightarrow> bool" where
  "chunk_maps T pid opts cm a cm' \<longleftrightarrow>
     addrs (mk_range a (a + mo_size opts)) \<subseteq> addrs (cm_range cm) \<and> a mod mo_align opts = 0 \<and>
     (case mo_addr opts of Need b \<Rightarrow> a = b | Force b \<Rightarrow> a = b | _ \<Rightarrow> True) \<and>
     (\<forall>x \<in> addrs (mk_range a (a + mo_size opts)). view (cm_areas T cm) x = None \<or>
        (\<exists>b. mo_addr opts = Force b) \<and> gone pid (mk_range a (a + mo_size opts)) (cm_areas T cm) x) \<and>
     (\<forall>x. view (cm_areas T cm') x =
        (if x \<in> addrs (mk_range a (a + mo_size opts)) then Some (mapped_view pid opts a x) else view (cm_areas T cm) x))"

lemma find_at:
  assumes "fl_inv fl" "is_power_of_two align" "0 < sz" "find_free_range_internal fl sz align addr = Ok (fl', r)"
  shows "case addr of Need b \<Rightarrow> r_start r = b | Force b \<Rightarrow> r_start r = b | _ \<Rightarrow> True"
  using find_free_range_refines [OF assms(1-3), of addr] assms(4)
  by (cases addr) (auto simp: find_spec_def split: if_splits option.splits)

lemma view_insert:
  assumes "apart_areas (xs @ v # ys)"
  shows "view (xs @ v # ys) x = (if x \<in> addrs (va_range v) then Some (view_of v x) else view (xs @ ys) x)"
proof -
  have "x \<in> addrs (va_range v) \<Longrightarrow> x \<notin> area_set xs"
    using assms by (fastforce simp: apart_simps area_set_def range_simps)
  then show ?thesis using view_None [of xs x] by (auto simp: view_append split: option.split)
qed

lemma free_ok_take:
  assumes "free_ok fl fs" "fl_inv fl'" "free_set fl' = free_set fl - addrs r" "addrs r \<subseteq> free_set fl" "range_ok r"
  shows "free_ok fl' (usub fs (VMRange_size r))"
proof -
  have "card (free_set fl - addrs r) = fs - VMRange_size r" "VMRange_size r \<le> fs"
    using assms card_mono [OF _ assms(4)] by (simp_all add: free_ok_def card_Diff_subset VMRange_size_card)
  then show ?thesis using assms(2,3) free_ok_bound [OF assms(1)] by (simp add: free_ok_def usub_def)
qed

lemma mmap_place_fails:
  assumes inv: "cm_inv T cm" and o: "opts_ok opts" and out: "mmap_place T env pid opts (cm, w) = (Err e, (cm', w'))"
  shows "cm_inv T cm' \<and> cm_range cm' = cm_range cm \<and> cm_areas T cm' = cm_areas T cm"
proof (cases "find_free_range_internal (cm_free_manager cm) (mo_size opts) (mo_align opts) (mo_addr opts)")
  case (Ok p)
  obtain fl r where p: "p = (fl, r)" by (cases p)
  have i: "free_ok (cm_free_manager cm) (cm_free_size cm)" "free_set (cm_free_manager cm) = addrs (cm_range cm) - area_set (cm_areas T cm)"
    using inv by (simp_all add: cm_inv_def)
  note f = find_free_range_spec [OF _ _ Ok [unfolded p]]
  have f: "fl_inv fl" "free_set fl = free_set (cm_free_manager cm) - addrs r" "addrs r \<subseteq> free_set (cm_free_manager cm)"
    "r_end r = r_start r + mo_size opts" "range_ok r"
    using f i(1) o by (auto simp: free_ok_def opts_ok_def)
  obtain q where q: "VMRange_new_with_size (r_start r) (mo_size opts) = Ok q" "cm' = cm\<lparr>cm_free_manager := add_range_back_to_free_manager fl q\<rparr>"
    using out Ok by (auto simp: mmap_place_def p split: res.splits prod.splits)
  have "q = r" using q(1) f(4) by (cases r) (auto simp: VMRange_new_with_size_def VMRange_new_def checked_add_def split: if_splits)
  moreover have "fl_inv (add_range_back_to_free_manager fl r) \<and> free_set (add_range_back_to_free_manager fl r) = free_set fl \<union> addrs r"
    using f o by (intro add_range_back_spec) (auto simp: proper_def range_ok_def opts_ok_def)
  ultimately show ?thesis using inv i f q(2) by (auto simp: cm_inv_def free_ok_def cm_areas_def Un_absorb2)
qed (use inv out in \<open>auto simp: mmap_place_def\<close>)

lemma mmap_place_maps:
  assumes T: "tree_ok T" and inv: "cm_inv T cm" and o: "opts_ok opts" and out: "mmap_place T env pid opts (cm, w) = (Ok a, (cm', w'))"
  shows "cm_inv T cm' \<and> cm_range cm' = cm_range cm \<and> chunk_maps T pid opts cm a cm' \<and>
    (\<forall>x \<in> addrs (mk_range a (a + mo_size opts)). view (cm_areas T cm) x = None)"
proof -
  obtain fl r v where ok: "find_free_range_internal (cm_free_manager cm) (mo_size opts) (mo_align opts) (mo_addr opts) = Ok (fl, r)"
    and v: "new_area env pid opts r w = (Ok v, w')" and a: "a = r_start r"
    and cm': "cm' = cm\<lparr>cm_free_manager := fl, cm_free_size := usub (cm_free_size cm) (va_size v), cm_vmas := fst (rb_insert T (cm_vmas cm) v)\<rparr>"
    using out by (auto simp: mmap_place_def split: res.splits prod.splits)
  note v = new_area_Ok [OF v]
  have i: "free_ok (cm_free_manager cm) (cm_free_size cm)" "free_set (cm_free_manager cm) = addrs (cm_range cm) - area_set (cm_areas T cm)"
    "chunk_areas (cm_range cm) (cm_areas T cm)"
    using inv by (simp_all add: cm_inv_def)
  have al: "is_power_of_two (mo_align opts)" "0 < mo_size opts" using o by (auto simp: opts_ok_def)
  have fi: "fl_inv (cm_free_manager cm)" using i(1) by (simp add: free_ok_def)
  note f = find_free_range_spec [OF fi al(1) ok]
  have r: "r = mk_range a (a + mo_size opts)" using f(4) a by (cases r) simp
  have "r_start r mod PAGE_SIZE = 0" using f(5) o by (meson dvd_trans mod_0_imp_dvd mod_eq_0_iff_dvd opts_ok_def)
  then have "area_ok v" using o f(4) v(1,2) by (auto simp: area_ok_def is_private_def page_aligned_def opts_ok_def mod_add_eq [symmetric])
  then obtain xs ys where xs: "cm_areas T cm = xs @ ys" "\<forall>x \<in> set xs. va_start x \<le> va_start v" "\<forall>y \<in> set ys. va_start v < va_start y"
    "chunk_areas (cm_range cm) (xs @ v # ys)"
    using chunk_areas_insert [OF i(3), of v] f(3) i(2) v(1) by metis
  have it: "cm_areas T cm' = xs @ v # ys"
    using tree_insert(2) [OF T _ _ xs(2,3)] xs(1) chunk_areas_apart [OF i(3)] by (simp add: cm' cm_areas_def)
  have "free_ok fl (usub (cm_free_size cm) (va_size v))"
    using free_ok_take [OF i(1) f(1-3,6)] v(1) by simp
  then have "cm_inv T cm'"
    using inv xs it f(2) i(2) v(1) by (auto simp: cm_inv_def cm')
  moreover have none: "view (cm_areas T cm) x = None" if "x \<in> addrs r" for x
    using that f(3) i(2) view_None by blast
  moreover have "chunk_maps T pid opts cm a cm'"
    using none f(3,5) i(2) find_at [OF fi al ok] view_insert [OF chunk_areas_apart [OF xs(4)]] v(1,3)
    by (auto simp: chunk_maps_def it xs(1) a r [symmetric, unfolded a])
  ultimately show ?thesis by (auto simp: cm' r [symmetric])
qed

text \<open>What a failed mapping may have done: unmap a part of the range it was forced to.\<close>

definition chunk_map_fails :: "'t vma_tree \<Rightarrow> pid_t \<Rightarrow> VMMapOptions \<Rightarrow> 't ChunkManager \<Rightarrow> 't ChunkManager \<Rightarrow> bool" where
  "chunk_map_fails T pid opts cm cm' \<longleftrightarrow>
     (case mo_addr opts of
        Force b \<Rightarrow> partly_unmapped pid (mk_range b (uadd b (mo_size opts))) (cm_areas T cm) (cm_areas T cm')
      | _ \<Rightarrow> cm_areas T cm' = cm_areas T cm)"

lemma partly_same [simp]: "partly_unmapped pid r vs vs"
  by (simp add: partly_unmapped_def)

lemma opts_size: "opts_ok opts \<Longrightarrow> align_up (mo_size opts) PAGE_SIZE = mo_size opts"
  by (rule align_up_aligned) (auto simp: opts_ok_def)

text \<open>Mapping over what was unmapped is mapping over the original areas.\<close>

lemma maps_after_unmap:
  assumes u: "unmapped pid (mk_range b (uadd b (mo_size opts))) (cm_areas T cm) (cm_areas T cm1)" "cm_range cm1 = cm_range cm"
    and m: "chunk_maps T pid opts cm1 a cm'" "\<forall>x \<in> addrs (mk_range a (a + mo_size opts)). view (cm_areas T cm1) x = None" and b: "mo_addr opts = Force b" and o: "opts_ok opts" "r_end (cm_range cm) \<le> ADDR_LIMIT"
  shows "chunk_maps T pid opts cm a cm'"
proof -
  have ab: "a = b" "addrs (mk_range b (b + mo_size opts)) \<subseteq> addrs (cm_range cm)"
    using m b u(2) by (auto simp: chunk_maps_def)
  have "b + mo_size opts - 1 \<in> addrs (mk_range b (b + mo_size opts))" using o(1) by (auto simp: opts_ok_def range_simps)
  then have "b + mo_size opts - 1 \<in> addrs (cm_range cm)" using ab(2) by blast
  then have "b + mo_size opts \<le> ADDR_LIMIT" using o by (auto simp: range_simps opts_ok_def)
  then have "uadd b (mo_size opts) = b + mo_size opts" by (simp add: usize_simps)
  then have "view (cm_areas T cm1) x = (if gone pid (mk_range b (b + mo_size opts)) (cm_areas T cm) x then None else view (cm_areas T cm) x)" for x
    using u(1) by (simp add: unmapped_def)
  moreover have "gone pid (mk_range b (b + mo_size opts)) (cm_areas T cm) x \<Longrightarrow> x \<in> addrs (mk_range b (b + mo_size opts))" for x
    by (simp add: gone_def)
  ultimately show ?thesis using m ab b u(2) by (auto simp: chunk_maps_def simp del: not_None_eq not_Some_eq split: if_splits)
qed

lemma mmap_correct:
  assumes T: "tree_ok T" and inv: "cm_inv T cm" and o: "opts_ok opts"
    and out: "ChunkManager_mmap T env pid opts (cm, w) = (res, (cm', w'))" "res \<noteq> Panic"
  shows "cm_inv T cm' \<and> cm_range cm' = cm_range cm \<and>
    (case res of Ok a \<Rightarrow> chunk_maps T pid opts cm a cm' | _ \<Rightarrow> chunk_map_fails T pid opts cm cm')"
proof (cases "\<exists>b. mo_addr opts = Force b")
  case False
  then have "mmap_place T env pid opts (cm, w) = (res, (cm', w'))"
    using out(1) by (cases "mo_addr opts") (simp_all add: mmap_eq)
  then show ?thesis
    using mmap_place_maps [OF T inv o, of env pid w _ cm' w'] mmap_place_fails [OF inv o, of env pid w _ cm' w'] out(2) False
    by (cases res) (auto simp: chunk_map_fails_def split: VMMapAddr.split)
next
  case True
  then obtain b where b: "mo_addr opts = Force b" by blast
  let ?r = "mk_range b (uadd b (mo_size opts))"
  obtain res1 cm1 w1 where m: "ChunkManager_munmap T env pid b (mo_size opts) (cm, w) = (res1, (cm1, w1))"
    by (metis prod_cases3)
  have res1: "res1 \<noteq> Panic" using out m b by (auto simp: mmap_eq act_bind_def)
  have u: "chunk_unmaps T pid ?r cm res1 cm1" using munmap_unmaps [OF T inv m res1] opts_size [OF o] by simp
  have inv1: "cm_inv T cm1" "cm_range cm1 = cm_range cm" using u by (simp_all add: chunk_unmaps_def)
  show ?thesis
  proof (cases res1)
    case (Ok x)
    have p: "mmap_place T env pid opts (cm1, w1) = (res, (cm', w'))" using out(1) m b Ok by (simp add: mmap_eq act_bind_def)
    have r: "r_end (cm_range cm) \<le> ADDR_LIMIT" using inv by (simp add: cm_inv_def proper_def)
    show ?thesis
    proof (cases res)
      case (Ok a)
      have "cm_inv T cm' \<and> cm_range cm' = cm_range cm1 \<and> chunk_maps T pid opts cm1 a cm' \<and>
          (\<forall>x \<in> addrs (mk_range a (a + mo_size opts)). view (cm_areas T cm1) x = None)"
        using mmap_place_maps [OF T inv1(1) o] p Ok by simp
      then show ?thesis
        using maps_after_unmap [OF _ inv1(2) _ _ b o r, of pid T a cm'] u inv1(2) \<open>res1 = Ok x\<close> Ok by (simp add: chunk_unmaps_def)
    next
      case (Err e)
      then show ?thesis using mmap_place_fails [OF inv1(1) o, of env pid w1 e cm' w'] p u b inv1 by (auto simp: chunk_map_fails_def chunk_unmaps_def)
    qed (use out(2) in simp)
  next
    case (Err e)
    then show ?thesis using out(1) m b u by (auto simp: mmap_eq act_bind_def chunk_map_fails_def chunk_unmaps_def)
  qed (use res1 in simp)
qed

section \<open>The end of a process\<close>

text \<open>Cleaning up after a process as a recursion over the areas.\<close>

declare clean_loop.simps(2) [simp del]

abbreviation keeps :: "pid_t \<Rightarrow> VMArea \<Rightarrow> bool" where
  "keeps pid v \<equiv> \<not> belong_to v pid \<or> va_size v = 0"

fun clean_list :: "'s vm_env \<Rightarrow> pid_t \<Rightarrow> VMArea list \<Rightarrow> 's free_state \<Rightarrow> unit res \<times> VMArea list \<times> 's free_state" where
  "clean_list env pid [] st = (Ok (), [], st)"
| "clean_list env pid (v # vs) (fl, fs, w) =
     (if keeps pid v then keep_areas [v] (clean_list env pid vs (fl, fs, w))
      else case flush_and_clean_memory env v w of
             (Ok _, w') \<Rightarrow> clean_list env pid vs (add_range_back_to_free_manager fl (va_range v), uadd fs (va_size v), w')
           | (_, w') \<Rightarrow> (Panic, v # vs, (fl, fs, w')))"

lemma clean_loop_list:
  assumes T: "tree_ok T" and "rb_iter T (cm_vmas cm) = pre @ vs" "length vs < rounds"
    and "clean_list env pid vs (cm_free_manager cm, cm_free_size cm, w) = (res, vs', st')"
  shows "\<exists>t'. clean_loop T env pid rounds (length pre) (cm, w) = (res, cm_after cm t' st') \<and> rb_iter T t' = pre @ vs'"
  using assms(2-)
proof (induction vs arbitrary: pre cm w rounds vs' st')
  case Nil
  then show ?case
    by (cases rounds) (auto simp: clean_loop.simps(2) cm_areas_def cm_after_same intro!: exI [of _ "cm_vmas cm"])
next
  case (Cons v vs)
  obtain k where k: "rounds = Suc k" "length vs < k" using Cons.prems(2) by (cases rounds) auto
  have at: "cm_areas T cm ! length pre = v" "length pre < length (cm_areas T cm)" using Cons.prems(1) by (simp_all add: cm_areas_def)
  show ?case
  proof (cases "keeps pid v")
    case True
    obtain vs'' where l: "clean_list env pid vs (cm_free_manager cm, cm_free_size cm, w) = (res, vs'', st')" "v # vs'' = vs'"
      using Cons.prems(3) True by (cases "clean_list env pid vs (cm_free_manager cm, cm_free_size cm, w)") auto
    have "\<exists>t'. clean_loop T env pid k (length (pre @ [v])) (cm, w) = (res, cm_after cm t' st') \<and> rb_iter T t' = (pre @ [v]) @ vs''"
      by (rule Cons.IH) (use Cons.prems k l in auto)
    then show ?thesis using True at k(1) l(2) by (auto simp: clean_loop.simps(2) Let_def)
  next
    case False
    obtain m w1 where f: "flush_and_clean_memory env v w = (m, w1)" by (cases "flush_and_clean_memory env v w")
    show ?thesis
    proof (cases m)
      case (Ok u)
      then have f: "flush_and_clean_memory env v w = (Ok (), w1)" using f by simp
      let ?cm = "cm\<lparr>cm_free_manager := add_range_back_to_free_manager (cm_free_manager cm) (va_range v),
        cm_free_size := uadd (cm_free_size cm) (va_size v), cm_vmas := rb_remove T (cm_vmas cm) (length pre)\<rparr>"
      have "\<exists>t'. clean_loop T env pid k (length pre) (?cm, w1) = (res, cm_after ?cm t' st') \<and> rb_iter T t' = pre @ vs'"
        by (rule Cons.IH) (use Cons.prems k f False tree_remove [OF T Cons.prems(1)] in auto)
      moreover have "clean_loop T env pid rounds (length pre) (cm, w) = clean_loop T env pid k (length pre) (?cm, w1)"
        using False at k(1) f by (simp add: clean_loop.simps(2) Let_def act_unwrap_def on_vm_def act_bind_def)
      ultimately show ?thesis by (auto simp: cm_after_def)
    qed (use Cons.prems(1,3) False at k(1) f in
      \<open>auto simp: clean_loop.simps(2) Let_def act_unwrap_def on_vm_def act_bind_def cm_after_def intro!: exI [of _ "cm_vmas cm"]\<close>)
  qed
qed

lemma clean_list_spec:
  assumes "fst (clean_list env pid vs (fl, fs, w)) \<noteq> Panic"
    and "apart_areas vs" "\<forall>v \<in> set vs. va_end v \<le> ADDR_LIMIT" "free_ok fl fs" "free_set fl \<inter> area_set vs = {}"
  shows "\<exists>fl' fs' w'. clean_list env pid vs (fl, fs, w) = (Ok (), filter (keeps pid) vs, (fl', fs', w')) \<and> free_ok fl' fs' \<and>
    free_set fl' = free_set fl \<union> (area_set vs - area_set (filter (keeps pid) vs))"
  using assms
proof (induction vs arbitrary: fl fs w)
  case (Cons v vs)
  have ap: "apart_areas (v # vs)" "apart_areas vs" "va_start v \<le> va_end v" "va_end v \<le> ADDR_LIMIT"
    using Cons.prems by (simp_all add: apart_simps)
  have dj: "addrs (va_range v) \<inter> area_set vs = {}" by (rule apart_disjoint [OF ap(1)])
  have sub: "area_set (filter (keeps pid) vs) \<subseteq> area_set vs" by (auto simp: area_set_def)
  show ?case
  proof (cases "keeps pid v")
    case True
    then have "fst (clean_list env pid vs (fl, fs, w)) \<noteq> Panic" using Cons.prems(1) by (simp add: keep_areas_eq)
    then obtain fl' fs' w' where "clean_list env pid vs (fl, fs, w) = (Ok (), filter (keeps pid) vs, (fl', fs', w'))" "free_ok fl' fs'"
      "free_set fl' = free_set fl \<union> (area_set vs - area_set (filter (keeps pid) vs))"
      using Cons.IH [OF _ ap(2) _ Cons.prems(4), of w] Cons.prems(3,5) by (auto simp: Int_Un_distrib)
    then show ?thesis using True dj by (auto simp: keep_areas_eq)
  next
    case False
    obtain w1 where f: "flush_and_clean_memory env v w = (Ok (), w1)"
      using Cons.prems(1) False by (cases "flush_and_clean_memory env v w") (auto split: res.splits)
    have pr: "proper (va_range v)" "addrs (va_range v) \<inter> free_set fl = {}"
      using False ap(3,4) Cons.prems(5) by (auto simp: proper_def VMRange_size_def usub_def nat_less_le)
    note fb = free_ok_back [OF Cons.prems(4) pr]
    obtain fl' fs' w' where "clean_list env pid vs (add_range_back_to_free_manager fl (va_range v), uadd fs (va_size v), w1) =
        (Ok (), filter (keeps pid) vs, (fl', fs', w'))" "free_ok fl' fs'"
      "free_set fl' = free_set (add_range_back_to_free_manager fl (va_range v)) \<union> (area_set vs - area_set (filter (keeps pid) vs))"
      using Cons.IH [OF _ ap(2) _ fb(1), of w1] Cons.prems(1,3,5) False f fb(2) dj by (auto simp: Int_Un_distrib Int_Un_distrib2)
    then show ?thesis using False f fb(2) dj sub by auto
  qed
qed simp

lemma apart_filter: "apart_areas vs \<Longrightarrow> apart_areas (filter P vs)"
  by (induction vs) (auto simp: apart_simps)

lemma chunk_areas_filter:
  assumes "chunk_areas rg vs"
  shows "chunk_areas rg (filter (keeps pid) vs)"
proof -
  obtain s0 us s1 where c: "vs = s0 # us @ [s1]" "va_range s0 = mk_range (r_start rg) (r_start rg)"
    "va_range s1 = mk_range (r_end rg) (r_end rg)" "apart_areas (s0 # us @ [s1])" "\<forall>v \<in> set us. area_ok v"
    by (rule chunk_areasE [OF assms])
  have "filter (keeps pid) vs = s0 # filter (keeps pid) us @ [s1]"
    using c(1-3) by (simp add: VMRange_size_def usub_def)
  then show ?thesis using c apart_filter [OF c(4), of "keeps pid"] by (auto intro!: chunk_areasI)
qed

lemma unmapped_filter:
  assumes "apart_areas vs" "\<forall>v \<in> set vs. va_end v \<le> ADDR_LIMIT" "area_set vs \<subseteq> addrs r"
  shows "unmapped pid r vs (filter (keeps pid) vs)"
  using assms
proof (induction vs)
  case (Cons v vs)
  have v: "va_start v \<le> va_end v" "va_end v \<le> ADDR_LIMIT" "apart_areas vs" using Cons.prems by (simp_all add: apart_simps)
  have "va_size v = 0 \<Longrightarrow> addrs (va_range v) = {}"
    using v VMRange_size_card [of "va_range v"] by (simp add: range_ok_def)
  then have "view (filter (keeps pid) [v]) a = (if gone pid r [v] a then None else view [v] a)" for a
    using Cons.prems(3) by auto
  moreover have "area_set (filter (keeps pid) [v]) \<subseteq> addrs (va_range v)" by simp
  moreover have "unmapped pid r vs (filter (keeps pid) vs)" using Cons v by simp
  ultimately have "unmapped pid r (v # vs) (filter (keeps pid) [v] @ filter (keeps pid) vs)"
    by (intro unmapped_step(1) [OF Cons.prems(1)]) auto
  then show ?case by (auto split: if_splits)
qed (simp add: unmapped_def)

lemma unmapped_partly: "unmapped pid r vs vs' \<Longrightarrow> partly_unmapped pid r vs vs'"
  by (simp add: unmapped_def partly_unmapped_def)

lemma clean_unmaps:
  assumes T: "tree_ok T" and inv: "cm_inv T cm"
    and out: "clean_vmas_with_pid T env pid (cm, w) = (res, (cm', w'))" "res \<noteq> Panic"
  shows "res = Ok () \<and> chunk_unmaps T pid (cm_range cm) cm res cm'"
proof -
  have ca: "chunk_areas (cm_range cm) (cm_areas T cm)" "proper (cm_range cm)" "free_ok (cm_free_manager cm) (cm_free_size cm)"
    "free_set (cm_free_manager cm) = addrs (cm_range cm) - area_set (cm_areas T cm)"
    using inv by (simp_all add: cm_inv_def)
  note ap = chunk_areas_apart [OF ca(1)]
  have le: "\<forall>v \<in> set (cm_areas T cm). va_end v \<le> ADDR_LIMIT"
    using chunk_areas_bounds(2) [OF ca(1)] ca(2) by (force simp: proper_def)
  obtain res1 vs1 st1 where l1: "clean_list env pid (cm_areas T cm) (cm_free_manager cm, cm_free_size cm, w) = (res1, vs1, st1)"
    by (metis prod_cases3)
  have "\<exists>t'. clean_loop T env pid (length (cm_areas T cm) + 1) (length ([] :: VMArea list)) (cm, w) = (res1, cm_after cm t' st1) \<and> rb_iter T t' = [] @ vs1"
    by (rule clean_loop_list [OF T _ _ l1]) (simp_all add: cm_areas_def)
  then have "res = res1" using out(1) by (auto simp: clean_vmas_with_pid_def)
  then have ne: "fst (clean_list env pid (cm_areas T cm) (cm_free_manager cm, cm_free_size cm, w)) \<noteq> Panic" using out(2) l1 by simp
  obtain fl' fs' w1 where l: "clean_list env pid (cm_areas T cm) (cm_free_manager cm, cm_free_size cm, w) =
      (Ok (), filter (keeps pid) (cm_areas T cm), (fl', fs', w1))" "free_ok fl' fs'"
    "free_set fl' = free_set (cm_free_manager cm) \<union> (area_set (cm_areas T cm) - area_set (filter (keeps pid) (cm_areas T cm)))"
    using clean_list_spec [OF ne ap le ca(3)] ca(4) by auto
  obtain t' where "clean_loop T env pid (length (cm_areas T cm) + 1) (length ([] :: VMArea list)) (cm, w) = (Ok (), cm_after cm t' (fl', fs', w1))"
    "rb_iter T t' = filter (keeps pid) (cm_areas T cm)"
    using clean_loop_list [OF T _ _ l(1), of "[]" "length (cm_areas T cm) + 1"] by (auto simp: cm_areas_def)
  then have r: "res = Ok ()" "cm_range cm' = cm_range cm" "cm_free_manager cm' = fl'" "cm_free_size cm' = fs'"
    "cm_areas T cm' = filter (keeps pid) (cm_areas T cm)"
    using out(1) by (auto simp: clean_vmas_with_pid_def cm_after_def cm_areas_def)
  have "unmapped pid (cm_range cm) (cm_areas T cm) (cm_areas T cm')"
    unfolding r(5) by (rule unmapped_filter [OF ap le chunk_areas_set [OF ca(1)]])
  moreover have "area_set (cm_areas T cm') \<subseteq> area_set (cm_areas T cm)" unfolding r(5) by (auto simp: area_set_def)
  then have "free_set fl' = addrs (cm_range cm) - area_set (cm_areas T cm')"
    using l(3) [folded r(5)] ca(4) chunk_areas_set [OF ca(1)] by auto
  ultimately show ?thesis
    using l(2) chunk_areas_filter [OF ca(1), of pid, folded r(5)] inv unmapped_partly by (simp add: chunk_unmaps_def cm_inv_def r(1-4))
qed

section \<open>Creating and dropping a manager\<close>

lemma from_inv:
  assumes T: "tree_ok T" and b: "0 < sz" "addr + sz \<le> ADDR_LIMIT" and out: "ChunkManager_from T env addr sz w = (Ok cm, w')"
  shows "cm_inv T cm" "cm_range cm = mk_range addr (addr + sz)" "view (cm_areas T cm) a = None" "ChunkManager_is_empty T cm"
proof -
  let ?rg = "mk_range addr (addr + sz)"
  have u: "uadd addr sz = addr + sz" using b by (simp add: usize_simps)
  have rg: "VMRange_new addr (uadd addr sz) = Ok ?rg"
    using out by (auto simp: ChunkManager_from_def VMRange_new_def u elim!: act_bind_OkE split: if_splits)
  then have al: "page_aligned ?rg" by (auto simp: VMRange_new_def page_aligned_def u split: if_splits)
  obtain s0 s1 where s: "va_range s0 = mk_range addr addr" "va_range s1 = mk_range (addr + sz) (addr + sz)"
    and cm: "cm = \<lparr>cm_range = ?rg, cm_free_size = VMRange_size ?rg, cm_vmas = fst (rb_insert T (fst (rb_insert T (rb_new T) s0)) s1),
                   cm_free_manager = FreeSpace_new ?rg\<rparr>"
    using out rg by (auto simp: ChunkManager_from_def VMRange_new_empty_def Let_def act_return_def dest!: VMArea_new_Ok(1)
        elim!: act_bind_OkE split: if_splits)
  have "rb_iter T (fst (rb_insert T (rb_new T) s0)) = [s0]"
    using tree_insert(2) [OF T, of "rb_new T" "[]" "[]" s0] T rb_iter_new [of va_start T] by (simp add: tree_ok_def)
  then have areas: "cm_areas T cm = [s0, s1]"
    using tree_insert(2) [OF T, of "fst (rb_insert T (rb_new T) s0)" "[s0]" "[]" s1] s by (simp add: cm cm_areas_def apart_simps)
  have ca: "chunk_areas ?rg [s0, s1]" using s b by (simp add: chunk_areas_def apart_simps)
  have pr: "proper ?rg" using b by (simp add: proper_def)
  then have "free_ok [?rg] (VMRange_size ?rg)" by (simp add: free_ok_def fl_inv_def VMRange_size_card proper_ok)
  then show "cm_inv T cm" using ca pr al s areas by (simp add: cm_inv_def cm FreeSpace_new_def addrs_def)
  show "cm_range cm = ?rg" "view (cm_areas T cm) a = None" "ChunkManager_is_empty T cm"
    using s areas by (simp_all add: cm ChunkManager_is_empty_def addrs_def)
qed

lemma drop_ok:
  assumes "cm_inv T cm" "ChunkManager_is_empty T cm"
  shows "ChunkManager_drop T cm = Ok ()"
proof -
  have c: "chunk_areas (cm_range cm) (cm_areas T cm)" "length (cm_areas T cm) = 2" "proper (cm_range cm)"
    using assms by (simp_all add: cm_inv_def ChunkManager_is_empty_def)
  obtain s0 vs s1 where "cm_areas T cm = s0 # vs @ [s1]" "va_range s0 = mk_range (r_start (cm_range cm)) (r_start (cm_range cm))"
    "va_range s1 = mk_range (r_end (cm_range cm)) (r_end (cm_range cm))" "apart_areas (s0 # vs @ [s1])" "\<forall>v \<in> set vs. area_ok v"
    by (rule chunk_areasE [OF c(1)])
  then have "area_set (cm_areas T cm) = {}" using c(2) by (simp add: addrs_def)
  then have "free_set (cm_free_manager cm) = addrs (cm_range cm)" "fl_inv (cm_free_manager cm)" "cm_free_size cm = card (free_set (cm_free_manager cm))"
    using assms(1) by (simp_all add: cm_inv_def free_ok_def)
  then show ?thesis
    using assms(2) c(3) by (simp add: ChunkManager_drop_def free_size_card VMRange_size_card proper_ok)
qed

section \<open>Page faults\<close>

lemma same_area_refl: "same_area v v"
  by (simp add: same_area_def)

lemma same_area_trans: "same_area x y \<Longrightarrow> same_area y z \<Longrightarrow> same_area x z"
  by (simp add: same_area_def)

lemma page_fault_memory_same: "init_memory_internal env vma r None w = (Ok v, w') \<Longrightarrow> same_area v vma"
  by (auto simp: init_memory_internal_def init_memory_for_page_fault_def same_area_def Let_def split: option.splits res.splits prod.splits)

lemma commit_once_loop_same:
  assumes "commit_once_loop env a vma rs n w = (Ok (v, m), w')"
  shows "same_area v vma"
  using assms
proof (induction rs arbitrary: vma n w)
  case (Cons r rs)
  obtain q v1 w1 t where "init_memory_internal env vma q None w = (Ok v1, w1)"
    "(if t \<ge> COMMIT_SIZE_UNIT then act_return (v1, t) else commit_once_loop env a v1 rs t) w1 = (Ok (v, m), w')"
    using Cons.prems by (simp only: commit_once_loop.simps Let_def) (erule act_bind_OkE, rule that)
  then show ?case using Cons.IH [of v1 t w1] page_fault_memory_same [of env vma q w v1 w1] same_area_trans
    by (auto simp: act_return_def split: if_splits)
qed (simp add: act_return_def same_area_refl)

lemma commit_all_loop_same:
  assumes "commit_all_loop env vma rs w = (Ok v, w')"
  shows "same_area v vma"
  using assms
proof (induction rs arbitrary: vma w)
  case (Cons r rs)
  obtain v1 w1 where "init_memory_internal env vma r None w = (Ok v1, w1)" "commit_all_loop env v1 rs w1 = (Ok v, w')"
    using Cons.prems by (auto simp: act_unwrap_def elim!: act_bind_OkE split: prod.splits res.splits)
  then show ?case using Cons.IH page_fault_memory_same same_area_trans by blast
qed (simp add: act_return_def same_area_refl)

lemma commit_whole_same: "commit_current_vma_whole env vma w = (Ok v, w') \<Longrightarrow> same_area v vma"
  by (auto simp: commit_current_vma_whole_def act_return_def same_area_def elim!: act_bind_OkE dest!: commit_all_loop_same)

lemma commit_once_same:
  assumes "act_unwrap (commit_once_for_page_fault env vma a) w = (Ok (v, n), w')"
  shows "same_area v vma"
  using assms
  by (auto simp: act_unwrap_def commit_once_for_page_fault_def act_return_def same_area_def
      elim!: act_bind_OkE dest!: commit_once_loop_same split: prod.splits res.splits option.splits if_splits)

lemma handle_page_fault_same: "VMArea_handle_page_fault env vma rip a c k w = (Ok v, w') \<Longrightarrow> same_area v vma"
  by (auto simp: VMArea_handle_page_fault_def act_return_def same_area_refl elim!: act_bind_OkE
      dest!: commit_whole_same commit_once_same split: if_splits) (simp_all add: same_area_def)

lemma replace_same:
  assumes inv: "cm_inv T cm" and "cm_areas T cm = xs @ v # ys" "cm_areas T cm' = xs @ v' # ys" "same_area v' v"
    and "cm_range cm' = cm_range cm" "cm_free_manager cm' = cm_free_manager cm" "cm_free_size cm' = cm_free_size cm"
  shows "cm_inv T cm' \<and> view (cm_areas T cm') = view (cm_areas T cm)"
proof -
  have r: "va_range v' = va_range v" "va_access v' = va_access v" using assms(4) by (simp_all add: same_area_def)
  have "chunk_areas (cm_range cm) (xs @ v # ys)" using inv assms(2) by (simp add: cm_inv_def)
  then have "chunk_areas (cm_range cm) (xs @ v' # ys)"
    using r by (cases xs; cases ys rule: rev_cases) (auto simp: chunk_areas_def apart_simps area_ok_def is_private_def butlast_append)
  moreover have "view (xs @ v' # ys) a = view (xs @ v # ys) a" for a
    using same_area_view [OF assms(4)] r by (simp add: view_append split: option.split)
  ultimately show ?thesis using inv r assms by (auto simp: cm_inv_def)
qed

lemma page_fault_keeps:
  assumes T: "tree_ok T" and inv: "cm_inv T cm"
    and out: "ChunkManager_handle_page_fault T env pid rip a c k (cm, w) = (res, (cm', w'))"
  shows "cm_inv T cm' \<and> cm_range cm' = cm_range cm \<and> view (cm_areas T cm') = view (cm_areas T cm)"
proof (cases "cm' = cm")
  case False
  obtain idx v' w1 where i: "rb_upper_bound T (cm_vmas cm) a = Some idx"
    and v': "VMArea_handle_page_fault env (cm_areas T cm ! idx) rip a c k w = (Ok v', w1)"
    and cm': "cm' = cm\<lparr>cm_vmas := rb_replace T (cm_vmas cm) idx v'\<rparr>"
    using out False
    by (auto simp: ChunkManager_handle_page_fault_def Let_def act_bind_def on_vm_def split: option.splits res.splits prod.splits if_splits)
  have ap: "apart_areas (rb_iter T (cm_vmas cm))" using inv chunk_areas_apart by (auto simp: cm_inv_def cm_areas_def)
  obtain xs v ys where x: "rb_iter T (cm_vmas cm) = xs @ v # ys" "length xs = idx"
    by (rule tree_upper_bound [OF T ap i]) 
  have "same_area v' v" using handle_page_fault_same [OF v'] x by (auto simp: cm_areas_def)
  then show ?thesis
    using replace_same [OF inv, of xs v ys cm' v'] tree_replace [OF T x(1), of v'] x by (simp add: cm' cm_areas_def)
qed (use inv in simp)

section \<open>Merging as a recursion over the areas\<close>

declare merge_loop.simps(2) [simp del]

fun keep_merged :: "VMArea \<Rightarrow> unit res \<times> VMArea list \<times> 's vm_world \<Rightarrow> unit res \<times> VMArea list \<times> 's vm_world" where
  "keep_merged a (res, vs, w) = (res, a # vs, w)"

fun merge_list :: "VMArea list \<Rightarrow> 's vm_world \<Rightarrow> unit res \<times> VMArea list \<times> 's vm_world" where
  "merge_list [] w = (Ok (), [], w)"
| "merge_list [a] w = (if va_size a = 0 then (Ok (), [a], w) else (Panic, [a], w))"
| "merge_list (a # b # vs) w =
     (if va_size a = 0 \<or> \<not> can_merge_vmas a b then keep_merged a (merge_list (b # vs) w)
      else case VMArea_set_end a (va_end b) w of
             (Ok a', w') \<Rightarrow> merge_list (a' # vs) w'
           | (Err e, w') \<Rightarrow> (Err e, a # b # vs, w')
           | (Panic, w') \<Rightarrow> (Panic, a # b # vs, w'))"

lemma merge_loop_list:
  assumes T: "tree_ok T" and "rb_iter T (cm_vmas cm) = pre @ vs" "length vs < rounds" "merge_list vs w = (res, vs', w')"
  shows "\<exists>t'. merge_loop T rounds (length pre) (cm, w) = (res, (cm\<lparr>cm_vmas := t'\<rparr>, w')) \<and> rb_iter T t' = pre @ vs'"
  using assms(2-)
proof (induction vs w arbitrary: pre cm rounds vs' rule: merge_list.induct)
  case (1 w)
  then show ?case by (cases rounds) (auto simp: merge_loop.simps(2) cm_areas_def intro!: exI [of _ "cm_vmas cm"])
next
  case (2 a w)
  then obtain k where "rounds = Suc (Suc k)" by (metis One_nat_def Suc_less_eq2 length_Cons list.size(3) less_imp_Suc_add add_Suc)
  then show ?case
    using 2 by (auto simp: merge_loop.simps(2) cm_areas_def Let_def split: if_splits intro!: exI [of _ "cm_vmas cm"])
next
  case (3 a b vs w)
  obtain k where k: "rounds = Suc k" "length (b # vs) < k" using 3(4) by (cases rounds) auto
  have at: "cm_areas T cm ! length pre = a" "cm_areas T cm ! Suc (length pre) = b" "Suc (length pre) < length (cm_areas T cm)"
    using 3(3) by (simp_all add: cm_areas_def nth_append)
  show ?case
  proof (cases "va_size a = 0 \<or> \<not> can_merge_vmas a b")
    case True
    obtain vs'' where l: "merge_list (b # vs) w = (res, vs'', w')" "vs' = a # vs''"
      using 3(5) True by (cases "merge_list (b # vs) w") auto
    have "\<exists>t'. merge_loop T k (length (pre @ [a])) (cm, w) = (res, (cm\<lparr>cm_vmas := t'\<rparr>, w')) \<and> rb_iter T t' = (pre @ [a]) @ vs''"
      by (rule 3(1) [OF True]) (use 3 k l in auto)
    then show ?thesis using True at k(1) l(2) by (auto simp: merge_loop.simps(2) Let_def)
  next
    case False
    obtain m w1 where m: "VMArea_set_end a (va_end b) w = (m, w1)" by (cases "VMArea_set_end a (va_end b) w")
    show ?thesis
    proof (cases m)
      case (Ok a')
      let ?t = "rb_remove T (rb_replace T (cm_vmas cm) (length pre) a') (Suc (length pre))"
      have t: "rb_iter T (rb_replace T (cm_vmas cm) (length pre) a') = (pre @ [a']) @ b # vs" using tree_replace [OF T 3(3)] by simp
      have "rb_iter T ?t = pre @ a' # vs" using tree_remove [OF T t] by simp
      then have "\<exists>t'. merge_loop T k (length pre) (cm\<lparr>cm_vmas := ?t\<rparr>, w1) = (res, (cm\<lparr>cm_vmas := ?t\<rparr>\<lparr>cm_vmas := t'\<rparr>, w')) \<and> rb_iter T t' = pre @ vs'"
        by (intro 3(2) [OF False m [symmetric] Ok]) (use 3(5) False m Ok k in auto)
      then show ?thesis using False at k(1) m Ok by (auto simp: merge_loop.simps(2) Let_def act_bind_def on_vm_def)
    qed (use 3(3,5) False m at k(1) in \<open>auto simp: merge_loop.simps(2) Let_def act_bind_def on_vm_def intro!: exI [of _ "cm_vmas cm"]\<close>)
  qed
qed

text \<open>
  What merging keeps: permissions and owner of every address, and the position in a file where no area maps a file privately.
\<close>

definition meta_view :: "VMArea list \<Rightarrow> nat \<Rightarrow> (VMPerms \<times> VMAccess) option" where
  "meta_view vs a = map_option (\<lambda>(p, ac, _). (p, ac)) (view vs a)"

definition no_private_files :: "VMArea list \<Rightarrow> bool" where
  "no_private_files vs \<longleftrightarrow> (\<forall>v \<in> set vs. \<forall>f. va_file_backed v = Some f \<longrightarrow> fb_write_back f)"

definition merged :: "VMArea list \<Rightarrow> VMArea list \<Rightarrow> bool" where
  "merged vs vs' \<longleftrightarrow> area_set vs' = area_set vs \<and> meta_view vs' = meta_view vs \<and>
     (no_private_files vs \<longrightarrow> no_private_files vs' \<and> view vs' = view vs)"

lemma merged_refl: "merged vs vs"
  by (simp add: merged_def)

lemma merged_trans: "merged us vs \<Longrightarrow> merged vs ws \<Longrightarrow> merged us ws"
  by (simp add: merged_def)

lemma merged_Cons: "merged vs vs' \<Longrightarrow> merged (a # vs) (a # vs')"
  by (auto simp: merged_def meta_view_def no_private_files_def fun_eq_iff)

lemma set_end_Ok:
  assumes "VMArea_set_end a e w = (Ok a', w')"
  shows "va_range a' = mk_range (va_start a) e" "va_perms a' = va_perms a" "va_access a' = va_access a"
    "va_file_backed a' = va_file_backed a" "view_of a' x = view_of a x"
  using assms by (auto simp: VMArea_set_end_def VMRange_set_end_def Let_def act_return_def view_of_def elim!: act_bind_OkE split: if_splits)

lemma can_mergeD:
  assumes "can_merge_vmas a b"
  shows "va_end a = va_start b" "va_perms a = va_perms b" "va_access a = va_access b"
  using assms by (auto simp: can_merge_vmas_def split: option.splits elim!: get_private_pid.elims)

lemma merge_file:
  assumes m: "can_merge_vmas a b" and ok: "va_start a \<le> va_end a" "va_start b \<le> x"
    and wb: "\<forall>f. va_file_backed a = Some f \<longrightarrow> fb_write_back f" "\<forall>f. va_file_backed b = Some f \<longrightarrow> fb_write_back f"
  shows "view_of a x = view_of b x"
proof (cases "va_file_backed a")
  case None
  then have "va_file_backed b = None"
    using m wb(2) by (auto simp: can_merge_vmas_def VMArea_writeback_file_def FileBacked_writeback_file_def split: option.splits if_splits)
  then show ?thesis using None can_mergeD [OF m] by (simp add: view_of_def)
next
  case (Some f)
  then obtain g where g: "va_file_backed b = Some g" "fb_file g = fb_file f" "fb_offset f < fb_offset g"
      "usub (fb_offset g) (fb_offset f) = va_size a"
    using m wb by (auto simp: can_merge_vmas_def VMArea_writeback_file_def FileBacked_writeback_file_def split: option.splits if_splits)
  have "usub (fb_offset g) (fb_offset f) = fb_offset g - fb_offset f" "va_size a = va_end a - va_start a"
    "usub x (va_start a) = x - va_start a" "usub x (va_start b) = x - va_start b"
    using g(3) ok can_mergeD(1) [OF m] by (simp_all add: usub_def VMRange_size_def)
  then have "fb_offset f + usub x (va_start a) = fb_offset g + usub x (va_start b)"
    using g(3,4) ok can_mergeD(1) [OF m] by simp
  then show ?thesis using Some g wb can_mergeD [OF m] by (simp add: view_of_def uadd_def)
qed

lemma merge_step:
  assumes m: "can_merge_vmas a b" and e: "VMArea_set_end a (va_end b) w = (Ok a', w')" and ok: "area_ok a" "area_ok b"
  shows "area_ok a'" "merged (a # b # vs) (a' # vs)" "apart_areas (a # b # vs) \<Longrightarrow> apart_areas (a' # vs)"
proof -
  note s = set_end_Ok [OF e] and c = can_mergeD [OF m]
  have o: "va_start a < va_end a" "va_start b < va_end b" using ok by (simp_all add: area_ok_def)
  show "area_ok a'" using ok s c by (auto simp: area_ok_def is_private_def page_aligned_def)
  show "apart_areas (a' # vs)" if "apart_areas (a # b # vs)" using that o s c by (auto simp: apart_simps)
  have set: "addrs (va_range a') = addrs (va_range a) \<union> addrs (va_range b)" using o s c by (auto simp: range_simps)
  have "meta_view (a' # vs) x = meta_view (a # b # vs) x" for x
    using set s(2,3) c(2,3) by (simp add: meta_view_def view_of_def)
  moreover have "view (a' # vs) x = view (a # b # vs) x" if "no_private_files (a # b # vs)" for x
    using set s(5) [of x] merge_file [OF m, of x] o that by (auto simp: no_private_files_def range_simps)
  ultimately show "merged (a # b # vs) (a' # vs)"
    using set s(4) by (auto simp: merged_def fun_eq_iff no_private_files_def)
qed

definition merge_done :: "VMArea \<Rightarrow> VMArea list \<Rightarrow> VMArea list \<Rightarrow> bool" where
  "merge_done s us vs' \<longleftrightarrow> (\<exists>us'. vs' = us' @ [s] \<and> (\<forall>u \<in> set us'. area_ok u)) \<and> apart_areas vs' \<and> merged (us @ [s]) vs' \<and>
     (\<forall>x \<in> set vs'. \<exists>u \<in> set (us @ [s]). va_start u \<le> va_start x)"

lemma merge_done_Cons:
  assumes d: "merge_done s us vs'" and a: "area_ok a" and ap: "apart_areas (a # us @ [s])"
  shows "merge_done s (a # us) (a # vs')"
  unfolding merge_done_def
proof (intro conjI)
  obtain us' where "vs' = us' @ [s]" "\<forall>u \<in> set us'. area_ok u" using d by (auto simp: merge_done_def)
  then show "\<exists>us'. a # vs' = us' @ [s] \<and> (\<forall>u \<in> set us'. area_ok u)" using a by (intro exI [of _ "a # us'"]) simp
  have low: "\<forall>x \<in> set vs'. \<exists>u \<in> set (us @ [s]). va_start u \<le> va_start x"
    using d unfolding merge_done_def by blast
  then show "\<forall>x \<in> set (a # vs'). \<exists>u \<in> set ((a # us) @ [s]). va_start u \<le> va_start x" by auto
  have ap': "va_start a \<le> va_end a" "\<forall>u \<in> set (us @ [s]). va_end a \<le> va_start u"
    using ap unfolding apart_areas_Cons by blast+
  then have "\<forall>x \<in> set vs'. va_end a \<le> va_start x" using low order_trans by blast
  then show "apart_areas (a # vs')" using ap'(1) d unfolding apart_areas_Cons merge_done_def by blast
  show "merged ((a # us) @ [s]) (a # vs')" using d merged_Cons unfolding merge_done_def append_Cons by blast
qed

lemma merge_list_spec:
  assumes "va_size s = 0" "\<forall>u \<in> set us. area_ok u" "apart_areas (us @ [s])"
  shows "merge_done s us (fst (snd (merge_list (us @ [s]) w)))"
  using assms(2,3)
proof (induction us arbitrary: w rule: length_induct)
  case (1 us)
  have keep: "fst (snd (keep_merged a out)) = a # fst (snd out)" for a and out :: "unit res \<times> VMArea list \<times> 'a vm_world"
    by (cases out) simp
  show ?case
  proof (cases us)
    case Nil
    then show ?thesis using assms(1) 1 by (simp add: merge_done_def merged_refl)
  next
    case (Cons a us1)
    have a: "area_ok a" "va_size a \<noteq> 0" using 1(2) Cons by (auto simp: area_ok_def VMRange_size_def usub_def)
    have go: "merge_done s (a # us1) (a # fst (snd (merge_list (us1 @ [s]) w)))"
      by (rule merge_done_Cons [OF _ a(1)]; (rule 1(1) [rule_format])?) (use 1(2,3) Cons in \<open>simp_all add: apart_areas_Cons [of a]\<close>)
    show ?thesis
    proof (cases us1)
      case Nil
      have "\<not> can_merge_vmas a s" using assms(1) by (simp add: can_merge_vmas_def)
      then show ?thesis using go Cons Nil a by (simp add: keep)
    next
      case (Cons b us2)
      have us: "us = a # b # us2" using \<open>us = a # us1\<close> Cons by simp
      have b: "area_ok b" using 1(2) us by simp
      obtain m w1 where m: "VMArea_set_end a (va_end b) w = (m, w1)" by (cases "VMArea_set_end a (va_end b) w")
      show ?thesis
      proof (cases "can_merge_vmas a b")
        case True
        have stop: "merge_done s us (us @ [s])" using 1(2,3) by (auto simp: merge_done_def merged_refl)
        show ?thesis
        proof (cases m)
          case (Ok a')
          note ms = merge_step [OF True m [unfolded Ok] a(1) b]
          have d: "merge_done s (a' # us2) (fst (snd (merge_list ((a' # us2) @ [s]) w1)))"
            by (rule 1(1) [rule_format]) (use 1(2,3) us ms(1) ms(3) [of "us2 @ [s]"] in auto)
          have "va_start a' = va_start a" using set_end_Ok(1) [OF m [unfolded Ok]] by simp
          then show ?thesis
            using d True us m Ok a(2) merged_trans [OF ms(2) [of "us2 @ [s]"]] by (auto simp: merge_done_def)
        qed (use stop True us m a(2) in \<open>auto simp: keep\<close>)
      next
        case False
        then show ?thesis using go us Cons \<open>us = a # us1\<close> by (simp add: keep)
      qed
    qed
  qed
qed

lemma merge_keeps:
  assumes T: "tree_ok T" and inv: "cm_inv T cm" and out: "merge_all_vmas T (cm, w) = (res, (cm', w'))"
  shows "cm_inv T cm' \<and> cm_range cm' = cm_range cm \<and> merged (cm_areas T cm) (cm_areas T cm')"
proof -
  have ca: "chunk_areas (cm_range cm) (cm_areas T cm)" using inv by (simp add: cm_inv_def)
  obtain s0 us s1 where c: "cm_areas T cm = s0 # us @ [s1]" "va_range s0 = mk_range (r_start (cm_range cm)) (r_start (cm_range cm))"
    "va_range s1 = mk_range (r_end (cm_range cm)) (r_end (cm_range cm))" "apart_areas (s0 # us @ [s1])" "\<forall>v \<in> set us. area_ok v"
    by (rule chunk_areasE [OF ca])
  have z: "va_size s0 = 0" "va_size s1 = 0" using c(2,3) by (simp_all add: VMRange_size_def usub_def)
  have ap: "apart_areas (us @ [s1])" "\<forall>u \<in> set (us @ [s1]). va_end s0 \<le> va_start u"
    using c(4) unfolding apart_areas_Cons by blast+
  note d = merge_list_spec [OF z(2) c(5) ap(1), of w]
  obtain res1 vs1 w1 where l: "merge_list (us @ [s1]) w = (res1, vs1, w1)" by (metis prod_cases3)
  obtain us' where us': "vs1 = us' @ [s1]" "\<forall>u \<in> set us'. area_ok u" "apart_areas vs1" "merged (us @ [s1]) vs1"
    "\<forall>x \<in> set vs1. \<exists>u \<in> set (us @ [s1]). va_start u \<le> va_start x"
    using d l by (auto simp: merge_done_def)
  have "merge_list (cm_areas T cm) w = (res1, s0 # vs1, w1)"
    using l z(1) by (cases us) (simp_all add: c(1))
  then obtain t' where "merge_loop T (2 * length (cm_areas T cm) + 1) (length ([] :: VMArea list)) (cm, w) = (res1, (cm\<lparr>cm_vmas := t'\<rparr>, w1))"
    "rb_iter T t' = s0 # vs1"
    using merge_loop_list [OF T, of cm "[]" "cm_areas T cm" "2 * length (cm_areas T cm) + 1" w] by (auto simp: cm_areas_def)
  then have r: "cm_areas T cm' = s0 # vs1" "cm_range cm' = cm_range cm" "cm_free_manager cm' = cm_free_manager cm" "cm_free_size cm' = cm_free_size cm"
    using out by (auto simp: merge_all_vmas_def cm_areas_def)
  have "\<forall>x \<in> set vs1. va_end s0 \<le> va_start x" using us'(5) ap(2) order_trans by blast
  then have "apart_areas (s0 # vs1)" using us'(3) c(2) by (simp add: apart_areas_Cons [of s0])
  then have "chunk_areas (cm_range cm) (s0 # vs1)" using us'(1,2) c(2,3) by (simp add: chunk_areasI)
  moreover have "merged (cm_areas T cm) (s0 # vs1)" unfolding c(1) by (rule merged_Cons [OF us'(4)])
  ultimately show ?thesis using inv r by (auto simp: cm_inv_def merged_def)
qed

end
