(* ===== verification/ChunkProtect.thy ===== *)
theory ChunkProtect
  imports ChunkMap
begin

text \<open>
  Changing permissions keeps the invariant of a chunk and changes exactly the permissions of the
  process's addresses in the range; the loop over the areas is a recursion over their list.
\<close>

section \<open>Changing permissions as a recursion over the areas\<close>

definition protect_view :: "pid_t \<Rightarrow> VMRange \<Rightarrow> VMPerms \<Rightarrow> VMArea list \<Rightarrow> nat \<Rightarrow> addr_view option" where
  "protect_view pid r p vs a = map_option (\<lambda>(q, ac, f). (if gone pid r vs a then p else q, ac, f)) (view vs a)"

definition protected :: "pid_t \<Rightarrow> VMRange \<Rightarrow> VMPerms \<Rightarrow> VMArea list \<Rightarrow> VMArea list \<Rightarrow> bool" where
  "protected pid r p vs vs' \<longleftrightarrow> (\<forall>a. view vs' a = protect_view pid r p vs a)"

definition partly_protected :: "pid_t \<Rightarrow> VMRange \<Rightarrow> VMPerms \<Rightarrow> VMArea list \<Rightarrow> VMArea list \<Rightarrow> bool" where
  "partly_protected pid r p vs vs' \<longleftrightarrow> (\<forall>a. view vs' a = view vs a \<or> view vs' a = protect_view pid r p vs a)"

text \<open>The areas an area is replaced with.\<close>

definition protect_two_areas ::
  "'s vm_env \<Rightarrow> pid_t \<Rightarrow> VMRange \<Rightarrow> VMPerms \<Rightarrow> VMArea \<Rightarrow> VMArea \<Rightarrow> ('s vm_world, VMArea list) act" where
  "protect_two_areas env pid i p v remain =
     act_bind (act_lift (inherits_file_from env v i p (PrivateTo pid))) (\<lambda>new_vma.
     act_bind (modify_permissions_for_committed_pages env new_vma (va_perms v) p) (\<lambda>_.
     act_bind (if va_start remain = va_start v then VMArea_set_end v (va_end remain) else VMArea_set_start v (va_start remain)) (\<lambda>v'.
     act_return (if va_start remain = va_start v then [v', new_vma] else [new_vma, v']))))"

definition protect_three_areas ::
  "'s vm_env \<Rightarrow> pid_t \<Rightarrow> VMRange \<Rightarrow> VMPerms \<Rightarrow> VMArea \<Rightarrow> ('s vm_world, VMArea list) act" where
  "protect_three_areas env pid r p v =
     act_bind (act_lift (inherits_file_from env v r p (PrivateTo pid))) (\<lambda>new_vma.
     act_bind (modify_permissions_for_committed_pages env new_vma (va_perms v) p) (\<lambda>_.
     act_bind (act_lift (unwrap_res (VMRange_new (r_end r) (va_end v)))) (\<lambda>right_range.
     act_bind (act_lift (inherits_file_from env v right_range (va_perms v) (PrivateTo pid))) (\<lambda>new_vma2.
     act_bind (VMArea_set_end v (r_start r)) (\<lambda>v'.
     act_return [v', new_vma, new_vma2])))))"

text \<open>What a round does: end the loop, go on, or replace the area and go on or end.\<close>

datatype 's protect_round = PStop "unit res" "'s vm_world" | PSkip | PCut "VMArea list" bool "'s vm_world"

fun cut_round :: "bool \<Rightarrow> VMArea list res \<times> 's vm_world \<Rightarrow> 's protect_round" where
  "cut_round stop (Ok ps, w) = PCut ps stop w"
| "cut_round stop (Err e, w) = PStop (Err e) w"
| "cut_round stop (Panic, w) = PStop Panic w"

definition protect_denied :: "'s vm_env \<Rightarrow> VMPerms \<Rightarrow> VMArea \<Rightarrow> bool" where
  "protect_denied env p i = (case VMArea_writeback_file i of
     Some (file_ref, _) \<Rightarrow> \<not> fo_writable (ve_files env) file_ref \<and> perms_contains p PERM_WRITE | None \<Rightarrow> False)"

definition protect_areas ::
  "'s vm_env \<Rightarrow> pid_t \<Rightarrow> VMRange \<Rightarrow> VMPerms \<Rightarrow> VMArea \<Rightarrow> VMArea \<Rightarrow> 's vm_world \<Rightarrow> 's protect_round" where
  "protect_areas env pid r p v i w =
     (if va_range i = va_range v then
        cut_round False (act_bind (modify_permissions_for_committed_pages env (v\<lparr>va_perms := p\<rparr>) (va_perms v) p)
          (\<lambda>_. act_return [v\<lparr>va_perms := p\<rparr>]) w)
      else case res_list (VMArea_subtract env v (va_range i)) of
             Ok [remain] \<Rightarrow> cut_round False (protect_two_areas env pid (va_range i) p v remain w)
           | Ok [_, _] \<Rightarrow> cut_round True (protect_three_areas env pid r p v w)
           | _ \<Rightarrow> PStop Panic w)"

definition protect_at :: "'s vm_env \<Rightarrow> pid_t \<Rightarrow> VMRange \<Rightarrow> VMPerms \<Rightarrow> VMArea \<Rightarrow> 's vm_world \<Rightarrow> 's protect_round" where
  "protect_at env pid r p v w =
     (if \<not> va_start v \<le> r_end r then PStop (Ok ()) w
      else if \<not> belong_to v pid \<or> p = va_perms v then PSkip
      else case VMArea_intersect env v r of
             Err e \<Rightarrow> PStop (Err e) w
           | Panic \<Rightarrow> PStop Panic w
           | Ok None \<Rightarrow> PSkip
           | Ok (Some i) \<Rightarrow> if protect_denied env p i then PStop (Err EACCES) w else protect_areas env pid r p v i w)"

fun keep_protected :: "VMArea list \<Rightarrow> unit res \<times> VMArea list \<times> 's vm_world \<Rightarrow> unit res \<times> VMArea list \<times> 's vm_world" where
  "keep_protected ps (res, vs, w) = (res, ps @ vs, w)"

fun protect_list :: "'s vm_env \<Rightarrow> pid_t \<Rightarrow> VMRange \<Rightarrow> VMPerms \<Rightarrow> VMArea list \<Rightarrow> 's vm_world \<Rightarrow> unit res \<times> VMArea list \<times> 's vm_world" where
  "protect_list env pid r p [] w = (Ok (), [], w)"
| "protect_list env pid r p (v # vs) w =
     (case protect_at env pid r p v w of
        PStop res w' \<Rightarrow> (res, v # vs, w')
      | PSkip \<Rightarrow> keep_protected [v] (protect_list env pid r p vs w)
      | PCut ps stop w' \<Rightarrow> if stop then (Ok (), ps @ vs, w') else keep_protected ps (protect_list env pid r p vs w'))"

section \<open>The areas of a cut\<close>

text \<open>The areas replacing one: its parts in order, with the permissions of the cut range changed.\<close>

definition protects :: "pid_t \<Rightarrow> VMRange \<Rightarrow> VMPerms \<Rightarrow> VMArea \<Rightarrow> VMArea list \<Rightarrow> bool" where
  "protects pid r p v ps \<longleftrightarrow> apart_areas ps \<and> parts_of r ps [v] \<and> area_set ps = addrs (va_range v) \<and> protected pid r p [v] ps"

lemma set_start_Ok:
  assumes "VMArea_set_start v s w = (Ok v', w')" "va_start v < s" "s \<le> a"
  shows "va_range v' = mk_range s (va_end v)" "va_perms v' = va_perms v" "va_access v' = va_access v" "view_of v' a = view_of v a"
proof -
  have "va_range v' = mk_range s (va_end v) \<and> va_perms v' = va_perms v \<and> va_access v' = va_access v \<and>
      va_file_backed v' = map_option (\<lambda>f. set_file_offset f s (va_start v)) (va_file_backed v)"
    using assms(1,2) by (auto simp: VMArea_set_start_def VMRange_set_start_def Let_def act_return_def elim!: act_bind_OkE)
  then show "va_range v' = mk_range s (va_end v)" "va_perms v' = va_perms v" "va_access v' = va_access v" "view_of v' a = view_of v a"
    using assms(2,3) uadd_split [of "va_start v" s a]
    by (simp_all add: view_of_def option.map_comp comp_def set_file_offset_def)
qed

lemma view_in: "view ps a = Some s \<Longrightarrow> \<exists>x \<in> set ps. a \<in> addrs (va_range x) \<and> s = view_of x a"
  by (induction ps) (auto split: if_splits)

definition piece_ok :: "VMRange \<Rightarrow> VMPerms \<Rightarrow> VMArea \<Rightarrow> VMArea \<Rightarrow> bool" where
  "piece_ok r p v x \<longleftrightarrow> part_of_area r x v \<and>
     (\<forall>a \<in> addrs (va_range x). view_of x a = (if a \<in> addrs r then p else va_perms v, va_access v, snd (snd (view_of v a))))"

lemma protectsI:
  assumes ps: "\<forall>x \<in> set ps. piece_ok r p v x" and ap: "apart_areas ps" "area_set ps = addrs (va_range v)" and b: "belong_to v pid"
  shows "protects pid r p v ps"
proof -
  have "view ps a = protect_view pid r p [v] a" for a
  proof (cases "view ps a")
    case None
    then show ?thesis using view_None [of ps a] ap(2) by (simp add: protect_view_def)
  next
    case (Some s)
    then obtain x where x: "x \<in> set ps" "a \<in> addrs (va_range x)" "s = view_of x a" using view_in by blast
    then have "a \<in> addrs (va_range v)" using ap(2) by (auto simp: area_set_def)
    moreover have "s = (if a \<in> addrs r then p else va_perms v, va_access v, snd (snd (view_of v a)))"
      using ps x by (simp add: piece_ok_def)
    ultimately show ?thesis using Some b by (simp add: protect_view_def view_of_def)
  qed
  moreover have "parts_of r ps [v]" using ps by (simp add: parts_of_def piece_ok_def)
  ultimately show ?thesis using ap by (simp add: protects_def protected_def)
qed

lemma piece_inherits:
  assumes "inherits_file_from env v q q' (va_access v) = Ok x" "va_start v \<le> r_start q" "r_start q < r_end q" "r_end q \<le> va_end v"
    and "page_aligned (va_range v) \<and> page_aligned r \<Longrightarrow> page_aligned q"
    and "(q' = p \<and> addrs q \<subseteq> addrs r) \<or> (q' = va_perms v \<and> addrs q \<inter> addrs r = {})"
  shows "piece_ok r p v x"
  using assms inherits_simps [OF assms(1)] inherits_view [OF assms(1,2)] by (auto simp: piece_ok_def part_of_area_def)

lemma piece_kept:
  assumes "va_access x = va_access v" "\<forall>a \<in> addrs (va_range x). view_of x a = view_of v a"
    and "va_start v \<le> va_start x" "va_start x < va_end x" "va_end x \<le> va_end v"
    and "page_aligned (va_range v) \<and> page_aligned r \<Longrightarrow> page_aligned (va_range x)" "addrs (va_range x) \<inter> addrs r = {}"
  shows "piece_ok r p v x"
  using assms by (auto simp: piece_ok_def part_of_area_def) (auto simp: view_of_def)

text \<open>The outcome of a round that replaces the area.\<close>

lemma cut_round_PCut: "cut_round stop' out = PCut ps stop w' \<longleftrightarrow> out = (Ok ps, w') \<and> stop = stop'"
  by (cases out; cases "fst out") auto

lemma outer_one:
  assumes i: "VMRange_intersect rv r = Some i" and q: "outer_ranges rv i = [q]"
  obtains (left) "r_start rv < r_start i" "r_end i = r_end rv" "q = mk_range (r_start rv) (r_start i)" "r_start q = r_start rv"
  | (right) "r_start i = r_start rv" "r_end i < r_end rv" "q = mk_range (r_end i) (r_end rv)" "r_start rv < r_start q"
  using q VMRange_intersect_Some [OF i] by (auto simp: outer_ranges_def split: if_splits)

lemma two_left:
  fixes w :: "'s vm_world"
  assumes out: "protect_two_areas env pid i p v remain w = (Ok ps, w')"
    and i: "VMRange_intersect (va_range v) r = Some i" and acc: "va_access v = PrivateTo pid"
    and q: "va_start v < r_start i" "r_end i = va_end v" "va_range remain = mk_range (va_start v) (r_start i)"
  obtains x n where "ps = [x, n]" "va_perms n = p" "va_range x = mk_range (va_start v) (r_start i)" "va_range n = i" "protects pid r p v ps"
proof -
  obtain n x and w1 w2 :: "'s vm_world" where n: "inherits_file_from env v i p (PrivateTo pid) = Ok n" and x: "VMArea_set_end v (r_start i) w1 = (Ok x, w2)" and ps: "ps = [x, n]"
    using out q by (auto simp: protect_two_areas_def act_return_def elim!: act_bind_OkE)
  note ib = VMRange_intersect_Some [OF i] and ns = inherits_simps [OF n] and xs = set_end_Ok [OF x]
  have al: "page_aligned (va_range v) \<and> page_aligned r \<Longrightarrow> page_aligned i" using VMRange_intersect_aligned [OF i] by blast
  have n_ok: "piece_ok r p v n"
    by (rule piece_inherits [OF n [folded acc]]) (use ib al q in simp_all)
  have x_r: "addrs (va_range x) \<inter> addrs r = {}"
    using outer_disjoint [OF i, of "va_range x"] q xs(1) by (simp add: outer_ranges_def)
  have x_ok: "piece_ok r p v x"
    by (rule piece_kept) (use ib q xs al x_r in \<open>simp_all add: page_aligned_def\<close>)
  have "r_start i < r_end i" using ib by simp
  then have "protects pid r p v ps"
    using n_ok x_ok q xs(1) ns(1) acc by (intro protectsI) (auto simp: ps apart_simps range_simps belong_to_def)
  then show thesis using that ps ns xs(1) by auto
qed

lemma two_right:
  fixes w :: "'s vm_world"
  assumes out: "protect_two_areas env pid i p v remain w = (Ok ps, w')"
    and i: "VMRange_intersect (va_range v) r = Some i" and acc: "va_access v = PrivateTo pid"
    and q: "r_start i = va_start v" "r_end i < va_end v" "va_range remain = mk_range (r_end i) (va_end v)"
  obtains n x where "ps = [n, x]" "va_range n = i" "va_range x = mk_range (r_end i) (va_end v)" "protects pid r p v ps"
proof -
  note ib = VMRange_intersect_Some [OF i]
  obtain n x and w1 w2 :: "'s vm_world" where n: "inherits_file_from env v i p (PrivateTo pid) = Ok n" and x: "VMArea_set_start v (r_end i) w1 = (Ok x, w2)" and ps: "ps = [n, x]"
    using out q ib by (auto simp: protect_two_areas_def act_return_def elim!: act_bind_OkE)
  have gt: "va_start v < r_end i" using ib q by simp
  note ns = inherits_simps [OF n] and xs = set_start_Ok [OF x gt]
  have al: "page_aligned (va_range v) \<and> page_aligned r \<Longrightarrow> page_aligned i" using VMRange_intersect_aligned [OF i] by blast
  have n_ok: "piece_ok r p v n"
    by (rule piece_inherits [OF n [folded acc]]) (use ib al q in simp_all)
  have x_r: "addrs (va_range x) \<inter> addrs r = {}"
    using outer_disjoint [OF i, of "va_range x"] q xs(1) [OF order_refl] by (simp add: outer_ranges_def)
  have x_ok: "piece_ok r p v x"
    by (rule piece_kept) (use q gt xs(1-3) [OF order_refl] xs(4) al x_r in \<open>simp_all add: page_aligned_def range_simps\<close>)
  have "r_start i < r_end i" using ib by simp
  then have "protects pid r p v ps"
    using n_ok x_ok q xs(1) [OF order_refl] ns(1) acc by (intro protectsI) (auto simp: ps apart_simps range_simps belong_to_def)
  then show thesis using that ps ns xs(1) [OF order_refl] by auto
qed

lemma outer_two:
  assumes i: "VMRange_intersect rv r = Some i" and q: "outer_ranges rv i = [q1, q2]"
  shows "i = r" "r_start rv < r_start r" "r_end r < r_end rv" "r_start r < r_end r"
  using q i by (auto simp: outer_ranges_def VMRange_intersect_def VMRange_from_unchecked_def Let_def max_def min_def split: if_splits)

lemma three_areas:
  fixes w :: "'s vm_world"
  assumes out: "protect_three_areas env pid r p v w = (Ok ps, w')" and acc: "va_access v = PrivateTo pid"
    and q: "va_start v < r_start r" "r_start r < r_end r" "r_end r < va_end v"
  obtains x n y where "ps = [x, n, y]" "va_range x = mk_range (va_start v) (r_start r)" "va_range n = r" "va_range y = mk_range (r_end r) (va_end v)"
    "protects pid r p v ps"
proof -
  obtain n x y and w1 w2 :: "'s vm_world" where n: "inherits_file_from env v r p (PrivateTo pid) = Ok n" and x: "VMArea_set_end v (r_start r) w1 = (Ok x, w2)"
    and y: "inherits_file_from env v (mk_range (r_end r) (va_end v)) (va_perms v) (PrivateTo pid) = Ok y" and ps: "ps = [x, n, y]"
    using out by (auto simp: protect_three_areas_def act_return_def unwrap_res_def VMRange_new_def elim!: act_bind_OkE split: if_splits)
  note ns = inherits_simps [OF n] and ys = inherits_simps [OF y] and xs = set_end_Ok [OF x]
  have n_ok: "piece_ok r p v n"
    by (rule piece_inherits [OF n [folded acc]]) (use q in auto)
  have y_ok: "piece_ok r p v y"
    by (rule piece_inherits [OF y [folded acc]]) (use q in \<open>auto simp: page_aligned_def range_simps\<close>)
  have x_ok: "piece_ok r p v x"
    by (rule piece_kept) (use q xs in \<open>auto simp: page_aligned_def range_simps\<close>)
  have "protects pid r p v ps"
    using n_ok x_ok y_ok q xs(1) ns(1) ys(1) acc by (intro protectsI) (auto simp: ps apart_simps range_simps belong_to_def)
  then show thesis using that ps ns(1) xs(1) ys(1) by auto
qed

lemma full_area:
  assumes i: "VMRange_intersect (va_range v) r = Some (va_range v)" and b: "belong_to v pid"
  shows "protects pid r p v [v\<lparr>va_perms := p\<rparr>]"
proof -
  have "addrs (va_range v) \<subseteq> addrs r" "va_start v < va_end v" using VMRange_intersect_Some [OF i] by auto
  then show ?thesis
    using b by (intro protectsI) (auto simp: piece_ok_def part_of_area_def apart_simps view_of_def)
qed

section \<open>The loop over the areas\<close>

declare mprotect_loop.simps(2) [simp del]

lemma mprotect_two_run:
  "mprotect_two T env pid i p idx v remain (cm, w) =
     (case protect_two_areas env pid i p v remain w of
        (Ok ps, w') \<Rightarrow>
          (if va_start remain = va_start v
           then (case rb_insert T (rb_replace T (cm_vmas cm) idx (ps ! 0)) (ps ! 1) of
                   (t, q) \<Rightarrow> (Ok (Suc (if q \<le> idx then Suc idx else idx)), (cm\<lparr>cm_vmas := t\<rparr>, w')))
           else (case rb_insert T (rb_replace T (cm_vmas cm) idx (ps ! 1)) (ps ! 0) of
                   (t, q) \<Rightarrow> (Ok (Suc (if q \<le> idx then Suc idx else idx)), (cm\<lparr>cm_vmas := t\<rparr>, w'))))
      | (Err e, w') \<Rightarrow> (Err e, (cm, w'))
      | (Panic, w') \<Rightarrow> (Panic, (cm, w')))"
  by (auto simp: mprotect_two_def protect_two_areas_def act_bind_def on_vm_def act_return_def split: res.splits prod.splits)

lemma mprotect_three_run:
  "mprotect_three T env pid r p idx v (cm, w) =
     (case protect_three_areas env pid r p v w of
        (Ok ps, w') \<Rightarrow>
          (Ok (), (cm\<lparr>cm_vmas := fst (rb_insert T (fst (rb_insert T (rb_replace T (cm_vmas cm) idx (ps ! 0)) (ps ! 1))) (ps ! 2))\<rparr>, w'))
      | (Err e, w') \<Rightarrow> (Err e, (cm, w'))
      | (Panic, w') \<Rightarrow> (Panic, (cm, w')))"
  by (auto simp: mprotect_three_def protect_three_areas_def act_bind_def on_vm_def act_return_def split: res.splits prod.splits)

lemma protect_round_eq:
  assumes "rb_iter T (cm_vmas cm) = pre @ v # vs" "va_start v \<le> r_end r"
  shows "mprotect_loop T env pid r p (Suc rounds) (length pre) (cm, w) =
    (if \<not> belong_to v pid \<or> p = va_perms v then mprotect_loop T env pid r p rounds (Suc (length pre)) (cm, w)
     else act_bind (act_lift (VMArea_intersect env v r)) (\<lambda>i. case i of
        None \<Rightarrow> mprotect_loop T env pid r p rounds (Suc (length pre))
      | Some i \<Rightarrow>
          if protect_denied env p i then act_lift (Err EACCES)
          else if va_range i = va_range v
          then act_bind (on_vm (modify_permissions_for_committed_pages env (v\<lparr>va_perms := p\<rparr>) (va_perms v) p)) (\<lambda>_.
            act_bind (cursor_replace_with T (length pre) (v\<lparr>va_perms := p\<rparr>)) (\<lambda>idx. mprotect_loop T env pid r p rounds (Suc idx)))
          else act_bind (act_lift (res_list (VMArea_subtract env v (va_range i)))) (\<lambda>remain_vmas.
            case remain_vmas of
              [remain_vma] \<Rightarrow> act_bind (mprotect_two T env pid (va_range i) p (length pre) v remain_vma) (\<lambda>idx.
                mprotect_loop T env pid r p rounds idx)
            | [_, _] \<Rightarrow> mprotect_three T env pid r p (length pre) v
            | _ \<Rightarrow> act_lift Panic)) (cm, w))"
  unfolding protect_denied_def using assms by (simp add: mprotect_loop.simps(2) cm_areas_def Let_def)

lemma protect_stop:
  assumes "rb_iter T (cm_vmas cm) = pre @ vs" "0 < rounds" "case vs of [] \<Rightarrow> True | v # _ \<Rightarrow> \<not> va_start v \<le> r_end r"
  shows "mprotect_loop T env pid r p rounds (length pre) (cm, w) = (Ok (), (cm, w))"
  using assms by (cases rounds; cases vs) (simp_all add: mprotect_loop.simps(2) cm_areas_def)

lemma cut_round_PStop: "cut_round stop out = PStop res w' \<longleftrightarrow> (\<exists>e. res = Err e \<and> out = (Err e, w')) \<or> res = Panic \<and> out = (Panic, w')"
  by (cases out; cases "fst out") auto

text \<open>The round at an area that the range meets.\<close>

definition areas_run ::
  "'t vma_tree \<Rightarrow> 's vm_env \<Rightarrow> pid_t \<Rightarrow> VMRange \<Rightarrow> VMPerms \<Rightarrow> nat \<Rightarrow> nat \<Rightarrow> VMArea \<Rightarrow> VMArea \<Rightarrow> ('t, 's, unit) chunk_act" where
  "areas_run T env pid r p rounds idx v i =
     (if va_range i = va_range v
      then act_bind (on_vm (modify_permissions_for_committed_pages env (v\<lparr>va_perms := p\<rparr>) (va_perms v) p)) (\<lambda>_.
        act_bind (cursor_replace_with T idx (v\<lparr>va_perms := p\<rparr>)) (\<lambda>idx. mprotect_loop T env pid r p rounds (Suc idx)))
      else act_bind (act_lift (res_list (VMArea_subtract env v (va_range i)))) (\<lambda>remain_vmas.
        case remain_vmas of
          [remain_vma] \<Rightarrow> act_bind (mprotect_two T env pid (va_range i) p idx v remain_vma) (\<lambda>idx.
            mprotect_loop T env pid r p rounds idx)
        | [_, _] \<Rightarrow> mprotect_three T env pid r p idx v
        | _ \<Rightarrow> act_lift Panic))"

lemma to_areas_run:
  assumes "rb_iter T (cm_vmas cm) = pre @ v # vs" "va_start v \<le> r_end r" "belong_to v pid" "p \<noteq> va_perms v"
    and "VMArea_intersect env v r = Ok (Some i)" "\<not> protect_denied env p i"
  shows "mprotect_loop T env pid r p (Suc rounds) (length pre) (cm, w) = areas_run T env pid r p rounds (length pre) v i (cm, w)"
  using assms(3-) by (simp add: protect_round_eq [OF assms(1,2)] areas_run_def)

lemma areas_run_stop:
  assumes "protect_areas env pid r p v i w = PStop res w'"
  shows "areas_run T env pid r p rounds idx v i (cm, w) = (res, (cm, w'))"
proof (cases "va_range i = va_range v")
  case True
  then show ?thesis using assms
    by (auto simp: protect_areas_def areas_run_def act_bind_def on_vm_def cut_round_PStop act_return_def split: res.splits prod.splits)
next
  case False
  show ?thesis
  proof (cases "res_list (VMArea_subtract env v (va_range i))")
    case (Ok rs)
    then show ?thesis using assms False
      by (auto simp: protect_areas_def areas_run_def cut_round_PStop act_bind_def mprotect_two_run mprotect_three_run split: list.splits)
  qed (use assms False subtract_not_Err in \<open>auto simp: protect_areas_def areas_run_def\<close>)
qed

lemma protect_atE:
  assumes "protect_at env pid r p v w = rd"
  obtains (beyond) "\<not> va_start v \<le> r_end r" "rd = PStop (Ok ()) w"
  | (skip) "va_start v \<le> r_end r" "\<not> belong_to v pid \<or> p = va_perms v \<or> VMArea_intersect env v r = Ok None" "rd = PSkip"
  | (error) e where "va_start v \<le> r_end r" "belong_to v pid" "p \<noteq> va_perms v" "VMArea_intersect env v r = Err e" "rd = PStop (Err e) w"
  | (panic) "va_start v \<le> r_end r" "belong_to v pid" "p \<noteq> va_perms v" "VMArea_intersect env v r = Panic" "rd = PStop Panic w"
  | (denied) i where "va_start v \<le> r_end r" "belong_to v pid" "p \<noteq> va_perms v" "VMArea_intersect env v r = Ok (Some i)"
      "protect_denied env p i" "rd = PStop (Err EACCES) w"
  | (meets) i where "va_start v \<le> r_end r" "belong_to v pid" "p \<noteq> va_perms v" "VMArea_intersect env v r = Ok (Some i)"
      "\<not> protect_denied env p i" "protect_areas env pid r p v i w = rd"
  using assms by (auto simp: protect_at_def split: if_splits res.splits option.splits)

lemma protect_areas_not_PSkip: "protect_areas env pid r p v i w \<noteq> PSkip"
proof -
  have "cut_round s out \<noteq> PSkip" for s and out :: "VMArea list res \<times> 'a vm_world" by (cases out; cases "fst out") auto
  then show ?thesis by (simp add: protect_areas_def split: res.split list.split)
qed

lemma protect_at_PStop:
  assumes it: "rb_iter T (cm_vmas cm) = pre @ v # vs" and at: "protect_at env pid r p v w = PStop res w'"
  shows "mprotect_loop T env pid r p (Suc rounds) (length pre) (cm, w) = (res, (cm, w'))"
  using at
proof (cases rule: protect_atE)
  case beyond
  then show ?thesis using protect_stop [OF it, of "Suc rounds" r] by simp
next
  case (meets i)
  then show ?thesis using areas_run_stop [OF meets(6)] by (simp add: to_areas_run [OF it meets(1-5)])
qed (simp_all add: protect_round_eq [OF it])

lemma protect_at_PSkip:
  assumes it: "rb_iter T (cm_vmas cm) = pre @ v # vs" and at: "protect_at env pid r p v w = PSkip"
  shows "mprotect_loop T env pid r p (Suc rounds) (length pre) (cm, w) = mprotect_loop T env pid r p rounds (length (pre @ [v])) (cm, w)"
  using at
proof (cases rule: protect_atE)
  case skip
  then show ?thesis by (auto simp: protect_round_eq [OF it skip(1)])
qed (simp_all add: protect_areas_not_PSkip)

text \<open>The tree after a round that replaces an area.\<close>

lemma tree_replace_insert_after:
  assumes T: "tree_ok T" and it: "rb_iter T t = pre @ v # vs" and ap: "apart_areas (pre @ x # n # vs)" "va_start n < va_end n" "va_start x < va_end x"
  shows "snd (rb_insert T (rb_replace T t (length pre) x) n) = Suc (length pre)"
    "rb_iter T (fst (rb_insert T (rb_replace T t (length pre) x) n)) = pre @ x # n # vs"
proof -
  have r: "rb_iter T (rb_replace T t (length pre) x) = pre @ x # vs" by (rule tree_replace [OF T it])
  have a: "apart_areas (rb_iter T (rb_replace T t (length pre) x))" "\<forall>y \<in> set (pre @ [x]). va_start y \<le> va_start n" "\<forall>y \<in> set vs. va_start n < va_start y"
    using ap apart_before [of "pre @ [x]" n vs] unfolding r by (auto simp: apart_simps)
  show "snd (rb_insert T (rb_replace T t (length pre) x) n) = Suc (length pre)"
    "rb_iter T (fst (rb_insert T (rb_replace T t (length pre) x) n)) = pre @ x # n # vs"
    using tree_insert [OF T a(1) _ a(2,3)] r by simp_all
qed

lemma tree_replace_insert_before:
  assumes T: "tree_ok T" and it: "rb_iter T t = pre @ v # vs" and ap: "apart_areas (pre @ n # x # vs)" "va_start n < va_end n"
  shows "snd (rb_insert T (rb_replace T t (length pre) x) n) = length pre"
    "rb_iter T (fst (rb_insert T (rb_replace T t (length pre) x) n)) = pre @ n # x # vs"
proof -
  have r: "rb_iter T (rb_replace T t (length pre) x) = pre @ x # vs" by (rule tree_replace [OF T it])
  have a: "apart_areas (rb_iter T (rb_replace T t (length pre) x))" "\<forall>y \<in> set pre. va_start y \<le> va_start n" "\<forall>y \<in> set (x # vs). va_start n < va_start y"
    using ap apart_before [of pre n "x # vs"] unfolding r by (auto simp: apart_simps)
  show "snd (rb_insert T (rb_replace T t (length pre) x) n) = length pre"
    "rb_iter T (fst (rb_insert T (rb_replace T t (length pre) x) n)) = pre @ n # x # vs"
    using tree_insert [OF T a(1) _ a(2,3)] r by simp_all
qed

text \<open>A round that replaces an area goes on behind the parts, or ends.\<close>

lemma protects_apart:
  assumes "protects pid r p v ps" "apart_areas (pre @ v # vs)"
  shows "apart_areas (pre @ ps @ vs)"
proof -
  have p: "apart_areas ps" "parts_of r ps [v]" using assms(1) by (simp_all add: protects_def)
  have "apart_areas (pre @ ps)" using parts_apart [of pre "[v]" ps r] p assms(2) by (simp add: apart_simps)
  moreover have "apart_areas (ps @ vs)" using parts_apart_before [of "[v]" vs ps r] p assms(2) by (simp add: apart_simps)
  ultimately show ?thesis using assms(2) by (auto simp: apart_simps)
qed

lemma protect_at_PCut:
  assumes at: "protect_at env pid r p v w = PCut ps stop w'" and acc: "is_private v"
  obtains i where "va_start v \<le> r_end r" "belong_to v pid" "p \<noteq> va_perms v" "VMArea_intersect env v r = Ok (Some i)" "\<not> protect_denied env p i"
    "protect_areas env pid r p v i w = PCut ps stop w'" "va_access v = PrivateTo pid" "VMRange_intersect (va_range v) r = Some (va_range i)"
  using at
proof (cases rule: protect_atE)
  case (meets i)
  have "va_access v = PrivateTo pid" using meets(2) acc by (cases "va_access v") (auto simp: belong_to_def is_private_def)
  then show thesis using that meets intersect_Some [OF meets(4)] by blast
qed simp_all

lemma run_full:
  assumes T: "tree_ok T" and it: "rb_iter T (cm_vmas cm) = pre @ v # vs" and at: "protect_areas env pid r p v i w = PCut ps stop w'"
    and f: "va_range i = va_range v" and i: "VMRange_intersect (va_range v) r = Some (va_range i)" "belong_to v pid"
  shows "protects pid r p v ps" "\<not> stop" "\<exists>t'. rb_iter T t' = pre @ ps @ vs \<and>
    areas_run T env pid r p rounds (length pre) v i (cm, w) = mprotect_loop T env pid r p rounds (length (pre @ ps)) (cm\<lparr>cm_vmas := t'\<rparr>, w')"
proof -
  have c: "modify_permissions_for_committed_pages env (v\<lparr>va_perms := p\<rparr>) (va_perms v) p w = (Ok (), w')" "ps = [v\<lparr>va_perms := p\<rparr>]" "\<not> stop"
    using at f by (auto simp: protect_areas_def cut_round_PCut act_return_def elim!: act_bind_OkE)
  show "protects pid r p v ps" "\<not> stop" using full_area [of v r pid p] i f c by simp_all
  show "\<exists>t'. rb_iter T t' = pre @ ps @ vs \<and>
    areas_run T env pid r p rounds (length pre) v i (cm, w) = mprotect_loop T env pid r p rounds (length (pre @ ps)) (cm\<lparr>cm_vmas := t'\<rparr>, w')"
    using f c tree_replace [OF T it, of "v\<lparr>va_perms := p\<rparr>"]
    by (intro exI [of _ "rb_replace T (cm_vmas cm) (length pre) (v\<lparr>va_perms := p\<rparr>)"]) (simp add: areas_run_def act_bind_def on_vm_def)
qed

lemma run_two:
  assumes T: "tree_ok T" and it: "rb_iter T (cm_vmas cm) = pre @ v # vs" and ap: "apart_areas (pre @ v # vs)"
    and out: "protect_two_areas env pid i p v remain w = (Ok ps, w')" and i: "VMRange_intersect (va_range v) r = Some i"
    and q: "outer_ranges (va_range v) i = [va_range remain]" and acc: "va_access v = PrivateTo pid"
  shows "protects pid r p v ps \<and> (\<exists>t' k. rb_iter T t' = pre @ ps @ vs \<and> k \<in> {rounds, Suc rounds} \<and>
    act_bind (mprotect_two T env pid i p (length pre) v remain) (\<lambda>idx. mprotect_loop T env pid r p (Suc rounds) idx) (cm, w) =
    mprotect_loop T env pid r p k (length (pre @ ps)) (cm\<lparr>cm_vmas := t'\<rparr>, w'))"
  using i q
proof (cases rule: outer_one)
  case left
  note ib = VMRange_intersect_Some [OF i]
  obtain x n where x: "ps = [x, n]" "va_perms n = p" "va_range x = mk_range (va_start v) (r_start i)" "va_range n = i" "protects pid r p v ps"
    by (rule two_left [OF out i acc left(1,2,3)])
  have ap': "apart_areas (pre @ x # n # vs)" using protects_apart [OF x(5) ap] x(1) by simp
  let ?t = "fst (rb_insert T (rb_replace T (cm_vmas cm) (length pre) x) n)"
  have t: "snd (rb_insert T (rb_replace T (cm_vmas cm) (length pre) x) n) = Suc (length pre)" "rb_iter T ?t = (pre @ [x]) @ n # vs"
    using tree_replace_insert_after [OF T it ap'] ib left x by simp_all
  have "mprotect_loop T env pid r p (Suc rounds) (length (pre @ [x])) (cm\<lparr>cm_vmas := ?t\<rparr>, w') =
      mprotect_loop T env pid r p rounds (Suc (length (pre @ [x]))) (cm\<lparr>cm_vmas := ?t\<rparr>, w')"
    using protect_round_eq [of T "cm\<lparr>cm_vmas := ?t\<rparr>" "pre @ [x]" n vs r env pid p rounds w'] t(2) ib x by simp
  then show ?thesis using x t left out
    by (auto simp: act_bind_def mprotect_two_run split: prod.split intro!: exI [of _ ?t] exI [of _ rounds])
next
  case right
  note ib = VMRange_intersect_Some [OF i]
  obtain n x where x: "ps = [n, x]" "va_range n = i" "va_range x = mk_range (r_end i) (va_end v)" "protects pid r p v ps"
    by (rule two_right [OF out i acc right(1,2,3)])
  have ap': "apart_areas (pre @ n # x # vs)" using protects_apart [OF x(4) ap] x(1) by simp
  let ?t = "fst (rb_insert T (rb_replace T (cm_vmas cm) (length pre) x) n)"
  have t: "snd (rb_insert T (rb_replace T (cm_vmas cm) (length pre) x) n) = length pre" "rb_iter T ?t = pre @ n # x # vs"
    using tree_replace_insert_before [OF T it ap'] ib x by simp_all
  show ?thesis using x t right out
    by (auto simp: act_bind_def mprotect_two_run split: prod.split intro!: exI [of _ ?t] exI [of _ "Suc rounds"])
qed

lemma run_three:
  assumes T: "tree_ok T" and it: "rb_iter T (cm_vmas cm) = pre @ v # vs" and ap: "apart_areas (pre @ v # vs)"
    and out: "protect_three_areas env pid r p v w = (Ok ps, w')" and acc: "va_access v = PrivateTo pid"
    and q: "va_start v < r_start r" "r_start r < r_end r" "r_end r < va_end v"
  shows "protects pid r p v ps \<and> (\<exists>t'. rb_iter T t' = pre @ ps @ vs \<and>
    mprotect_three T env pid r p (length pre) v (cm, w) = (Ok (), (cm\<lparr>cm_vmas := t'\<rparr>, w')))"
proof -
  obtain x n y where x: "ps = [x, n, y]" "va_range x = mk_range (va_start v) (r_start r)" "va_range n = r" "va_range y = mk_range (r_end r) (va_end v)"
    "protects pid r p v ps"
    by (rule three_areas [OF out acc q])
  have ap': "apart_areas (pre @ x # n # y # vs)" using protects_apart [OF x(5) ap] x(1) by simp
  let ?t = "fst (rb_insert T (rb_replace T (cm_vmas cm) (length pre) x) n)"
  have t: "rb_iter T ?t = pre @ x # n # vs"
    using tree_replace_insert_after(2) [OF T it, of x n] ap' q x by (simp add: apart_simps)
  have a: "apart_areas (rb_iter T ?t)" "\<forall>z \<in> set (pre @ [x, n]). va_start z \<le> va_start y" "\<forall>z \<in> set vs. va_start y < va_start z"
    using ap' q x apart_before [of "pre @ [x, n]" y vs] unfolding t by (auto simp: apart_simps)
  have "rb_iter T (fst (rb_insert T ?t y)) = pre @ ps @ vs" using tree_insert(2) [OF T a(1) _ a(2,3)] t x(1) by simp
  then show ?thesis using x out by (auto simp: mprotect_three_run)
qed

lemma subtract_ranges:
  assumes "VMRange_intersect (va_range v) r = Some i" "res_list (VMArea_subtract env v i) = Ok rs"
  shows "map va_range rs = outer_ranges (va_range v) i"
  using assms(2) res_list_map pieces_ranges unfolding VMArea_subtract_def subtract_outer [OF assms(1)] by blast

lemma protect_cut_run:
  assumes T: "tree_ok T" and it: "rb_iter T (cm_vmas cm) = pre @ v # vs" and ap: "apart_areas (pre @ v # vs)"
    and at: "protect_at env pid r p v w = PCut ps stop w'" and pr: "is_private v"
  shows "protects pid r p v ps \<and> (\<exists>t' k. rb_iter T t' = pre @ ps @ vs \<and> k \<in> {rounds, Suc rounds} \<and>
    mprotect_loop T env pid r p (Suc (Suc rounds)) (length pre) (cm, w) =
    (if stop then (Ok (), (cm\<lparr>cm_vmas := t'\<rparr>, w')) else mprotect_loop T env pid r p k (length (pre @ ps)) (cm\<lparr>cm_vmas := t'\<rparr>, w')))"
proof -
  obtain i where c: "va_start v \<le> r_end r" "belong_to v pid" "p \<noteq> va_perms v" "VMArea_intersect env v r = Ok (Some i)" "\<not> protect_denied env p i"
    "protect_areas env pid r p v i w = PCut ps stop w'" "va_access v = PrivateTo pid" "VMRange_intersect (va_range v) r = Some (va_range i)"
    by (rule protect_at_PCut [OF at pr])
  note run = to_areas_run [OF it c(1-5), of "Suc rounds" w]
  show ?thesis
  proof (cases "va_range i = va_range v")
    case True
    show ?thesis using run_full(1,2) [OF T it c(6) True c(8,2)] run_full(3) [OF T it c(6) True c(8,2), of "Suc rounds"] run by auto
  next
    case False
    obtain rs where rs: "res_list (VMArea_subtract env v (va_range i)) = Ok rs"
      using c(6) False by (auto simp: protect_areas_def split: res.splits)
    note rg = subtract_ranges [OF c(8) rs]
    consider (two) a where "rs = [a]" "protect_two_areas env pid (va_range i) p v a w = (Ok ps, w')" "\<not> stop"
      | (three) a b where "rs = [a, b]" "protect_three_areas env pid r p v w = (Ok ps, w')" "stop"
      using c(6) False rs by (auto simp: protect_areas_def cut_round_PCut split: list.splits)
    then show ?thesis
    proof cases
      case two
      have q: "outer_ranges (va_range v) (va_range i) = [va_range a]" using rg two(1) by simp
      show ?thesis
        using run_two [OF T it ap two(2) c(8) q c(7), of rounds] run two(1,3) False rs by (simp add: areas_run_def)
    next
      case three
      have "outer_ranges (va_range v) (va_range i) = [va_range a, va_range b]" using rg three(1) by simp
      note o = outer_two [OF c(8) this]
      show ?thesis
        using run_three [OF T it ap three(2) c(7) o(2,4,3)] run three(1,3) False rs by (auto simp: areas_run_def)
    qed
  qed
qed

lemma cut_nonempty:
  assumes "protect_at env pid r p v w = PCut ps stop w'"
  shows "va_start v < va_end v"
  using assms
proof (cases rule: protect_atE)
  case (meets i)
  then show ?thesis using VMRange_intersect_Some [OF intersect_Some [OF meets(4)]] by simp
qed simp_all

lemma protect_loop_list:
  assumes T: "tree_ok T" and "rb_iter T (cm_vmas cm) = pre @ vs" "apart_areas (pre @ vs)" "2 * length vs < rounds"
    and "\<forall>v \<in> set vs. va_start v < va_end v \<longrightarrow> is_private v" "protect_list env pid r p vs w = (res, vs', w')"
  shows "\<exists>t'. mprotect_loop T env pid r p rounds (length pre) (cm, w) = (res, (cm\<lparr>cm_vmas := t'\<rparr>, w')) \<and> rb_iter T t' = pre @ vs'"
  using assms(2-)
proof (induction vs arbitrary: pre cm w rounds vs')
  case Nil
  then show ?case using protect_stop [of T cm pre "[]" rounds r env pid p w] by (intro exI [of _ "cm_vmas cm"]) auto
next
  case (Cons v vs)
  obtain k where k: "rounds = Suc (Suc k)" "2 * length vs < k"
    using Cons.prems(3) by (intro that [of "rounds - 2"]) simp_all
  show ?case
  proof (cases "protect_at env pid r p v w")
    case (PStop res' w1)
    then show ?thesis using Cons.prems protect_at_PStop [OF Cons.prems(1) PStop, of "Suc k"] k(1)
      by (intro exI [of _ "cm_vmas cm"]) auto
  next
    case PSkip
    obtain vs'' where l: "protect_list env pid r p vs w = (res, vs'', w')" "v # vs'' = vs'"
      using Cons.prems(5) PSkip by (cases "protect_list env pid r p vs w") auto
    have "\<exists>t'. mprotect_loop T env pid r p (Suc k) (length (pre @ [v])) (cm, w) = (res, (cm\<lparr>cm_vmas := t'\<rparr>, w')) \<and> rb_iter T t' = (pre @ [v]) @ vs''"
      by (rule Cons.IH) (use Cons.prems k l in auto)
    then show ?thesis using protect_at_PSkip [OF Cons.prems(1) PSkip, of "Suc k"] k(1) l(2) by auto
  next
    case (PCut ps stop w1)
    have pr: "is_private v" using Cons.prems(4) cut_nonempty [OF PCut] by simp
    from protect_cut_run [OF T Cons.prems(1,2) PCut pr, of k]
    obtain t' n where t: "protects pid r p v ps" "rb_iter T t' = pre @ ps @ vs" "n \<in> {k, Suc k}"
      "mprotect_loop T env pid r p rounds (length pre) (cm, w) =
        (if stop then (Ok (), (cm\<lparr>cm_vmas := t'\<rparr>, w1)) else mprotect_loop T env pid r p n (length (pre @ ps)) (cm\<lparr>cm_vmas := t'\<rparr>, w1))"
      using k(1) by blast
    show ?thesis
    proof (cases stop)
      case True
      then show ?thesis using t Cons.prems(5) PCut by auto
    next
      case False
      obtain vs'' where l: "protect_list env pid r p vs w1 = (res, vs'', w')" "ps @ vs'' = vs'"
        using Cons.prems(5) PCut False by (cases "protect_list env pid r p vs w1") auto
      have "\<exists>t''. mprotect_loop T env pid r p n (length (pre @ ps)) (cm\<lparr>cm_vmas := t'\<rparr>, w1) = (res, (cm\<lparr>cm_vmas := t'\<rparr>\<lparr>cm_vmas := t''\<rparr>, w')) \<and>
          rb_iter T t'' = (pre @ ps) @ vs''"
        by (rule Cons.IH) (use Cons.prems(2,4) k l t protects_apart [OF t(1) Cons.prems(2)] in auto)
      then show ?thesis using t(4) False l(2) by auto
    qed
  qed
qed

section \<open>What changing permissions does\<close>

lemma protected_step:
  assumes ap: "apart_areas (v # vs)" and ps: "protected pid r p [v] ps" "area_set ps = addrs (va_range v)"
  shows "protected pid r p vs vs' \<Longrightarrow> protected pid r p (v # vs) (ps @ vs')"
    "partly_protected pid r p vs vs' \<Longrightarrow> partly_protected pid r p (v # vs) (ps @ vs')"
proof -
  have in_v: "view (ps @ us) a = protect_view pid r p (v # vs) a" if "a \<in> addrs (va_range v)" for a us
  proof -
    have "\<not> gone pid r vs a" using apart_disjoint [OF ap] that gone_area by blast
    moreover have "view ps a = protect_view pid r p [v] a" using ps(1) by (simp add: protected_def)
    ultimately show ?thesis using that by (simp add: view_append protect_view_def split: option.split)
  qed
  have out_v: "view (ps @ us) a = view us a" "protect_view pid r p (v # vs) a = protect_view pid r p vs a" if "a \<notin> addrs (va_range v)" for a us
    using that ps(2) by (auto simp: protect_view_def intro: view_skip)
  show "protected pid r p (v # vs) (ps @ vs')" if "protected pid r p vs vs'"
    using that in_v out_v unfolding protected_def by metis
  show "partly_protected pid r p (v # vs) (ps @ vs')" if "partly_protected pid r p vs vs'"
    unfolding partly_protected_def
  proof
    fix a
    show "view (ps @ vs') a = view (v # vs) a \<or> view (ps @ vs') a = protect_view pid r p (v # vs) a"
      using that [unfolded partly_protected_def, rule_format, of a] in_v [of a vs'] out_v(1) [of a vs'] out_v(2) [of a]
      by (cases "a \<in> addrs (va_range v)") auto
  qed
qed

lemma protected_none: "(\<And>a. \<not> gone pid r vs a) \<Longrightarrow> protected pid r p vs vs"
  by (simp add: protected_def protect_view_def option.map_ident case_prod_unfold)

lemma partly_protected_refl: "partly_protected pid r p vs vs"
  by (simp add: partly_protected_def)

lemma protected_partly: "protected pid r p vs vs' \<Longrightarrow> partly_protected pid r p vs vs'"
  by (simp add: protected_def partly_protected_def)

lemma beyond_none:
  assumes "apart_areas vs" "\<forall>v \<in> set vs. r_end r \<le> va_start v"
  shows "\<not> gone pid r vs a"
  using assms(2) by (fastforce simp: gone_def range_simps)

lemma skip_protects:
  assumes "protect_at env pid r p v w = PSkip"
  shows "protected pid r p [v] [v]"
  using assms
proof (cases rule: protect_atE)
  case skip
  then consider "\<not> belong_to v pid" | "p = va_perms v" | "VMArea_intersect env v r = Ok None" by blast
  then show ?thesis
  proof cases
    case 3
    then show ?thesis using intersect_None [OF 3] by (intro protected_none) auto
  qed (auto simp: protected_def protect_view_def view_of_def)
qed (simp_all add: protect_areas_not_PSkip)

definition protect_done :: "pid_t \<Rightarrow> VMRange \<Rightarrow> VMPerms \<Rightarrow> VMArea list \<Rightarrow> unit res \<Rightarrow> VMArea list \<Rightarrow> bool" where
  "protect_done pid r p vs res vs' \<longleftrightarrow> apart_areas vs' \<and> parts_of r vs' vs \<and> area_set vs' = area_set vs \<and>
     partly_protected pid r p vs vs' \<and> (res = Ok () \<longrightarrow> protected pid r p vs vs')"

lemma protect_done_step:
  assumes ap: "apart_areas (v # vs)" and ps: "protected pid r p [v] ps" "area_set ps = addrs (va_range v)" "apart_areas ps" "parts_of r ps [v]"
    and IH: "protect_done pid r p vs res vs'"
  shows "protect_done pid r p (v # vs) res (ps @ vs')"
proof -
  have d: "apart_areas vs'" "parts_of r vs' vs" "area_set vs' = area_set vs"
    "partly_protected pid r p vs vs'" "res = Ok () \<longrightarrow> protected pid r p vs vs'"
    using IH by (simp_all add: protect_done_def)
  have "apart_areas ([v] @ vs')" using ap d(1,2) parts_apart [of "[v]" vs vs' r] by simp
  then have "apart_areas (ps @ vs')" using parts_apart_before [of "[v]" vs' ps r] ps by simp
  moreover have "parts_of r (ps @ vs') (v # vs)" using ps(4) d(2) by (auto intro: parts_of_mono)
  ultimately show ?thesis using protected_step [OF ap ps(1,2), of vs'] d ps by (simp add: protect_done_def)
qed

lemma cut_protects:
  assumes at: "protect_at env pid r p v w = PCut ps stop w'" and pr: "is_private v"
  shows "protects pid r p v ps" "stop \<Longrightarrow> r_end r \<le> va_end v"
proof -
  obtain i where c: "belong_to v pid" "protect_areas env pid r p v i w = PCut ps stop w'" "va_access v = PrivateTo pid"
    "VMRange_intersect (va_range v) r = Some (va_range i)"
    by (rule protect_at_PCut [OF at pr])
  have "protects pid r p v ps \<and> (stop \<longrightarrow> r_end r \<le> va_end v)"
  proof (cases "va_range i = va_range v")
    case True
    then show ?thesis using full_area [of v r pid p] c by (auto simp: protect_areas_def cut_round_PCut act_return_def elim!: act_bind_OkE)
  next
    case False
    obtain rs where rs: "res_list (VMArea_subtract env v (va_range i)) = Ok rs"
      using c(2) False by (auto simp: protect_areas_def split: res.splits)
    note rg = subtract_ranges [OF c(4) rs]
    consider (two) a where "rs = [a]" "protect_two_areas env pid (va_range i) p v a w = (Ok ps, w')" "\<not> stop"
      | (three) a b where "rs = [a, b]" "protect_three_areas env pid r p v w = (Ok ps, w')"
      using c(2) False rs by (auto simp: protect_areas_def cut_round_PCut split: list.splits)
    then show ?thesis
    proof cases
      case two
      have q: "outer_ranges (va_range v) (va_range i) = [va_range a]" using rg two(1) by simp
      from c(4) q show ?thesis
      proof (cases rule: outer_one)
        case left
        show ?thesis by (rule two_left [OF two(2) c(4,3) left(1,2,3)]) (use two(3) in simp)
      next
        case right
        show ?thesis by (rule two_right [OF two(2) c(4,3) right(1,2,3)]) (use two(3) in simp)
      qed
    next
      case three
      have "outer_ranges (va_range v) (va_range i) = [va_range a, va_range b]" using rg three(1) by simp
      note o = outer_two [OF c(4) this]
      show ?thesis by (rule three_areas [OF three(2) c(3) o(2,4,3)]) (use o in simp)
    qed
  qed
  then show "protects pid r p v ps" "stop \<Longrightarrow> r_end r \<le> va_end v" by simp_all
qed

lemma stop_beyond:
  assumes "protect_at env pid r p v w = PStop (Ok ()) w'"
  shows "r_end r < va_start v"
  using assms
proof (cases rule: protect_atE)
  case (meets i)
  then show ?thesis by (auto simp: protect_areas_def cut_round_PStop split: if_splits res.splits list.splits)
qed simp_all

lemma protect_list_spec:
  assumes "apart_areas vs" "\<forall>v \<in> set vs. va_start v < va_end v \<longrightarrow> is_private v" "protect_list env pid r p vs w = (res, vs', w')"
  shows "protect_done pid r p vs res vs'"
  using assms
proof (induction vs arbitrary: w vs')
  case Nil
  then show ?case by (auto simp: protect_done_def protected_none partly_protected_refl)
next
  case (Cons v vs)
  have ap: "apart_areas vs" "va_start v \<le> va_end v" "\<forall>x \<in> set vs. va_end v \<le> va_start x" using Cons.prems(1) by (simp_all add: apart_simps)
  show ?case
  proof (cases "protect_at env pid r p v w")
    case (PStop res' w1)
    have "\<not> gone pid r (v # vs) a" if "res = Ok ()" for a
    proof -
      have "r_end r < va_start v" using PStop that Cons.prems(3) stop_beyond [of env pid r p v w w1] by simp
      then show ?thesis using ap by (intro beyond_none [OF Cons.prems(1)]) auto
    qed
    then have "res = Ok () \<longrightarrow> protected pid r p (v # vs) (v # vs)" using protected_none by blast
    then show ?thesis
      using PStop Cons.prems(1,3) by (auto simp: protect_done_def partly_protected_refl)
  next
    case PSkip
    obtain vs'' where l: "protect_list env pid r p vs w = (res, vs'', w')" "v # vs'' = vs'"
      using Cons.prems(3) PSkip by (cases "protect_list env pid r p vs w") auto
    have "protect_done pid r p vs res vs''" using Cons ap(1) l(1) by simp
    then show ?thesis
      using protect_done_step [OF Cons.prems(1) skip_protects [OF PSkip]] ap(2) l(2) [symmetric] by (simp add: apart_simps)
  next
    case (PCut ps stop w1)
    have "is_private v" using Cons.prems(2) cut_nonempty [OF PCut] by simp
    note c = cut_protects [OF PCut this]
    have go: "protect_done pid r p (v # vs) res1 (ps @ us)" if "protect_done pid r p vs res1 us" for us res1
      using protect_done_step [OF Cons.prems(1) _ _ _ _ that] c(1) by (simp add: protects_def)
    show ?thesis
    proof (cases stop)
      case True
      have "\<not> gone pid r vs a" for a
        by (rule beyond_none [OF ap(1)]) (use c(2) [OF True] ap(3) in force)
      then have "protect_done pid r p vs (Ok ()) vs" using ap(1) by (simp add: protect_done_def partly_protected_refl protected_none)
      then show ?thesis using go True PCut Cons.prems(3) by auto
    next
      case False
      obtain vs'' where l: "protect_list env pid r p vs w1 = (res, vs'', w')" "ps @ vs'' = vs'"
        using Cons.prems(3) PCut False by (cases "protect_list env pid r p vs w1") auto
      then show ?thesis using go [of res vs''] Cons ap(1) by auto
    qed
  qed
qed

text \<open>The sentries stay where they are.\<close>

lemma protect_at_sentry:
  assumes "va_start v = va_end v"
  shows "protect_at env pid r p v w = PStop (Ok ()) w \<or> protect_at env pid r p v w = PSkip"
  using intersect_disjoint [of v r env] assms by (simp add: protect_at_def addrs_def)

lemma protect_list_last:
  assumes "va_start s = va_end s" "\<forall>v \<in> set vs. area_ok v"
  shows "\<exists>us. fst (snd (protect_list env pid r p (vs @ [s]) w)) = us @ [s] \<and> parts_of r us vs"
  using assms(2)
proof (induction vs arbitrary: w)
  case Nil
  then show ?case using protect_at_sentry [OF assms(1), of env pid r p w] by auto
next
  case (Cons v vs)
  have keep: "fst (snd (keep_protected ps out)) = ps @ fst (snd out)" for ps and out :: "unit res \<times> VMArea list \<times> 'a vm_world"
    by (cases out) simp
  have step: "\<exists>us. fst (snd (keep_protected ps (protect_list env pid r p (vs @ [s]) w'))) = us @ [s] \<and> parts_of r us (v # vs)"
    if "parts_of r ps [v]" for ps w'
  proof -
    obtain us where "fst (snd (protect_list env pid r p (vs @ [s]) w')) = us @ [s]" "parts_of r us vs"
      using Cons by fastforce
    then show ?thesis using that by (intro exI [of _ "ps @ us"]) (auto simp: keep intro: parts_of_mono)
  qed
  show ?case
  proof (cases "protect_at env pid r p v w")
    case (PStop res w')
    then show ?thesis by (auto intro!: exI [of _ "v # vs"])
  next
    case PSkip
    then show ?thesis using step [of "[v]" w] by simp
  next
    case (PCut ps stop w')
    have ps: "parts_of r ps [v]" using cut_protects(1) [OF PCut] Cons.prems by (simp add: protects_def area_ok_def)
    then have "parts_of r (ps @ vs) (v # vs)" by (auto intro: parts_of_mono parts_of_mono [OF parts_of_simps(2)])
    then show ?thesis using step [OF ps] PCut by (auto intro!: exI [of _ "ps @ vs"])
  qed
qed

lemma protect_list_both:
  assumes "va_start s0 = va_end s0" "va_start s = va_end s" "\<forall>v \<in> set vs. area_ok v"
  shows "\<exists>us. fst (snd (protect_list env pid r p (s0 # vs @ [s]) w)) = s0 # us @ [s] \<and> parts_of r us vs"
proof -
  obtain us where "fst (snd (protect_list env pid r p (vs @ [s]) w)) = us @ [s]" "parts_of r us vs"
    using protect_list_last [OF assms(2,3)] by blast
  then show ?thesis
    using protect_at_sentry [OF assms(1), of env pid r p w] by (cases "protect_list env pid r p (vs @ [s]) w") auto
qed

lemma chunk_areas_protect:
  assumes ca: "chunk_areas rg (xs @ v # ys)" and r: "page_aligned r"
    and out: "protect_list env pid r p (v # ys) w = (res, vs', w')" "apart_areas (xs @ vs')"
  shows "chunk_areas rg (xs @ vs')"
proof -
  obtain s0 us s1 where c: "xs @ v # ys = s0 # us @ [s1]" "va_range s0 = mk_range (r_start rg) (r_start rg)"
    "va_range s1 = mk_range (r_end rg) (r_end rg)" "apart_areas (s0 # us @ [s1])" "\<forall>v \<in> set us. area_ok v"
    by (rule chunk_areasE [OF ca])
  have z: "va_start s0 = va_end s0" "va_start s1 = va_end s1" using c(2,3) by simp_all
  have "\<exists>us'. xs @ vs' = s0 # us' @ [s1] \<and> parts_of r us' us"
  proof (cases xs)
    case Nil
    then show ?thesis using protect_list_both [OF z c(5), of env pid r p w] out(1) c(1) by auto
  next
    case (Cons x xs')
    obtain zs where zs: "v # ys = zs @ [s1]" "us = xs' @ zs"
      using c(1) Cons by (cases ys rule: rev_cases) (auto simp: append_eq_append_conv2 Cons_eq_append_conv)
    obtain zs' where "vs' = zs' @ [s1]" "parts_of r zs' zs"
      using protect_list_last [OF z(2), of zs env pid r p w] c(5) out(1) unfolding zs by auto
    then show ?thesis using Cons c(1) zs(2) by (auto intro!: exI [of _ "xs' @ zs'"] intro: parts_of_mono [OF parts_of_simps(2)] parts_of_mono)
  qed
  then obtain us' where us': "xs @ vs' = s0 # us' @ [s1]" "parts_of r us' us" by blast
  then show ?thesis using out(2) c(2,3,5) parts_ok [OF us'(2) r] by (auto intro!: chunk_areasI)
qed

lemma protected_before:
  assumes "apart_areas (xs @ vs)" "\<And>a. \<not> gone pid r xs a" "protect_done pid r p vs res vs'"
  shows "protect_done pid r p (xs @ vs) res (xs @ vs')"
  using assms(1,2)
proof (induction xs)
  case Nil
  then show ?case using assms(3) by simp
next
  case (Cons x xs)
  have "\<not> gone pid r [x] a" for a using Cons.prems(2) [of a] by simp
  then have x: "protected pid r p [x] [x]" by (rule protected_none)
  have "\<And>a. \<not> gone pid r xs a" "apart_areas (xs @ vs)" using Cons.prems by (auto simp: apart_simps)
  then have "protect_done pid r p (xs @ vs) res (xs @ vs')" by (intro Cons.IH)
  then show ?case using protect_done_step [OF _ x, of "xs @ vs" res "xs @ vs'"] Cons.prems(1) by (simp add: apart_simps)
qed

definition chunk_protects :: "'t vma_tree \<Rightarrow> pid_t \<Rightarrow> VMRange \<Rightarrow> VMPerms \<Rightarrow> 't ChunkManager \<Rightarrow> unit res \<Rightarrow> 't ChunkManager \<Rightarrow> bool" where
  "chunk_protects T pid r p cm res cm' \<longleftrightarrow> cm_inv T cm' \<and> cm_range cm' = cm_range cm \<and>
     partly_protected pid r p (cm_areas T cm) (cm_areas T cm') \<and>
     (res = Ok () \<longrightarrow> protected pid r p (cm_areas T cm) (cm_areas T cm'))"

lemma chunk_private:
  assumes "chunk_areas rg xs" "x \<in> set xs" "va_start x < va_end x"
  shows "is_private x"
  by (rule chunk_areasE [OF assms(1)]) (use assms(2,3) in \<open>auto simp: area_ok_def\<close>)

lemma mprotect_protects:
  assumes T: "tree_ok T" and inv: "cm_inv T cm"
    and out: "ChunkManager_mprotect T env pid addr sz p (cm, w) = (res, (cm', w'))"
  shows "chunk_protects T pid (mk_range addr (addr + sz)) p cm res cm'"
proof (cases "\<exists>r i. VMRange_new_with_size addr sz = Ok r \<and> rb_upper_bound T (cm_vmas cm) addr = Some i")
  case True
  then obtain r i where Ok: "VMRange_new_with_size addr sz = Ok r" and ub: "rb_upper_bound T (cm_vmas cm) addr = Some i" by blast
  have r: "r = mk_range addr (addr + sz)" "page_aligned r"
    using Ok by (auto simp: VMRange_new_with_size_def VMRange_new_def checked_add_def page_aligned_def split: if_splits)
  have "chunk_areas (cm_range cm) (rb_iter T (cm_vmas cm))" using inv by (simp add: cm_inv_def cm_areas_def)
  note ap = chunk_areas_apart [OF this]
  obtain xs v ys where u: "cm_areas T cm = xs @ v # ys" "length xs = i" "va_start v \<le> addr" "\<forall>x \<in> set xs. va_end x \<le> va_start v"
    by (rule tree_upper_bound [OF T ap ub]) (simp add: cm_areas_def)
  have ca: "chunk_areas (cm_range cm) (xs @ v # ys)" using inv by (simp add: cm_inv_def u(1))
  note ap = chunk_areas_apart [OF ca]
  have pr: "\<forall>x \<in> set (v # ys). va_start x < va_end x \<longrightarrow> is_private x"
    using chunk_private [OF ca] by simp
  obtain res1 vs' w1 where l: "protect_list env pid r p (v # ys) w = (res1, vs', w1)" by (metis prod_cases3)
  obtain t' where t': "mprotect_loop T env pid r p (2 * length (cm_areas T cm) + 1) (length xs) (cm, w) = (res1, (cm\<lparr>cm_vmas := t'\<rparr>, w1))"
    "rb_iter T t' = xs @ vs'"
    using protect_loop_list [OF T _ ap _ pr l, of cm "2 * length (cm_areas T cm) + 1"] u(1) by (auto simp: cm_areas_def)
  have m: "res = res1" "cm' = cm\<lparr>cm_vmas := t'\<rparr>" using out t'(1) u(2) ub Ok r by (auto simp: ChunkManager_mprotect_def)
  have "protect_done pid r p (v # ys) res1 vs'"
    using ap pr l by (intro protect_list_spec) (auto simp: apart_simps simp del: protect_list.simps)
  moreover have "\<not> gone pid r xs x" for x using u(3,4) r(1) by (fastforce simp: gone_def range_simps)
  ultimately have d: "protect_done pid r p (xs @ v # ys) res1 (xs @ vs')" by (intro protected_before [OF ap])
  then have "chunk_areas (cm_range cm) (xs @ vs')"
    using chunk_areas_protect [OF ca r(2) l] by (simp add: protect_done_def)
  moreover have "cm_areas T cm' = xs @ vs'" using t'(2) by (simp add: m cm_areas_def)
  ultimately show ?thesis using inv d u(1) r(1) by (simp add: chunk_protects_def cm_inv_def protect_done_def m)
next
  case False
  then have "cm' = cm" "res \<noteq> Ok ()"
    using out by (auto simp: ChunkManager_mprotect_def act_bind_def act_lift_def VMRange_new_with_size_def VMRange_new_def checked_add_def
        split: res.splits option.splits if_splits)
  then show ?thesis using inv by (simp add: chunk_protects_def partly_protected_refl)
qed

end
