(* ===== verification/ChunkCorrect.thy ===== *)
theory ChunkCorrect
  imports ChunkProtect
begin

text \<open>
  What a client of the chunk manager relies on: the invariant of every reachable manager, the exact
  effect of mapping, unmapping and changing permissions on every address, and the end of the loops.
  Two places where the code does not do what it means to are shown on every state with their
  precondition: merging areas that map different files, and the search for the area to remap.
\<close>

section \<open>Reachable managers\<close>

text \<open>
  A manager is created for a non-empty range; the operations follow in any order, by any processes, and
  the rest of the memory system may change between them.  A panic ends the library.
\<close>

inductive chunk_reach :: "'t vma_tree \<Rightarrow> 's vm_env \<Rightarrow> 't ChunkManager \<Rightarrow> bool" for T env where
  create: "ChunkManager_from T env addr sz w = (Ok cm, w') \<Longrightarrow> 0 < sz \<Longrightarrow> addr + sz \<le> ADDR_LIMIT \<Longrightarrow> chunk_reach T env cm"
| munmap: "chunk_reach T env cm \<Longrightarrow> ChunkManager_munmap T env pid addr sz (cm, w) = (res, (cm', w')) \<Longrightarrow> res \<noteq> Panic \<Longrightarrow>
    chunk_reach T env cm'"
| munmap_range: "chunk_reach T env cm \<Longrightarrow> page_aligned r \<Longrightarrow>
    ChunkManager_munmap_range T env pid r (cm, w) = (res, (cm', w')) \<Longrightarrow> res \<noteq> Panic \<Longrightarrow> chunk_reach T env cm'"
| mmap: "chunk_reach T env cm \<Longrightarrow> opts_ok opts \<Longrightarrow> ChunkManager_mmap T env pid opts (cm, w) = (ares, (cm', w')) \<Longrightarrow> ares \<noteq> Panic \<Longrightarrow>
    chunk_reach T env cm'"
| mprotect: "chunk_reach T env cm \<Longrightarrow> ChunkManager_mprotect T env pid addr sz p (cm, w) = (res, (cm', w')) \<Longrightarrow> chunk_reach T env cm'"
| clean: "chunk_reach T env cm \<Longrightarrow> clean_vmas_with_pid T env pid (cm, w) = (res, (cm', w')) \<Longrightarrow> res \<noteq> Panic \<Longrightarrow> chunk_reach T env cm'"
| mremap: "chunk_reach T env cm \<Longrightarrow> ChunkManager_parse_mremap_options T pid ropts (cm, w :: 's vm_world) = (rres, (cm', w')) \<Longrightarrow> chunk_reach T env cm'"
| page_fault: "chunk_reach T env cm \<Longrightarrow> ChunkManager_handle_page_fault T env pid rip a c k (cm, w) = (res, (cm', w')) \<Longrightarrow>
    chunk_reach T env cm'"

lemma parse_mremap_merges:
  assumes "ChunkManager_parse_mremap_options T pid opts (cm, w) = (res, (cm', w'))"
  shows "cm' = cm \<or> (\<exists>res1 w1. merge_all_vmas T (cm, w) = (res1, (cm', w1)))"
  using assms
  by (cases "merge_all_vmas T (cm, w)")
    (auto simp: ChunkManager_parse_mremap_options_def act_bind_def act_lift_def split: res.splits prod.splits)

lemma chunk_reach_inv:
  assumes "chunk_reach T env cm" "tree_ok T"
  shows "cm_inv T cm"
  using assms
proof (induction rule: chunk_reach.induct)
  case (create addr sz w cm w')
  then show ?case using from_inv(1) by blast
next
  case (munmap cm pid addr sz w res cm' w')
  then show ?case using munmap_unmaps [of T cm env pid addr sz w res cm' w'] by (simp add: chunk_unmaps_def)
next
  case (munmap_range cm r pid w res cm' w')
  then show ?case using munmap_range_unmaps [of T cm r env pid w res cm' w'] by (simp add: chunk_unmaps_def)
next
  case (mmap cm opts pid w ares cm' w')
  then show ?case using mmap_correct [of T cm opts env pid w ares cm' w'] by simp
next
  case (mprotect cm pid addr sz p w res cm' w')
  then show ?case using mprotect_protects [of T cm env pid addr sz p w res cm' w'] by (simp add: chunk_protects_def)
next
  case (clean cm pid w res cm' w')
  then show ?case using clean_unmaps [of T cm env pid w res cm' w'] by (simp add: chunk_unmaps_def)
next
  case (mremap cm pid ropts w rres cm' w')
  then show ?case using parse_mremap_merges merge_keeps by blast
next
  case (page_fault cm pid rip a c k w res cm' w')
  then show ?case using page_fault_keeps [of T cm env pid rip a c k w res cm' w'] by simp
qed

text \<open>
  C4: In every reachable chunk manager the areas lie in order between the two sentries without overlapping, each
  non-empty, page-aligned and owned by one process; the free list is well-formed and holds exactly the
  addresses of the chunk that no area covers, and the recorded free size is their number.  So no address is both
  handed out and free, and dropping an empty manager passes its assertions.
\<close>

theorem chunk_manager_safe:
  assumes "tree_ok T" "chunk_reach T env cm"
  shows "cm_inv T cm \<and> free_set (cm_free_manager cm) = {a \<in> addrs (cm_range cm). view (cm_areas T cm) a = None} \<and>
    (ChunkManager_is_empty T cm \<longrightarrow> ChunkManager_drop T cm = Ok ())"
proof -
  have i: "cm_inv T cm" by (rule chunk_reach_inv [OF assms(2,1)])
  then have "free_set (cm_free_manager cm) = addrs (cm_range cm) - area_set (cm_areas T cm)" by (simp add: cm_inv_def)
  then show ?thesis using i drop_ok [OF i] view_None [of "cm_areas T cm"] by auto
qed

text \<open>A concrete memory system, whose tree is a sorted list, and a chunk of four pages with areas of process 7.\<close>

definition ex_tree :: "VMArea list vma_tree" where
  "ex_tree = list_rbtree va_start"

definition ex_env :: "unit vm_env" where
  "ex_env = \<lparr>ve_edmm = (\<lambda>_. Ok ()), ve_supports_edmm = False, ve_gap_range = None,
     ve_files = \<lparr>fo_read_at = (\<lambda>_ _ _ n. Ok (replicate n 0)), fo_write_at = (\<lambda>_ _ _ bs. (Ok (length bs), ())), fo_size = (\<lambda>_ _. 0),
       fo_readable = (\<lambda>_. True), fo_writable = (\<lambda>_. True)\<rparr>\<rparr>"

definition ex_world :: "unit vm_world" where
  "ex_world = \<lparr>pw_chunks = (\<lambda>_. None), pw_calls = [], vw_mem = (\<lambda>_. 0), vw_files = ()\<rparr>"

definition ex_sentry :: "usize \<Rightarrow> VMArea" where
  "ex_sentry s = \<lparr>va_range = mk_range s s, va_perms = 0, va_file_backed = None, va_access = PrivateTo 0, va_pages = None,
     va_epc_type = Reserved, va_pf_count = 0\<rparr>"

definition ex_area :: "usize \<Rightarrow> usize \<Rightarrow> FileBacked option \<Rightarrow> VMArea" where
  "ex_area s e f = \<lparr>va_range = mk_range s e, va_perms = PERM_DEFAULT, va_file_backed = f, va_access = PrivateTo 7, va_pages = None,
     va_epc_type = Reserved, va_pf_count = 0\<rparr>"

definition ex_chunk :: "VMArea list \<Rightarrow> VMFreeSpaceManager \<Rightarrow> VMArea list ChunkManager" where
  "ex_chunk vs fl = \<lparr>cm_range = mk_range 4096 20480, cm_free_size = sum_list (map VMRange_size fl),
     cm_vmas = ex_sentry 4096 # vs @ [ex_sentry 20480], cm_free_manager = fl\<rparr>"

definition ex_opts :: "VMMapAddr \<Rightarrow> VMMapOptions" where
  "ex_opts addr = \<lparr>mo_size = 4096, mo_align = 4096, mo_perms = PERM_DEFAULT, mo_addr = addr, mo_initializer = DoNothing, mo_page_policy = CommitNow\<rparr>"

lemmas ex_defs = ex_tree_def ex_env_def ex_world_def ex_sentry_def ex_area_def ex_chunk_def ex_opts_def
lemmas chunk_eval = ex_defs Let_def act_return_def act_bind_def uadd_def usub_def VMRange_size_def VMRange_new_def EPCMemType_new_def
  list_insert_pos_def list_upper_bound_def cm_areas_def

lemma ex_tree_ok: "tree_ok ex_tree"
  by (simp add: tree_ok_def ex_tree_def list_rbtree_laws list_rbtree_insert_last)

lemma ex_opts_ok: "opts_ok (ex_opts addr)"
  by (simp add: opts_ok_def ex_opts_def is_power_of_two_4096)

lemma ex_created: "ChunkManager_from ex_tree ex_env 4096 16384 ex_world = (Ok (ex_chunk [] [mk_range 4096 20480]), ex_world)"
  by (simp add: ChunkManager_from_def VMRange_new_empty_def VMArea_new_def FreeSpace_new_def chunk_eval)

lemma ex_find:
  "find_free_range_internal [mk_range 4096 20480] 4096 4096 (Need 8192) = Ok ([mk_range 4096 8192, mk_range 12288 20480], mk_range 8192 12288)"
  by (simp add: free_list_eval)

lemma ex_new_area:
  "new_area ex_env 7 (ex_opts addr) (mk_range 8192 12288) ex_world = (Ok (ex_area 8192 12288 None),
       ex_world\<lparr>vw_mem := write_mem 8192 (as_slice (vw_mem ex_world) (mk_range 8192 12288)) (vw_mem ex_world)\<rparr>)"
  by (simp add: new_area_def VMArea_new_def init_memory_def VMArea_is_fully_committed_def VMArea_is_partially_committed_def write_range_def
      perms_is_default_def chunk_eval)

abbreviation ex_one :: "VMArea list ChunkManager" where
  "ex_one \<equiv> ex_chunk [ex_area 8192 12288 None] [mk_range 4096 8192, mk_range 12288 20480]"

lemma ex_mapped:
  "ChunkManager_mmap ex_tree ex_env 7 (ex_opts (Need 8192)) (ex_chunk [] [mk_range 4096 20480], ex_world) =
     (Ok 8192, (ex_one, ex_world\<lparr>vw_mem := write_mem 8192 (as_slice (vw_mem ex_world) (mk_range 8192 12288)) (vw_mem ex_world)\<rparr>))"
proof -
  have "find_free_range_internal (cm_free_manager (ex_chunk [] [mk_range 4096 20480])) (mo_size (ex_opts (Need 8192))) (mo_align (ex_opts (Need 8192)))
      (mo_addr (ex_opts (Need 8192))) = Ok ([mk_range 4096 8192, mk_range 12288 20480], mk_range 8192 12288)"
    using ex_find by (simp add: ex_chunk_def ex_opts_def)
  moreover have "mo_addr (ex_opts (Need 8192)) = Need 8192" by (simp add: ex_opts_def)
  ultimately show ?thesis
    by (simp add: mmap_eq mmap_place_def ex_new_area) (simp add: chunk_eval)
qed

lemma ex_chunk_reach: "chunk_reach ex_tree ex_env ex_one"
  by (rule chunk_reach.mmap [OF chunk_reach.create [OF ex_created] ex_opts_ok ex_mapped]) simp_all

lemmas ex_inv = chunk_reach_inv [OF ex_chunk_reach ex_tree_ok]

theorem chunk_manager_safe_witness:
  "tree_ok ex_tree \<and> chunk_reach ex_tree ex_env ex_one \<and> cm_inv ex_tree ex_one \<and>
   free_set [mk_range 4096 8192, mk_range 12288 20480] = {a \<in> addrs (mk_range 4096 20480). view (cm_areas ex_tree ex_one) a = None}"
  using chunk_manager_safe [OF ex_tree_ok ex_chunk_reach] ex_tree_ok ex_chunk_reach by (simp add: ex_chunk_def)

section \<open>What the operations do\<close>

text \<open>
  C7: Unmapping keeps the invariant and, when it succeeds, makes exactly the calling process's addresses of
  the range (rounded up to pages) unmapped; every other address keeps its permissions, owner and file position.  When it
  fails, an address is as before or one of those it was to unmap.
\<close>

theorem chunk_munmap_exact:
  assumes "tree_ok T" "cm_inv T cm" "ChunkManager_munmap T env pid addr sz (cm, w) = (res, (cm', w'))" "res \<noteq> Panic"
  shows "cm_inv T cm' \<and> (\<forall>a. let out = gone pid (mk_range addr (uadd addr (align_up sz PAGE_SIZE))) (cm_areas T cm) a
    in if res = Ok () then view (cm_areas T cm') a = (if out then None else view (cm_areas T cm) a)
       else view (cm_areas T cm') a = view (cm_areas T cm) a \<or> out \<and> view (cm_areas T cm') a = None)"
  using munmap_unmaps [OF assms] by (auto simp: chunk_unmaps_def unmapped_def partly_unmapped_def Let_def)

lemma ex_flush:
  "flush_and_clean_memory ex_env (ex_area s e None) w = (Ok (), w\<lparr>vw_mem := write_mem s (replicate (e - s) 0) (vw_mem w)\<rparr>)"
  by (simp add: flush_and_clean_memory_def flush_and_clean_internal_def VMArea_writeback_file_def VMArea_is_fully_committed_def
      clear_range_def write_range_def perms_is_default_def act_bind_def act_return_def ex_area_def Let_def)

lemma ex_intersect: "VMArea_intersect ex_env (ex_area 8192 12288 None) (mk_range 8192 12288) = Ok (Some (ex_area 8192 12288 None))"
  by (simp add: VMArea_intersect_def VMRange_intersect_def VMRange_from_unchecked_def inherits_file_from_def split_pages_def
      new_with_page_tracker_def chunk_eval)

lemma ex_unmap_list:
  "munmap_list ex_env 7 (mk_range 8192 12288) [ex_area 8192 12288 None, ex_sentry 20480]
       ([mk_range 4096 8192, mk_range 12288 20480], 12288, ex_world) =
     (Ok (), [ex_sentry 20480], [mk_range 4096 20480], 16384, ex_world\<lparr>vw_mem := write_mem 8192 (replicate 4096 0) (vw_mem ex_world)\<rparr>)"
proof -
  have "munmap_at ex_env 7 (mk_range 8192 12288) (ex_area 8192 12288 None) ex_world =
      Cut (mk_range 8192 12288) [] (ex_world\<lparr>vw_mem := write_mem 8192 (replicate 4096 0) (vw_mem ex_world)\<rparr>)"
    using ex_intersect ex_flush [of 8192 12288 ex_world]
    by (simp add: munmap_at_def belong_to_def ex_area_def VMRange_size_def usub_def)
  moreover have "add_range_back_to_free_manager [mk_range 4096 8192, mk_range 12288 20480] (mk_range 8192 12288) = [mk_range 4096 20480]"
    by (simp add: free_list_eval)
  moreover have "munmap_at ex_env 7 (mk_range 8192 12288) (ex_sentry 20480) w = Stop (Ok ()) w" for w
    by (simp add: munmap_at_def ex_sentry_def)
  ultimately show ?thesis by (simp add: uadd_def VMRange_size_def usub_def)
qed

lemma ex_unmapped:
  "ChunkManager_munmap ex_tree ex_env 7 8192 4096 (ex_one, ex_world) =
     (Ok (), (ex_chunk [] [mk_range 4096 20480], ex_world\<lparr>vw_mem := write_mem 8192 (replicate 4096 0) (vw_mem ex_world)\<rparr>))"
proof -
  let ?w = "ex_world\<lparr>vw_mem := write_mem 8192 (replicate 4096 0) (vw_mem ex_world)\<rparr>"
  have a: "apart_areas ([ex_sentry 4096] @ [ex_area 8192 12288 None, ex_sentry 20480])" by (simp add: apart_simps ex_sentry_def ex_area_def)
  obtain t' where "munmap_loop ex_tree ex_env 7 (mk_range 8192 12288) 10 (length [ex_sentry 4096]) (ex_one, ex_world) =
      (Ok (), cm_after ex_one t' ([mk_range 4096 20480], 16384, ?w))" "rb_iter ex_tree t' = [ex_sentry 4096] @ [ex_sentry 20480]"
    using munmap_loop_list [OF ex_tree_ok _ a, of ex_one 10 ex_env 7 "mk_range 8192 12288" ex_world] ex_unmap_list
    by (auto simp: ex_chunk_def ex_tree_def VMRange_size_def usub_def)
  moreover have "align_up 4096 PAGE_SIZE = 4096" using align_up_aligned [of PAGE_SIZE 4096] is_power_of_two_4096 by simp
  ultimately show ?thesis
    by (simp add: ChunkManager_munmap_def ChunkManager_munmap_range_def VMRange_intersect_def VMRange_from_unchecked_def VMRange_empty_def
        cm_after_def chunk_eval)
qed

theorem chunk_munmap_exact_witness:
  "\<exists>cm' w'. ChunkManager_munmap ex_tree ex_env 7 8192 4096 (ex_one, ex_world) = (Ok (), (cm', w')) \<and> cm_inv ex_tree cm' \<and>
     view (cm_areas ex_tree ex_one) 8192 \<noteq> None \<and> view (cm_areas ex_tree cm') 8192 = None"
proof -
  have "gone 7 (mk_range 8192 (uadd 8192 (align_up 4096 PAGE_SIZE))) (cm_areas ex_tree ex_one) 8192"
    using align_up_aligned [of PAGE_SIZE 4096] is_power_of_two_4096
    by (simp add: gone_def ex_tree_def ex_chunk_def ex_sentry_def ex_area_def cm_areas_def belong_to_def range_simps uadd_def)
  moreover have "view (cm_areas ex_tree ex_one) 8192 \<noteq> None"
    by (simp add: ex_tree_def ex_chunk_def ex_sentry_def ex_area_def cm_areas_def range_simps)
  ultimately show ?thesis
    using chunk_munmap_exact [OF ex_tree_ok ex_inv ex_unmapped] ex_unmapped by (auto simp: Let_def)
qed

text \<open>
  C8: Mapping keeps the invariant.  When it succeeds, the answered address is aligned, is the requested one for a fixed
  request, and its range lies in the chunk; no address of it was in use, except addresses of the calling process
  under a forced request; afterwards exactly these addresses carry the requested permissions, owner and
  file position, and all others are as before.  When it fails, nothing has changed but what a forced request unmapped.
\<close>

theorem chunk_mmap_exact:
  assumes "tree_ok T" "cm_inv T cm" "opts_ok opts" "ChunkManager_mmap T env pid opts (cm, w) = (res, (cm', w'))" "res \<noteq> Panic"
  shows "cm_inv T cm' \<and> cm_range cm' = cm_range cm \<and>
    (case res of Ok a \<Rightarrow> chunk_maps T pid opts cm a cm' | _ \<Rightarrow> chunk_map_fails T pid opts cm cm')"
  by (rule mmap_correct [OF assms])

lemmas ex_start_inv = chunk_reach_inv [OF chunk_reach.create [OF ex_created] ex_tree_ok, simplified]

theorem chunk_mmap_exact_witness:
  "ChunkManager_mmap ex_tree ex_env 7 (ex_opts (Need 8192)) (ex_chunk [] [mk_range 4096 20480], ex_world) =
     (Ok 8192, (ex_one, ex_world\<lparr>vw_mem := write_mem 8192 (as_slice (vw_mem ex_world) (mk_range 8192 12288)) (vw_mem ex_world)\<rparr>)) \<and>
   chunk_maps ex_tree 7 (ex_opts (Need 8192)) (ex_chunk [] [mk_range 4096 20480]) 8192 ex_one"
  using chunk_mmap_exact [OF ex_tree_ok ex_start_inv ex_opts_ok ex_mapped] ex_mapped by simp

text \<open>
  C9: Changing permissions keeps the invariant, never changes which addresses are mapped, their owner or their file position, and
  when it succeeds gives the new permissions to exactly the calling process's addresses in the range.  When it fails, each
  address has its old permissions or those.
\<close>

theorem chunk_mprotect_exact:
  assumes "tree_ok T" "cm_inv T cm" "ChunkManager_mprotect T env pid addr sz p (cm, w) = (res, (cm', w'))"
  shows "cm_inv T cm' \<and> (\<forall>a. let new = map_option (\<lambda>(q, ac, f). (if gone pid (mk_range addr (addr + sz)) (cm_areas T cm) a then p else q, ac, f))
      (view (cm_areas T cm) a)
    in view (cm_areas T cm') a = new \<or> res \<noteq> Ok () \<and> view (cm_areas T cm') a = view (cm_areas T cm) a)"
  using mprotect_protects [OF assms] by (auto simp: chunk_protects_def protected_def partly_protected_def protect_view_def Let_def)

lemma ex_protect_list:
  "\<exists>w'. protect_list ex_env 7 (mk_range 8192 12288) PERM_READ [ex_area 8192 12288 None, ex_sentry 20480] ex_world =
     (Ok (), [ex_area 8192 12288 None\<lparr>va_perms := PERM_READ\<rparr>, ex_sentry 20480], w')"
proof -
  obtain w' where m: "modify_permissions_for_committed_pages ex_env (ex_area 8192 12288 None\<lparr>va_perms := PERM_READ\<rparr>) PERM_DEFAULT PERM_READ ex_world = (Ok (), w')"
    by (simp add: modify_permissions_for_committed_pages_def modify_permission_force_def modify_permission_def VMArea_is_fully_committed_def
        act_unwrap_def edmm_do_def ex_area_def ex_env_def Let_def)
  have "protect_at ex_env 7 (mk_range 8192 12288) PERM_READ (ex_area 8192 12288 None) ex_world =
      PCut [ex_area 8192 12288 None\<lparr>va_perms := PERM_READ\<rparr>] False w'"
    using ex_intersect m
    by (simp add: protect_at_def belong_to_def protect_denied_def protect_areas_def VMArea_writeback_file_def act_bind_def act_return_def
        ex_area_def perm_bits)
  moreover have "protect_at ex_env 7 (mk_range 8192 12288) PERM_READ (ex_sentry 20480) w = PStop (Ok ()) w" for w
    by (simp add: protect_at_def ex_sentry_def)
  ultimately show ?thesis by simp
qed

lemma ex_protected:
  "\<exists>cm' w'. ChunkManager_mprotect ex_tree ex_env 7 8192 4096 PERM_READ (ex_one, ex_world) = (Ok (), (cm', w'))"
proof -
  obtain w' where l: "protect_list ex_env 7 (mk_range 8192 12288) PERM_READ [ex_area 8192 12288 None, ex_sentry 20480] ex_world =
      (Ok (), [ex_area 8192 12288 None\<lparr>va_perms := PERM_READ\<rparr>, ex_sentry 20480], w')"
    using ex_protect_list by blast
  have a: "apart_areas ([ex_sentry 4096] @ [ex_area 8192 12288 None, ex_sentry 20480])" by (simp add: apart_simps ex_sentry_def ex_area_def)
  have p: "\<forall>v \<in> set [ex_area 8192 12288 None, ex_sentry 20480]. va_start v < va_end v \<longrightarrow> is_private v"
    by (simp add: ex_area_def ex_sentry_def is_private_def)
  obtain t' where "mprotect_loop ex_tree ex_env 7 (mk_range 8192 12288) PERM_READ 7 (length [ex_sentry 4096]) (ex_one, ex_world) =
      (Ok (), (ex_one\<lparr>cm_vmas := t'\<rparr>, w'))"
    using protect_loop_list [OF ex_tree_ok _ a _ p l, of ex_one 7] by (auto simp: ex_chunk_def ex_tree_def)
  then show ?thesis
    by (simp add: ChunkManager_mprotect_def VMRange_new_with_size_def checked_add_def chunk_eval)
qed

theorem chunk_mprotect_exact_witness:
  "\<exists>cm' w'. ChunkManager_mprotect ex_tree ex_env 7 8192 4096 PERM_READ (ex_one, ex_world) = (Ok (), (cm', w')) \<and> cm_inv ex_tree cm' \<and>
     view (cm_areas ex_tree ex_one) 8192 = Some (PERM_DEFAULT, PrivateTo 7, None) \<and> view (cm_areas ex_tree cm') 8192 = Some (PERM_READ, PrivateTo 7, None)"
proof -
  obtain cm' w' where m: "ChunkManager_mprotect ex_tree ex_env 7 8192 4096 PERM_READ (ex_one, ex_world) = (Ok (), (cm', w'))"
    using ex_protected by blast
  have "gone 7 (mk_range 8192 12288) (cm_areas ex_tree ex_one) 8192" "view (cm_areas ex_tree ex_one) 8192 = Some (PERM_DEFAULT, PrivateTo 7, None)"
    by (simp_all add: gone_def ex_tree_def ex_chunk_def ex_sentry_def ex_area_def cm_areas_def belong_to_def range_simps view_of_def)
  then show ?thesis
    using chunk_mprotect_exact [OF ex_tree_ok ex_inv m] m by (auto simp: Let_def)
qed

section \<open>The loops end\<close>

text \<open>What a run of a loop shows: its outcome, the areas, the free list, the free size and the state of the memory.\<close>

fun run_view :: "'t vma_tree \<Rightarrow> unit res \<times> 't ChunkManager \<times> 's vm_world \<Rightarrow> unit res \<times> VMArea list \<times> 's free_state" where
  "run_view T (res, cm, w) = (res, cm_areas T cm, cm_free_manager cm, cm_free_size cm, w)"

fun behind :: "VMArea list \<Rightarrow> unit res \<times> VMArea list \<times> 's free_state \<Rightarrow> unit res \<times> VMArea list \<times> 's free_state" where
  "behind pre (res, vs, st) = (res, pre @ vs, st)"

fun with_free :: "VMFreeSpaceManager \<Rightarrow> usize \<Rightarrow> unit res \<times> VMArea list \<times> 's vm_world \<Rightarrow> unit res \<times> VMArea list \<times> 's free_state" where
  "with_free fl fs (res, vs, w) = (res, vs, (fl, fs, w))"

text \<open>
  C15: The loops of the chunk manager over a cursor end: from a cursor with \<open>n\<close> areas at and behind it, the loop of
  unmapping takes at most \<open>3 n + 1\<close> rounds, that of changing permissions \<open>2 n + 1\<close>, those of cleaning and merging
  \<open>n + 1\<close>, although they insert, remove and replace areas on the way.  With at least that many rounds a loop does
  what the recursion over the list of these areas does, which takes no count of rounds.
\<close>

theorem chunk_loops_end:
  assumes "tree_ok T" "cm_inv T cm" "cm_areas T cm = pre @ vs"
  shows "(3 * length vs < n \<longrightarrow> run_view T (munmap_loop T env pid r n (length pre) (cm, w)) =
            behind pre (munmap_list env pid r vs (cm_free_manager cm, cm_free_size cm, w))) \<and>
         (2 * length vs < n \<longrightarrow> run_view T (mprotect_loop T env pid r p n (length pre) (cm, w)) =
            behind pre (with_free (cm_free_manager cm) (cm_free_size cm) (protect_list env pid r p vs w))) \<and>
         (length vs < n \<longrightarrow> run_view T (clean_loop T env pid n (length pre) (cm, w)) =
            behind pre (clean_list env pid vs (cm_free_manager cm, cm_free_size cm, w))) \<and>
         (length vs < n \<longrightarrow> run_view T (merge_loop T n (length pre) (cm, w)) =
            behind pre (with_free (cm_free_manager cm) (cm_free_size cm) (merge_list vs w)))"
proof -
  have ca: "chunk_areas (cm_range cm) (pre @ vs)" using assms(2,3) by (simp add: cm_inv_def)
  note ap = chunk_areas_apart [OF ca]
  have it: "rb_iter T (cm_vmas cm) = pre @ vs" using assms(3) by (simp add: cm_areas_def)
  have pr: "\<forall>v \<in> set vs. va_start v < va_end v \<longrightarrow> is_private v" using chunk_private [OF ca] by simp
  have "run_view T (munmap_loop T env pid r n (length pre) (cm, w)) =
      behind pre (munmap_list env pid r vs (cm_free_manager cm, cm_free_size cm, w))" if "3 * length vs < n"
    using munmap_loop_list [OF assms(1) it ap that] by (cases "munmap_list env pid r vs (cm_free_manager cm, cm_free_size cm, w)")
      (fastforce simp: cm_after_def cm_areas_def)
  moreover have "run_view T (mprotect_loop T env pid r p n (length pre) (cm, w)) =
      behind pre (with_free (cm_free_manager cm) (cm_free_size cm) (protect_list env pid r p vs w))" if "2 * length vs < n"
    using protect_loop_list [OF assms(1) it ap that pr] by (cases "protect_list env pid r p vs w") (fastforce simp: cm_areas_def)
  moreover have "run_view T (clean_loop T env pid n (length pre) (cm, w)) =
      behind pre (clean_list env pid vs (cm_free_manager cm, cm_free_size cm, w))" if "length vs < n"
    using clean_loop_list [OF assms(1) it that] by (cases "clean_list env pid vs (cm_free_manager cm, cm_free_size cm, w)")
      (fastforce simp: cm_after_def cm_areas_def)
  moreover have "run_view T (merge_loop T n (length pre) (cm, w)) =
      behind pre (with_free (cm_free_manager cm) (cm_free_size cm) (merge_list vs w))" if "length vs < n"
    using merge_loop_list [OF assms(1) it that] by (cases "merge_list vs w") (fastforce simp: cm_areas_def)
  ultimately show ?thesis by blast
qed

theorem chunk_loops_end_witness:
  "run_view ex_tree (munmap_loop ex_tree ex_env 7 (mk_range 8192 12288) 7 (length [ex_sentry 4096]) (ex_one, ex_world)) =
     (Ok (), [ex_sentry 4096, ex_sentry 20480], [mk_range 4096 20480], 16384,
      ex_world\<lparr>vw_mem := write_mem 8192 (replicate 4096 0) (vw_mem ex_world)\<rparr>)"
proof -
  have a: "cm_areas ex_tree ex_one = [ex_sentry 4096] @ [ex_area 8192 12288 None, ex_sentry 20480]"
    by (simp add: cm_areas_def ex_tree_def ex_chunk_def)
  have "munmap_list ex_env 7 (mk_range 8192 12288) [ex_area 8192 12288 None, ex_sentry 20480] (cm_free_manager ex_one, cm_free_size ex_one, ex_world) =
     (Ok (), [ex_sentry 20480], [mk_range 4096 20480], 16384, ex_world\<lparr>vw_mem := write_mem 8192 (replicate 4096 0) (vw_mem ex_world)\<rparr>)"
    using ex_unmap_list by (simp add: ex_chunk_def VMRange_size_def usub_def del: munmap_list.simps)
  then show ?thesis using chunk_loops_end [OF ex_tree_ok ex_inv a, of 7 ex_env 7 "mk_range 8192 12288" ex_world] by (simp del: munmap_list.simps)
qed

section \<open>Where the code does something else\<close>

lemma merge_two:
  fixes w :: "'s vm_world"
  assumes ok: "area_ok a" "area_ok b" and b: "va_end a = va_start b" "va_perms a = va_perms b" "va_access a = va_access b"
    and f: "va_file_backed a = Some f" "\<not> fb_write_back f" "va_file_backed b = Some g" "\<not> fb_write_back g"
    and s: "va_size s0 = 0" "va_size s1 = 0" and out: "merge_list [s0, a, b, s1] w = (Ok (), vs', w')"
  shows "\<exists>a' (w1 :: 's vm_world) w2. VMArea_set_end a (va_end b) w1 = (Ok a', w2) \<and> vs' = [s0, a', s1]"
proof -
  have sz: "va_size a \<noteq> 0" "va_size b \<noteq> 0" using ok by (auto simp: area_ok_def VMRange_size_def usub_def)
  have "can_merge_vmas a b"
    using sz ok b f by (auto simp: can_merge_vmas_def VMArea_writeback_file_def FileBacked_writeback_file_def area_ok_def is_private_def)
  moreover have "\<not> can_merge_vmas x s1" for x using s(2) by (simp add: can_merge_vmas_def)
  ultimately show ?thesis
    using out s sz by (auto split: prod.splits res.splits if_splits)
qed

text \<open>
  C30: Before it looks for the area to remap, \<open>parse_mremap_options\<close> merges neighbouring areas that agree in permissions, owner and
  write-back file; the files of private mappings are not compared.  So two neighbouring private mappings of different files become one, and
  every address of the second is from then on backed by the file of the first, at the position that follows from the first.
\<close>

theorem merge_mixes_private_files:
  assumes T: "tree_ok T" and inv: "cm_inv T cm" and areas: "cm_areas T cm = [s0, a, b, s1]"
    and b: "va_end a = va_start b" "va_perms a = va_perms b" "va_access a = va_access b"
    and f: "va_file_backed a = Some f" "\<not> fb_write_back f" "va_file_backed b = Some g" "\<not> fb_write_back g"
    and out: "merge_all_vmas T (cm, w) = (Ok (), (cm', w'))" and x: "x \<in> addrs (va_range b)"
  shows "view (cm_areas T cm) x = Some (va_perms b, va_access b, Some (fb_file g, uadd (fb_offset g) (usub x (va_start b)), False)) \<and>
    view (cm_areas T cm') x = Some (va_perms b, va_access b, Some (fb_file f, uadd (fb_offset f) (usub x (va_start a)), False))"
proof -
  have ca: "chunk_areas (cm_range cm) [s0, a, b, s1]" using inv areas by (simp add: cm_inv_def)
  then have ok: "area_ok a" "area_ok b" "va_size s0 = 0" "va_size s1 = 0" and ap: "apart_areas [s0, a, b, s1]"
    by (auto simp: chunk_areas_def VMRange_size_def usub_def)
  obtain res vs' w1 where l: "merge_list [s0, a, b, s1] w = (res, vs', w1)" by (metis prod_cases3)
  obtain t' where "merge_loop T (2 * length [s0, a, b, s1] + 1) (length ([] :: VMArea list)) (cm, w) = (res, (cm\<lparr>cm_vmas := t'\<rparr>, w1))" "rb_iter T t' = vs'"
    using merge_loop_list [OF T, of cm "[]" "[s0, a, b, s1]" "2 * length [s0, a, b, s1] + 1" w res vs' w1] l areas by (auto simp: cm_areas_def)
  then have r: "res = Ok ()" "cm_areas T cm' = vs'" using out areas by (auto simp: merge_all_vmas_def cm_areas_def)
  obtain a' and w2 w3 :: "'b vm_world" where a': "VMArea_set_end a (va_end b) w2 = (Ok a', w3)" "vs' = [s0, a', s1]"
    using merge_two [OF ok(1,2) b f ok(3,4)] l r(1) by blast
  note e = set_end_Ok [OF a'(1)]
  have "x \<notin> addrs (va_range s0)" "x \<notin> addrs (va_range a)" "x \<in> addrs (va_range a')"
    using x ap b(1) ok(1,2) e(1) by (auto simp: apart_simps range_simps area_ok_def)
  then show ?thesis using x e(5) [of x] f b a'(2) r(2) areas by (simp add: view_of_def)
qed

abbreviation ex_private :: "FileRef \<Rightarrow> FileBacked option" where
  "ex_private file \<equiv> Some \<lparr>fb_file = file, fb_offset = 0, fb_write_back = False\<rparr>"

abbreviation ex_two :: "VMArea list ChunkManager" where
  "ex_two \<equiv> ex_chunk [ex_area 8192 12288 (ex_private 1), ex_area 12288 16384 (ex_private 2)] [mk_range 4096 8192, mk_range 16384 20480]"

lemma ex_two_inv: "cm_inv ex_tree ex_two"
proof -
  have "chunk_areas (mk_range 4096 20480)
      [ex_sentry 4096, ex_area 8192 12288 (ex_private 1), ex_area 12288 16384 (ex_private 2), ex_sentry 20480]"
    by (simp add: chunk_areas_def ex_sentry_def ex_area_def apart_simps area_ok_def page_aligned_def is_private_def)
  moreover have fl: "fl_inv [mk_range 4096 8192, mk_range 16384 20480]" by (simp add: fl_inv_def proper_def)
  moreover have "free_set [mk_range 4096 8192, mk_range 16384 20480] =
      addrs (mk_range 4096 20480) - area_set [ex_sentry 4096, ex_area 8192 12288 (ex_private 1), ex_area 12288 16384 (ex_private 2), ex_sentry 20480]"
    by (auto simp: ex_sentry_def ex_area_def range_simps)
  ultimately show ?thesis
    using free_set_card_sum [OF fl]
    by (simp add: cm_inv_def cm_areas_def ex_tree_def ex_chunk_def free_ok_def proper_def page_aligned_def VMRange_size_def usub_def)
qed

lemma ex_two_merged: "\<exists>cm' w'. merge_all_vmas ex_tree (ex_two, ex_world) = (Ok (), (cm', w'))"
proof -
  let ?vs = "[ex_sentry 4096, ex_area 8192 12288 (ex_private 1), ex_area 12288 16384 (ex_private 2), ex_sentry 20480]"
  have "fst (merge_list ?vs ex_world) = Ok ()"
    by (simp add: can_merge_vmas_def VMArea_writeback_file_def FileBacked_writeback_file_def VMArea_set_end_def VMRange_set_end_def tracker_for_def
        new_vma_tracker_def VMRange_size_def usub_def act_bind_def act_return_def ex_sentry_def ex_area_def Let_def)
  then obtain vs' w' where "merge_list ?vs ex_world = (Ok (), vs', w')" by (metis prod.collapse)
  then obtain t' where "merge_loop ex_tree 9 (length ([] :: VMArea list)) (ex_two, ex_world) = (Ok (), (ex_two\<lparr>cm_vmas := t'\<rparr>, w'))"
    using merge_loop_list [OF ex_tree_ok, of ex_two "[]" ?vs 9 ex_world "Ok ()" vs' w'] by (auto simp: ex_tree_def ex_chunk_def simp del: merge_list.simps)
  then show ?thesis by (simp add: merge_all_vmas_def cm_areas_def ex_tree_def ex_chunk_def)
qed

theorem merge_mixes_private_files_witness:
  "\<exists>cm' w'. merge_all_vmas ex_tree (ex_two, ex_world) = (Ok (), (cm', w')) \<and>
     view (cm_areas ex_tree ex_two) 12288 = Some (PERM_DEFAULT, PrivateTo 7, Some (2, 0, False)) \<and>
     view (cm_areas ex_tree cm') 12288 = Some (PERM_DEFAULT, PrivateTo 7, Some (1, 4096, False))"
proof -
  obtain cm' w' where m: "merge_all_vmas ex_tree (ex_two, ex_world) = (Ok (), (cm', w'))" using ex_two_merged by blast
  have a: "cm_areas ex_tree ex_two = [ex_sentry 4096, ex_area 8192 12288 (ex_private 1), ex_area 12288 16384 (ex_private 2), ex_sentry 20480]"
    by (simp add: cm_areas_def ex_tree_def ex_chunk_def)
  show ?thesis
    using merge_mixes_private_files [OF ex_tree_ok ex_two_inv a _ _ _ _ _ _ _ m, of "the (ex_private 1)" "the (ex_private 2)" 12288] m
    by (auto simp: ex_area_def range_simps uadd_def usub_def)
qed

text \<open>
  C31: When the old range of \<open>mremap\<close> lies inside the chunk but no area of the process contains it, the search does not
  answer \<open>EFAULT\<close>: it ends at the next area behind the range, of whatever process (or at the sentry), and
  the request is planned for that area.
\<close>

theorem mremap_search_takes_other_area:
  assumes "tree_ok T" "cm_inv T cm" "r_start (cm_range cm) \<le> r_start old_range" "r_end old_range < r_end (cm_range cm)"
    and none: "\<forall>v \<in> set (cm_areas T cm). \<not> (belong_to v pid \<and> is_superset_of (va_range v) old_range)"
  shows "\<exists>v \<in> set (cm_areas T cm). containing_vma T pid old_range cm = Ok v \<and> r_end old_range < va_start v"
proof -
  obtain i xs v ys where u: "rb_upper_bound T (cm_vmas cm) (r_start old_range) = Some i" "cm_areas T cm = xs @ v # ys" "length xs = i"
    by (rule chunk_search [OF assms(1-3)])
  let ?P = "\<lambda>vma. va_start vma \<le> r_end old_range \<and> \<not> (belong_to vma pid \<and> is_superset_of (va_range vma) old_range)"
  have "chunk_areas (cm_range cm) (xs @ v # ys)" using assms(2) by (simp add: cm_inv_def u(2))
  then have "va_start (last (v # ys)) = r_end (cm_range cm)" by (simp add: chunk_areas_def)
  then have "\<not> ?P (last (v # ys))" using assms(4) by simp
  then have "dropWhile ?P (v # ys) \<noteq> []" using last_in_set [of "v # ys"] by (auto simp only: dropWhile_eq_Nil_conv)
  then obtain x zs where x: "dropWhile ?P (v # ys) = x # zs" by (auto simp only: neq_Nil_conv)
  then have "\<not> ?P x" "x \<in> set (v # ys)" using hd_dropWhile [of ?P "v # ys"] set_dropWhileD [of x ?P "v # ys"] by simp_all
  moreover have "x \<in> set (cm_areas T cm)" using calculation(2) u(2) by auto
  ultimately show ?thesis using none u x by (auto simp: containing_vma_def)
qed

theorem mremap_search_takes_other_area_witness:
  "\<exists>v \<in> set (cm_areas ex_tree ex_one). containing_vma ex_tree 7 (mk_range 12288 16384) ex_one = Ok v \<and> 16384 < va_start v"
  using mremap_search_takes_other_area [OF ex_tree_ok ex_inv, of "mk_range 12288 16384" 7]
  by (simp add: cm_areas_def ex_tree_def ex_chunk_def ex_sentry_def ex_area_def belong_to_def is_superset_of_def)

end
