(* ===== verification/Spec2Isabelle.thy ===== *)
theory Spec2Isabelle
  imports UntrustedAlloc FileTable RangeLock VmRemap Notify Flock ChunkCorrect
begin

text \<open>
  A verification development for Occlum, a library operating system (LibOS) that runs processes inside an
  Intel SGX enclave.  The program is the Rust code under \<^verbatim>\<open>src/libos/src\<close>; a few host-side C functions
  under \<^verbatim>\<open>src/pal/src/ocalls\<close> are part of a protocol and modelled with it.

  \<^bold>\<open>The program's parts.\<close>  The memory system (\<^verbatim>\<open>vm\<close>) hands out the enclave's memory in chunks; a chunk
  manager keeps the areas in use in a red-black tree and the rest in a free list, areas track which of
  their pages are committed, and \<open>mremap\<close> is planned from the areas and carried out with \<open>mmap\<close> and \<open>munmap\<close>.
  The allocator of untrusted memory (\<^verbatim>\<open>untrusted\<close>) is a second, smaller client of the same ideas.  The file
  system layer (\<^verbatim>\<open>fs\<close>) has the table of file descriptors and two kinds of advisory locks, whose waiting
  threads sleep on the primitives of the event system (\<^verbatim>\<open>events\<close>), which also tells pollers about events.

  \<^bold>\<open>Theories.\<close>
  \<^item> \<open>OcclumPrelude\<close>: results with error numbers and panics, arithmetic on \<open>usize\<close>, alignment
    (\<^verbatim>\<open>prelude.rs\<close>), generic lemmas.
  \<^item> \<open>VmRange\<close>: \<^verbatim>\<open>vm/vm_range.rs\<close>, \<^verbatim>\<open>vm/vm_layout.rs\<close>; interval arithmetic is set algebra.
  \<^item> \<open>AllocSpec\<close>: the contract of a range allocator (locale \<open>free_space\<close>) and what its clients may rely on.
  \<^item> \<open>FreeSpace\<close>: \<^verbatim>\<open>vm/free_space_manager.rs\<close>; refinement of a set-based search, exact bookkeeping, round trips,
    interpretation of the contract.
  \<^item> \<open>RbTree\<close>: the operations of the third-party red-black tree as a parameter, with its documented laws.
  \<^item> \<open>UntrustedAlloc\<close>: \<^verbatim>\<open>untrusted/*.rs\<close>; live allocations never overlap, requests are answered, two
    findings.
  \<^item> \<open>FileTable\<close>: \<^verbatim>\<open>fs/file_table.rs\<close>; lowest free descriptors, closing, one finding.
  \<^item> \<open>RangeLock\<close>: \<^verbatim>\<open>fs/locks/range_lock\<close>; the sorted list of record locks against a map from bytes to
    owners, mutual exclusion over all interleavings, the C structure.
  \<^item> \<open>VmPerms\<close>, \<open>PageTracker\<close>: \<^verbatim>\<open>vm/vm_perms.rs\<close>, \<^verbatim>\<open>vm/page_tracker.rs\<close>; committed pages are never
    committed again and the trackers agree with the global one.
  \<^item> \<open>VmUtil\<close>, \<open>VmArea\<close>, \<open>VmAreaMem\<close>, \<open>VmRemap\<close>: \<^verbatim>\<open>vm/vm_util.rs\<close>, \<^verbatim>\<open>vm/vm_area.rs\<close>, parts of
    \<^verbatim>\<open>vm/vm_epc.rs\<close> and \<^verbatim>\<open>vm/process_vm.rs\<close>; requests, areas with their pages and files, page faults,
    write-back, the plan of \<open>mremap\<close> and its execution; the plan is exact, three findings.
  \<^item> \<open>ChunkManager\<close>: \<^verbatim>\<open>vm/vm_chunk_manager.rs\<close>.
  \<^item> \<open>WaitWake\<close>, \<open>Notify\<close>, \<open>Flock\<close>: \<^verbatim>\<open>events\<close>, \<^verbatim>\<open>fs/events.rs\<close>, \<^verbatim>\<open>fs/locks/flock.rs\<close>; no wake-up is lost
    (locale \<open>synchronizer_laws\<close>, interpreted for both synchronizers), pollers are told, locks exclude each other.

  \<^bold>\<open>Conventions.\<close>  A struct is a record, an enum a datatype, flags are words; \<open>usize\<close> is a natural number
  and additions wrap at \<open>2 ^ 64\<close> as in a release build.  A function that may fail returns \<open>Ok\<close>, \<open>Err\<close> with the
  error number, or \<open>Panic\<close>.  Effects are passed explicitly.  Threads are interleaved by step relations.
  \<open>debug_assert!\<close> is not part of a model; where it matters its condition is proved.
\<close>

end
